(* ===== verification/Prelude.thy ===== *)
theory Prelude
  imports Main
begin

text \<open>
  What every component shares: the outcomes a C++ statement can have besides a value
  (\<open>fault\<close>), sequencing of steps that can fail (\<open>bindR\<close>, \<open>assertR\<close>, \<open>foldR\<close>), the
  conversions between the integer types of the code, and lemmas about them.

  A run of the program that aborts or leaves the defined behaviour of C++ is a value
  \<open>Inl f\<close> of the model, so that a theorem \<open>op x = Inr y\<close> says that no assertion of the
  code fails, nothing is thrown and no memory is touched out of range.
\<close>

section \<open>Outcomes\<close>

text \<open>
  \<open>AssertFail\<close> is a failed \<open>assert\<close>, \<open>FatalLog\<close> the \<open>abort()\<close> that
  \<open>LOG_FATAL\<close> and \<open>LOG_SYSFATAL\<close> end with, \<open>CppException\<close> a C++ exception that
  nothing in the repository catches, and \<open>UndefinedBehaviour\<close> an access outside an object
  or through a dangling, null or past-the-end pointer. \<open>Diverges\<close> is a handler that
  never returns.
\<close>

datatype fault = AssertFail | FatalLog | CppException | UndefinedBehaviour | Diverges

type_synonym 'a res = "fault + 'a"

definition bindR :: "'a res \<Rightarrow> ('a \<Rightarrow> 'b res) \<Rightarrow> 'b res" where
  "bindR m k = (case m of Inl e \<Rightarrow> Inl e | Inr x \<Rightarrow> k x)"

definition assertR :: "bool \<Rightarrow> 'a res \<Rightarrow> 'a res" where
  "assertR b k = (if b then k else Inl AssertFail)"

fun foldR :: "('a \<Rightarrow> 's \<Rightarrow> 's res) \<Rightarrow> 'a list \<Rightarrow> 's \<Rightarrow> 's res" where
  "foldR f [] s = Inr s"
| "foldR f (x # xs) s = bindR (f x s) (foldR f xs)"

named_theorems res_simps \<open>equations of the sequencing operators\<close>
named_theorems cint_simps \<open>integer conversions that change nothing in range\<close>

lemma bindR_Inl [simp, res_simps]: "bindR (Inl e) k = Inl e"
  by (simp add: bindR_def)

lemma bindR_Inr [simp, res_simps]: "bindR (Inr x) k = k x"
  by (simp add: bindR_def)

lemma bindR_eq_Inr [res_simps]: "bindR m k = Inr y \<longleftrightarrow> (\<exists>x. m = Inr x \<and> k x = Inr y)"
  by (cases m) auto

lemma bindR_eq_Inl:
  "bindR m k = Inl e \<longleftrightarrow> m = Inl e \<or> (\<exists>x. m = Inr x \<and> k x = Inl e)"
  by (cases m) auto

lemma bindR_return [simp]: "bindR m Inr = m"
  by (cases m) auto

lemma bindR_assoc: "bindR (bindR m f) g = bindR m (\<lambda>x. bindR (f x) g)"
  by (cases m) auto

lemma bindR_cong [fundef_cong]:
  "m = m' \<Longrightarrow> (\<And>x. m' = Inr x \<Longrightarrow> k x = k' x) \<Longrightarrow> bindR m k = bindR m' k'"
  by (cases m') auto

lemma assertR_True [simp, res_simps]: "assertR True k = k"
  by (simp add: assertR_def)

lemma assertR_False [simp, res_simps]: "assertR False k = Inl AssertFail"
  by (simp add: assertR_def)

lemma assertR_eq_Inr [simp, res_simps]: "assertR b k = Inr y \<longleftrightarrow> b \<and> k = Inr y"
  by (simp add: assertR_def)

lemma bindR_assertR [simp]: "bindR (assertR b m) k = assertR b (bindR m k)"
  by (simp add: assertR_def)

lemma bindR_E:
  assumes "bindR m k = Inr y"
  obtains x where "m = Inr x" and "k x = Inr y"
  using assms by (auto simp: bindR_eq_Inr)

lemma bindR_inv:
  assumes "bindR m k = Inr y" and "\<And>x. m = Inr x \<Longrightarrow> P x"
    and "\<And>x. P x \<Longrightarrow> k x = Inr y \<Longrightarrow> Q y"
  shows "Q y"
  using assms by (auto simp: bindR_eq_Inr)

lemma foldR_append: "foldR f (xs @ ys) s = bindR (foldR f xs s) (foldR f ys)"
proof (induction xs arbitrary: s)
  case Nil
  then show ?case by simp
next
  case (Cons x xs)
  then show ?case by (cases "f x s") simp_all
qed

lemma foldR_single [simp]: "foldR f [x] s = f x s"
  by (cases "f x s") simp_all

lemma bindR_foldR_Nil [simp]: "bindR m (foldR f []) = m"
  by (cases m) simp_all

text \<open>A property that every successful step keeps holds after a successful run.\<close>

lemma foldR_invariant:
  assumes "foldR f xs s = Inr t" and "P s"
    and "\<And>x s t. x \<in> set xs \<Longrightarrow> P s \<Longrightarrow> f x s = Inr t \<Longrightarrow> P t"
  shows "P t"
  using assms
proof (induction xs arbitrary: s)
  case Nil
  then show ?case by simp
next
  case (Cons x xs)
  from Cons.prems(1) obtain u where u: "f x s = Inr u" "foldR f xs u = Inr t"
    by (auto simp: bindR_eq_Inr)
  from Cons.prems(2,3) u(1) have "P u" by auto
  with u(2) Cons.IH Cons.prems(3) show ?case by auto
qed

text \<open>A run whose every step succeeds under an invariant succeeds as a whole.\<close>

lemma foldR_total:
  assumes "P s" and "\<And>x s. x \<in> set xs \<Longrightarrow> P s \<Longrightarrow> \<exists>t. f x s = Inr t \<and> P t"
  shows "\<exists>t. foldR f xs s = Inr t \<and> P t"
  using assms
proof (induction xs arbitrary: s)
  case Nil
  then show ?case by simp
next
  case (Cons x xs)
  from Cons.prems obtain u where u: "f x s = Inr u" "P u"
    by force
  from Cons.IH [OF u(2)] Cons.prems(2) have "\<exists>t. foldR f xs u = Inr t \<and> P t"
    by auto
  with u(1) show ?case by simp
qed

section \<open>Integer types\<close>

text \<open>
  The integer types of the code as \<open>int\<close> with the conversion written out: \<open>size_t\<close> is the
  conversion to an unsigned 64-bit value, \<open>int32\<close> and \<open>int64\<close> the conversions to signed
  32-bit and 64-bit values (modulo a power of two, as every supported compiler does).
\<close>

definition size_t :: "int \<Rightarrow> int" where
  "size_t x = x mod 2 ^ 64"

definition int32 :: "int \<Rightarrow> int" where
  "int32 x = (x + 2 ^ 31) mod 2 ^ 32 - 2 ^ 31"

definition int64 :: "int \<Rightarrow> int" where
  "int64 x = (x + 2 ^ 63) mod 2 ^ 64 - 2 ^ 63"

lemma size_t_id [cint_simps]: "0 \<le> x \<Longrightarrow> x < 2 ^ 64 \<Longrightarrow> size_t x = x"
  by (simp add: size_t_def)

lemma size_t_nonneg [simp]: "0 \<le> size_t x"
  by (simp add: size_t_def)

lemma size_t_less: "size_t x < 2 ^ 64"
  by (simp add: size_t_def)

lemma size_t_wrap: "- (2 ^ 64) \<le> x \<Longrightarrow> x < 0 \<Longrightarrow> size_t x = x + 2 ^ 64"
proof -
  assume "- (2 ^ 64) \<le> x" "x < 0"
  then have "(x + 2 ^ 64) mod 2 ^ 64 = x + 2 ^ 64"
    by (intro mod_pos_pos_trivial) auto
  then show ?thesis by (simp add: size_t_def)
qed

lemma int32_id [cint_simps]: "- (2 ^ 31) \<le> x \<Longrightarrow> x < 2 ^ 31 \<Longrightarrow> int32 x = x"
  by (simp add: int32_def)

lemma int32_range: "- (2 ^ 31) \<le> int32 x \<and> int32 x < 2 ^ 31"
  using pos_mod_bound [of "2 ^ 32" "x + 2 ^ 31"] pos_mod_sign [of "2 ^ 32" "x + 2 ^ 31"]
  by (simp add: int32_def)

lemma int64_id [cint_simps]: "- (2 ^ 63) \<le> x \<Longrightarrow> x < 2 ^ 63 \<Longrightarrow> int64 x = x"
  by (simp add: int64_def)

text \<open>C++ division and remainder round towards zero.\<close>

definition cdiv :: "int \<Rightarrow> int \<Rightarrow> int" where
  "cdiv a b = sgn a * sgn b * (\<bar>a\<bar> div \<bar>b\<bar>)"

definition crem :: "int \<Rightarrow> int \<Rightarrow> int" where
  "crem a b = a - b * cdiv a b"

lemma cdiv_nonneg [cint_simps]: "0 \<le> a \<Longrightarrow> 0 < b \<Longrightarrow> cdiv a b = a div b"
  by (cases "a = 0") (simp_all add: cdiv_def)

lemma crem_nonneg [cint_simps]: "0 \<le> a \<Longrightarrow> 0 < b \<Longrightarrow> crem a b = a mod b"
  by (simp add: crem_def cdiv_nonneg minus_mult_div_eq_mod)

lemma cdiv_crem: "b * cdiv a b + crem a b = a"
  by (simp add: crem_def)

section \<open>Lists\<close>

text \<open>
  A C++ vector of bytes is a list. \<open>write_at\<close> is \<open>std::copy\<close> of a block to a position of
  the vector: a block that does not fit leaves the vector, which C++ does not define.
\<close>

definition write_at :: "'a list \<Rightarrow> int \<Rightarrow> 'a list \<Rightarrow> 'a list res" where
  "write_at src pos dst =
     (if src = [] then Inr dst
      else if 0 \<le> pos \<and> pos + int (length src) \<le> int (length dst)
      then Inr (take (nat pos) dst @ src @ drop (nat pos + length src) dst)
      else Inl UndefinedBehaviour)"

text \<open>\<open>read_range\<close> is the block \<open>[from, to)\<close> of the vector.\<close>

definition read_range :: "int \<Rightarrow> int \<Rightarrow> 'a list \<Rightarrow> 'a list res" where
  "read_range lo hi xs =
     (if lo = hi then Inr []
      else if 0 \<le> lo \<and> lo < hi \<and> hi \<le> int (length xs)
      then Inr (take (nat (hi - lo)) (drop (nat lo) xs))
      else Inl UndefinedBehaviour)"

lemma write_at_length: "write_at src pos dst = Inr ys \<Longrightarrow> length ys = length dst"
  by (auto simp: write_at_def split: if_splits)

lemma write_at_ok:
  "0 \<le> pos \<Longrightarrow> pos + int (length src) \<le> int (length dst) \<Longrightarrow>
   write_at src pos dst = Inr (take (nat pos) dst @ src @ drop (nat pos + length src) dst)"
  by (simp add: write_at_def)

lemma read_range_ok:
  "0 \<le> lo \<Longrightarrow> lo \<le> hi \<Longrightarrow> hi \<le> int (length xs) \<Longrightarrow>
   read_range lo hi xs = Inr (take (nat (hi - lo)) (drop (nat lo) xs))"
  by (simp add: read_range_def)

lemma read_range_nat:
  "r \<le> w \<Longrightarrow> w \<le> length xs \<Longrightarrow>
   read_range (int r) (int w) xs = Inr (take (w - r) (drop r xs))"
  by (simp add: read_range_def flip: of_nat_diff)

text \<open>Moving the last element into a gap, as the pollers' and vectors' removal idiom does.\<close>

lemma fill_gap:
  assumes "distinct xs" and "i < length xs - 1"
  shows "set ((butlast xs)[i := last xs]) = set xs - {xs ! i}"
    and "distinct ((butlast xs)[i := last xs])"
proof -
  from assms(2) have "xs \<noteq> []" by auto
  then obtain ys z where xs: "xs = ys @ [z]" by (metis rev_exhaust)
  with assms have d: "distinct ys" "z \<notin> set ys" "i < length ys" by auto
  then have "xs ! i = ys ! i" "ys ! i \<noteq> z" by (auto simp: xs nth_append)
  with d show "set ((butlast xs)[i := last xs]) = set xs - {xs ! i}"
    by (auto simp: xs set_update_distinct)
  show "distinct ((butlast xs)[i := last xs])"
    using d by (simp add: xs distinct_list_update)
qed

lemma drop_last:
  assumes "distinct xs" and "xs \<noteq> []"
  shows "set (butlast xs) = set xs - {last xs}" and "distinct (butlast xs)"
proof -
  from assms(2) obtain ys z where xs: "xs = ys @ [z]" by (metis rev_exhaust)
  with assms(1) show "set (butlast xs) = set xs - {last xs}" "distinct (butlast xs)" by auto
qed

end
