(* ===== verification/Buffer.thy ===== *)
theory Buffer
  imports Prelude
begin

text \<open>
  \<^verbatim>\<open>net/Buffer.h\<close> and \<^verbatim>\<open>net/Buffer.cc\<close>: the byte buffer of a connection, a vector
  with a read index and a write index of type \<open>int\<close>. A pointer into the vector is its offset
  from \<open>begin()\<close>. Sizes are \<open>size_t\<close>, so \<open>buffer_.size() - writeIndex_\<close> wraps around when
  the write index lies behind the end, which \<open>makespace\<close> can cause; the lemmas say exactly
  when \<open>append\<close> and \<open>readFd\<close> keep the buffer well formed and which fault they end with
  otherwise. The last section states what a connection needs of its buffers, a queue of
  bytes, as a locale, and interprets it on these operations.
\<close>

section \<open>State and accessors\<close>

record buffer =
  bytes :: "char list"
  readIndex :: int
  writeIndex :: int

definition kCheapPrepend :: int where
  "kCheapPrepend = 8"

definition kInitialSize :: int where
  "kInitialSize = 1024"

definition kCRLF :: "char list" where
  "kCRLF = [CHR 0x0D, CHR 0x0A]"

definition NUL :: char where
  "NUL = CHR 0x00"

definition new_buffer :: buffer where
  "new_buffer =
     \<lparr>bytes = replicate (nat (kCheapPrepend + kInitialSize)) NUL,
      readIndex = kCheapPrepend, writeIndex = kCheapPrepend\<rparr>"

definition bufsize :: "buffer \<Rightarrow> int" where
  "bufsize b = int (length (bytes b))"

definition readableBytes :: "buffer \<Rightarrow> int" where
  "readableBytes b = size_t (int32 (writeIndex b - readIndex b))"

definition writeableBytes :: "buffer \<Rightarrow> int" where
  "writeableBytes b = size_t (bufsize b - size_t (writeIndex b))"

definition prependableBytes :: "buffer \<Rightarrow> int" where
  "prependableBytes b = size_t (readIndex b)"

definition peek :: "buffer \<Rightarrow> int" where
  "peek b = readIndex b"

definition writeBegin :: "buffer \<Rightarrow> int" where
  "writeBegin b = writeIndex b"

definition swap_buffers :: "buffer \<Rightarrow> buffer \<Rightarrow> buffer \<times> buffer" where
  "swap_buffers a b =
     (a\<lparr>bytes := bytes b, readIndex := readIndex b, writeIndex := writeIndex b\<rparr>,
      b\<lparr>bytes := bytes a, readIndex := readIndex a, writeIndex := writeIndex a\<rparr>)"

section \<open>Searching\<close>

text \<open>
  \<open>std::search\<close> for the two bytes of \<open>kCRLF\<close>: the offset of the first occurrence in a
  block, the length of the block when there is none.
\<close>

fun crlf_pos :: "char list \<Rightarrow> nat" where
  "crlf_pos [] = 0"
| "crlf_pos [c] = 1"
| "crlf_pos (c # d # cs) = (if [c, d] = kCRLF then 0 else Suc (crlf_pos (d # cs)))"

definition search_crlf :: "int \<Rightarrow> buffer \<Rightarrow> int option res" where
  "search_crlf start b =
     bindR (read_range start (writeBegin b) (bytes b)) (\<lambda>d.
       let crlf = start + int (crlf_pos d)
       in Inr (if crlf = writeBegin b then None else Some crlf))"

definition findCRLF :: "buffer \<Rightarrow> int option res" where
  "findCRLF b = search_crlf (peek b) b"

definition findCRLF_from :: "int \<Rightarrow> buffer \<Rightarrow> int option res" where
  "findCRLF_from start b =
     assertR (peek b \<le> start) (assertR (start \<le> writeBegin b) (search_crlf start b))"

section \<open>Taking bytes out\<close>

definition retrieve :: "int \<Rightarrow> buffer \<Rightarrow> buffer res" where
  "retrieve len b =
     assertR (len \<le> readableBytes b)
       (Inr (b\<lparr>readIndex := int32 (size_t (readIndex b) + len)\<rparr>))"

definition retrieve_until :: "int \<Rightarrow> buffer \<Rightarrow> buffer res" where
  "retrieve_until endp b =
     assertR (peek b \<le> endp) (assertR (endp \<le> writeBegin b)
       (Inr (b\<lparr>readIndex := int32 (readIndex b + (endp - peek b))\<rparr>)))"

definition retrieveAll :: "buffer \<Rightarrow> buffer" where
  "retrieveAll b = b\<lparr>readIndex := kCheapPrepend, writeIndex := kCheapPrepend\<rparr>"

definition retrieveAsString :: "buffer \<Rightarrow> (string \<times> buffer) res" where
  "retrieveAsString b =
     bindR (read_range (peek b) (peek b + readableBytes b) (bytes b)) (\<lambda>str.
       Inr (str, b\<lparr>readIndex := kCheapPrepend, writeIndex := kCheapPrepend\<rparr>))"

section \<open>Putting bytes in\<close>

text \<open>
  \<open>vector::resize\<close>: a shorter length drops the tail, a longer one adds zero bytes, a length
  over the maximum throws \<open>length_error\<close>.
\<close>

definition resize :: "int \<Rightarrow> char list \<Rightarrow> char list res" where
  "resize n xs =
     (if n < 2 ^ 63 then Inr (take (nat n) xs @ replicate (nat n - length xs) NUL)
      else Inl CppException)"

definition makespace :: "int \<Rightarrow> buffer \<Rightarrow> buffer res" where
  "makespace len_more b =
     (if size_t (writeableBytes b + size_t (readIndex b)) < size_t (len_more + kCheapPrepend)
      then bindR (resize (size_t (writeableBytes b + len_more)) (bytes b)) (\<lambda>v.
             Inr (b\<lparr>bytes := v\<rparr>))
      else
        let used = readableBytes b
        in bindR (read_range (readIndex b) (writeIndex b) (bytes b)) (\<lambda>d.
           bindR (write_at d kCheapPrepend (bytes b)) (\<lambda>v.
           let b' = b\<lparr>bytes := v, readIndex := kCheapPrepend,
                      writeIndex := int32 (kCheapPrepend + used)\<rparr>
           in assertR (used = readableBytes b') (Inr b'))))"

definition append_bytes :: "char list \<Rightarrow> buffer \<Rightarrow> buffer res" where
  "append_bytes data b =
     (let len = int (length data)
      in bindR (if len > writeableBytes b then makespace len b else Inr b) (\<lambda>b'.
         assertR (len < writeableBytes b')
           (bindR (write_at data (writeBegin b') (bytes b')) (\<lambda>v.
              Inr (b'\<lparr>bytes := v, writeIndex := int32 (size_t (writeIndex b') + len)\<rparr>)))))"

definition prepend :: "char list \<Rightarrow> buffer \<Rightarrow> buffer res" where
  "prepend data b =
     (let len = int (length data)
      in assertR (len < prependableBytes b)
           (let r = int32 (size_t (readIndex b) - len)
            in bindR (write_at data r (bytes b)) (\<lambda>v.
                 Inr (b\<lparr>bytes := v, readIndex := r\<rparr>))))"

definition shrink :: "int \<Rightarrow> buffer \<Rightarrow> buffer res" where
  "shrink reserve b =
     bindR (resize (size_t (kCheapPrepend + readableBytes b + reserve)) []) (\<lambda>buf.
     let used = readableBytes b
     in bindR (read_range (readIndex b) (writeIndex b) (bytes b)) (\<lambda>d.
        bindR (write_at d kCheapPrepend buf) (\<lambda>v.
          Inr (b\<lparr>bytes := v, readIndex := kCheapPrepend,
                 writeIndex := int32 (kCheapPrepend + used)\<rparr>))))"

text \<open>
  \<open>readFd\<close>: \<open>readv\<close> scatters what it reads over the writeable tail of the vector and a
  64 KB block on the stack. The answer of the kernel is an argument: an error number, or the
  bytes it has for the call, of which the call takes as many as the two blocks hold. The
  result is the value returned, the value stored to \<open>*savedErrno\<close>, and the buffer.
\<close>

definition extrabuf_size :: int where
  "extrabuf_size = 64 * 1024"

definition readFd :: "int + char list \<Rightarrow> buffer \<Rightarrow> (int \<times> int option \<times> buffer) res" where
  "readFd answer b =
     (let writeable = writeableBytes b in
      case answer of
        Inl err \<Rightarrow> Inr (-1, Some err, b)
      | Inr avail \<Rightarrow>
          let data = take (nat (writeable + extrabuf_size)) avail;
              nread = int (length data);
              iov0 = take (nat writeable) data;
              extrabuf = drop (nat writeable) data
          in bindR (write_at iov0 (writeIndex b) (bytes b)) (\<lambda>v.
             let b' = b\<lparr>bytes := v\<rparr>
             in if size_t nread \<le> writeable
                then Inr (nread, None,
                       b'\<lparr>writeIndex := int32 (writeIndex b' + nread)\<rparr>)
                else bindR (append_bytes extrabuf
                              (b'\<lparr>writeIndex := int32 (bufsize b')\<rparr>)) (\<lambda>b''.
                       Inr (nread, None, b''))))"

section \<open>Well-formed buffers\<close>

text \<open>
  \<open>contents\<close> is the block between the two indices, the bytes the buffer holds. A buffer is
  well formed when the indices are ordered and inside the vector and the vector's length is
  an \<open>int\<close>.
\<close>

definition contents :: "buffer \<Rightarrow> char list" where
  "contents b = take (nat (writeIndex b - readIndex b)) (drop (nat (readIndex b)) (bytes b))"

definition buf_inv :: "buffer \<Rightarrow> bool" where
  "buf_inv b \<longleftrightarrow> 0 \<le> readIndex b \<and> readIndex b \<le> writeIndex b \<and>
     writeIndex b \<le> bufsize b \<and> bufsize b < 2 ^ 31"

lemma buf_invD:
  assumes "buf_inv b"
  shows "0 \<le> readIndex b" "readIndex b \<le> writeIndex b" "writeIndex b \<le> bufsize b"
    "bufsize b < 2 ^ 31" "0 \<le> writeIndex b" "writeIndex b < 2 ^ 31" "readIndex b < 2 ^ 31"
  using assms by (auto simp: buf_inv_def)

lemma bufsize_nonneg [simp]: "0 \<le> bufsize b"
  by (simp add: bufsize_def)

lemma readable_eq: "buf_inv b \<Longrightarrow> readableBytes b = writeIndex b - readIndex b"
  using buf_invD [of b] by (simp add: readableBytes_def int32_id size_t_id)

lemma writeable_eq: "buf_inv b \<Longrightarrow> writeableBytes b = bufsize b - writeIndex b"
  using buf_invD [of b] by (simp add: writeableBytes_def size_t_id)

lemma prependable_eq: "buf_inv b \<Longrightarrow> prependableBytes b = readIndex b"
  using buf_invD [of b] by (simp add: prependableBytes_def size_t_id)

lemma length_contents: "buf_inv b \<Longrightarrow> int (length (contents b)) = readableBytes b"
  by (auto simp: readable_eq contents_def buf_inv_def bufsize_def)

lemma read_contents:
  "buf_inv b \<Longrightarrow> read_range (readIndex b) (writeIndex b) (bytes b) = Inr (contents b)"
  by (auto simp: buf_inv_def bufsize_def contents_def intro!: read_range_ok)

text \<open>The two indices as natural numbers, the form the list lemmas are about.\<close>

lemma buf_inv_nat:
  assumes "buf_inv b"
  obtains r w where "readIndex b = int r" and "writeIndex b = int w" and "r \<le> w"
    and "w \<le> length (bytes b)" and "length (bytes b) < 2 ^ 31"
    and "contents b = take (w - r) (drop r (bytes b))"
proof (rule that)
  note inv = buf_invD [OF assms]
  show "readIndex b = int (nat (readIndex b))" "writeIndex b = int (nat (writeIndex b))"
    "nat (readIndex b) \<le> nat (writeIndex b)" "nat (writeIndex b) \<le> length (bytes b)"
    "length (bytes b) < 2 ^ 31"
    using inv by (auto simp: bufsize_def)
  show "contents b = take (nat (writeIndex b) - nat (readIndex b)) (drop (nat (readIndex b)) (bytes b))"
    using inv by (simp add: contents_def nat_diff_distrib)
qed

lemma contents_nat:
  "readIndex b = int r \<Longrightarrow> writeIndex b = int w \<Longrightarrow> contents b = take (w - r) (drop r (bytes b))"
  by (cases "r \<le> w") (simp_all add: contents_def flip: of_nat_diff)

lemma buf_inv_new: "buf_inv new_buffer"
  by (simp add: buf_inv_def new_buffer_def kCheapPrepend_def kInitialSize_def bufsize_def)

lemma contents_new: "contents new_buffer = []"
  by (simp add: contents_def new_buffer_def)

section \<open>Taking bytes out of a well-formed buffer\<close>

lemma retrieve_ok:
  assumes "buf_inv b" and "0 \<le> n" and "n \<le> readableBytes b"
  shows "retrieve n b = Inr (b\<lparr>readIndex := readIndex b + n\<rparr>)"
proof -
  have "readIndex b + n \<le> writeIndex b" using assms by (simp add: readable_eq)
  then have "int32 (size_t (readIndex b) + n) = readIndex b + n"
    using assms(2) buf_invD [OF assms(1)] by (simp add: size_t_id int32_id)
  then show ?thesis using assms by (simp add: retrieve_def)
qed

lemma retrieve_overrun: "readableBytes b < n \<Longrightarrow> retrieve n b = Inl AssertFail"
  by (simp add: retrieve_def assertR_def)

lemma retrieved_inv:
  "buf_inv b \<Longrightarrow> 0 \<le> n \<Longrightarrow> n \<le> readableBytes b \<Longrightarrow> buf_inv (b\<lparr>readIndex := readIndex b + n\<rparr>)"
  by (auto simp: buf_inv_def readable_eq bufsize_def readableBytes_def int32_id size_t_id)

lemma retrieved_contents:
  "buf_inv b \<Longrightarrow> 0 \<le> n \<Longrightarrow> n \<le> readableBytes b \<Longrightarrow>
   contents (b\<lparr>readIndex := readIndex b + n\<rparr>) = drop (nat n) (contents b)"
  by (simp add: contents_def drop_take nat_diff_distrib buf_inv_def readable_eq
      nat_add_distrib add.commute diff_diff_eq nat_diff_distrib')

lemma retrieve_until_ok:
  assumes "buf_inv b" and "readIndex b \<le> p" and "p \<le> writeIndex b"
  shows "retrieve_until p b = Inr (b\<lparr>readIndex := p\<rparr>)"
  using assms(2,3) buf_invD [OF assms(1)]
  by (simp add: retrieve_until_def peek_def writeBegin_def int32_id)

lemma retrieve_all_inv:
  "buf_inv b \<Longrightarrow> kCheapPrepend \<le> bufsize b \<Longrightarrow> buf_inv (retrieveAll b)"
  by (simp add: buf_inv_def retrieveAll_def kCheapPrepend_def bufsize_def)

lemma contents_retrieveAll: "contents (retrieveAll b) = []"
  by (simp add: contents_def retrieveAll_def)

lemma retrieveAsString_ok:
  "buf_inv b \<Longrightarrow> retrieveAsString b = Inr (contents b, retrieveAll b)"
  by (simp add: retrieveAsString_def peek_def readable_eq read_contents retrieveAll_def)

section \<open>When \<open>append\<close> works\<close>

text \<open>
  \<open>makespace\<close> grows the vector to \<open>writeableBytes() + more\<close> bytes, not to
  \<open>writeIndex_ + more\<close>, and \<open>append\<close> asserts \<open>len < writeableBytes()\<close>, not
  \<open>\<le>\<close>. So \<open>append\<close> of \<open>n\<close> bytes works in exactly these cases: there is
  room for more than \<open>n\<close> bytes at the end; or there is after moving the contents to the
  front; or the vector grows and more than half of it was free for writing.
\<close>

definition append_fits :: "int \<Rightarrow> buffer \<Rightarrow> bool" where
  "append_fits n b \<longleftrightarrow>
     (let w = bufsize b - writeIndex b in
      if n \<le> w then n < w
      else if w + readIndex b < n + kCheapPrepend then writeIndex b < w
      else n < w + readIndex b - kCheapPrepend)"

text \<open>The fault it ends with otherwise: past the end of the shrunk vector, or the assertion.\<close>

definition append_fault :: "int \<Rightarrow> buffer \<Rightarrow> fault" where
  "append_fault n b =
     (let w = bufsize b - writeIndex b in
      if w < n \<and> w + readIndex b < n + kCheapPrepend \<and> w + n < writeIndex b
      then UndefinedBehaviour else AssertFail)"

text \<open>Writing at the end of the contents of a vector with room for it.\<close>

lemma write_end:
  assumes "buf_inv b" and "writeIndex b + int (length d) \<le> bufsize b"
  shows "\<exists>v. write_at d (writeIndex b) (bytes b) = Inr v \<and>
    buf_inv (b\<lparr>bytes := v, writeIndex := writeIndex b + int (length d)\<rparr>) \<and>
    contents (b\<lparr>bytes := v, writeIndex := writeIndex b + int (length d)\<rparr>) = contents b @ d"
proof -
  note inv = buf_invD [OF assms(1)]
  define w r where "w = nat (writeIndex b)" and "r = nat (readIndex b)"
  define v where "v = take w (bytes b) @ d @ drop (w + length d) (bytes b)"
  have w: "w \<le> length (bytes b)" "r \<le> w" "w + length d \<le> length (bytes b)"
    using inv assms(2) by (auto simp: bufsize_def w_def r_def)
  have wi: "writeIndex b = int w" "readIndex b = int r" using inv by (auto simp: w_def r_def)
  have lv: "length v = length (bytes b)" using w by (simp add: v_def)
  have at: "write_at d (writeIndex b) (bytes b) = Inr v"
    using w by (simp add: v_def wi write_at_ok)
  have dr: "drop r v = drop r (take w (bytes b)) @ d @ drop (w + length d) (bytes b)"
    using w by (simp add: v_def)
  have "nat (writeIndex b + int (length d) - readIndex b) = w - r + length d"
    using w by (simp add: wi)
  then have "contents (b\<lparr>bytes := v, writeIndex := writeIndex b + int (length d)\<rparr>)
    = take (w - r + length d) (drop r v)"
    by (simp add: contents_def wi)
  also have "\<dots> = drop r (take w (bytes b)) @ d"
    using w by (simp add: dr)
  also have "drop r (take w (bytes b)) = contents b"
    using w by (simp add: contents_def wi drop_take flip: of_nat_diff)
  finally have "contents (b\<lparr>bytes := v, writeIndex := writeIndex b + int (length d)\<rparr>) = contents b @ d" .
  moreover have "buf_inv (b\<lparr>bytes := v, writeIndex := writeIndex b + int (length d)\<rparr>)"
    using inv(4) w by (simp add: buf_inv_def bufsize_def lv wi)
  ultimately show ?thesis using at by blast
qed

text \<open>Both halves of \<open>makespace\<close>, on a well-formed buffer that has too little room.\<close>

lemma makespace_grow:
  assumes "buf_inv b" and "bufsize b + n < 2 ^ 31"
    and "bufsize b - writeIndex b < n"
    and "bufsize b - writeIndex b + readIndex b < n + kCheapPrepend"
  shows "makespace n b = Inr (b\<lparr>bytes := take (nat (bufsize b - writeIndex b + n)) (bytes b)
    @ replicate (nat (bufsize b - writeIndex b + n) - length (bytes b)) NUL\<rparr>)"
proof -
  note inv = buf_invD [OF assms(1)]
  have "size_t (writeableBytes b + size_t (readIndex b)) < size_t (n + kCheapPrepend)"
    using inv assms(2-4) by (simp add: writeable_eq [OF assms(1)] size_t_id kCheapPrepend_def)
  moreover have "size_t (writeableBytes b + n) = bufsize b - writeIndex b + n"
    using inv assms(2-4) by (simp add: writeable_eq [OF assms(1)] size_t_id)
  ultimately show ?thesis
    using inv assms(2) by (simp add: makespace_def resize_def)
qed

lemma makespace_move:
  assumes "buf_inv b" and "bufsize b + n < 2 ^ 31"
    and "bufsize b - writeIndex b < n"
    and "n + kCheapPrepend \<le> bufsize b - writeIndex b + readIndex b"
  shows "\<exists>b'. makespace n b = Inr b' \<and> buf_inv b' \<and> contents b' = contents b \<and>
    bufsize b' = bufsize b \<and> writeIndex b' = kCheapPrepend + (writeIndex b - readIndex b)"
proof -
  note inv = buf_invD [OF assms(1)]
  define e where "e = b\<lparr>readIndex := kCheapPrepend, writeIndex := kCheapPrepend\<rparr>"
  have front: "kCheapPrepend + readableBytes b \<le> bufsize b"
    using inv assms(3,4) by (simp add: readable_eq [OF assms(1)])
  have e: "buf_inv e"
    using inv front by (simp add: e_def buf_inv_def bufsize_def kCheapPrepend_def
        readable_eq [OF assms(1)])
  have "writeIndex e + int (length (contents b)) \<le> bufsize e"
    using front by (simp add: e_def length_contents [OF assms(1)] bufsize_def)
  from write_end [OF e this] obtain v where
    v: "write_at (contents b) kCheapPrepend (bytes b) = Inr v"
    "buf_inv (e\<lparr>bytes := v, writeIndex := kCheapPrepend + readableBytes b\<rparr>)"
    "contents (e\<lparr>bytes := v, writeIndex := kCheapPrepend + readableBytes b\<rparr>) = contents e @ contents b"
    by (auto simp: e_def length_contents [OF assms(1)])
  define b' where "b' = b\<lparr>bytes := v, readIndex := kCheapPrepend,
    writeIndex := kCheapPrepend + readableBytes b\<rparr>"
  have b': "e\<lparr>bytes := v, writeIndex := kCheapPrepend + readableBytes b\<rparr> = b'"
    by (simp add: b'_def e_def)
  have "contents e = []" by (simp add: e_def contents_def)
  with v b' have ok: "buf_inv b'" "contents b' = contents b" by simp_all
  have used: "readableBytes b' = readableBytes b"
    by (simp add: readable_eq ok) (simp add: b'_def)
  have i: "int32 (kCheapPrepend + readableBytes b) = kCheapPrepend + readableBytes b"
    using front inv by (simp add: int32_id kCheapPrepend_def readable_eq [OF assms(1)])
  have "\<not> size_t (writeableBytes b + size_t (readIndex b)) < size_t (n + kCheapPrepend)"
    using inv assms(2-4) by (simp add: writeable_eq [OF assms(1)] size_t_id kCheapPrepend_def)
  then have "makespace n b = Inr b'"
    using v(1) used by (simp add: makespace_def read_contents [OF assms(1)] i b'_def Let_def)
  moreover have "bufsize b' = bufsize b" "writeIndex b' = kCheapPrepend + (writeIndex b - readIndex b)"
    using write_at_length [OF v(1)]
    by (simp_all add: b'_def bufsize_def readable_eq [OF assms(1)])
  ultimately show ?thesis using ok by blast
qed

text \<open>The last part of \<open>append\<close>: the assertion, the copy and the index.\<close>

definition append_tail :: "char list \<Rightarrow> buffer \<Rightarrow> buffer res" where
  "append_tail data b =
     assertR (int (length data) < writeableBytes b)
       (bindR (write_at data (writeBegin b) (bytes b)) (\<lambda>v.
          Inr (b\<lparr>bytes := v, writeIndex := int32 (size_t (writeIndex b) + int (length data))\<rparr>)))"

lemma append_by_tail:
  "append_bytes d b =
     bindR (if int (length d) > writeableBytes b then makespace (int (length d)) b else Inr b)
       (append_tail d)"
  unfolding append_bytes_def Let_def append_tail_def [abs_def] by (rule refl)

lemma append_tail_ok:
  assumes "buf_inv b" and "int (length d) < bufsize b - writeIndex b"
  shows "\<exists>b'. append_tail d b = Inr b' \<and> buf_inv b' \<and> contents b' = contents b @ d \<and>
    bufsize b' = bufsize b \<and> readIndex b' = readIndex b"
proof -
  note inv = buf_invD [OF assms(1)]
  from write_end [OF assms(1), of d] assms(2) obtain v where
    v: "write_at d (writeIndex b) (bytes b) = Inr v"
    "buf_inv (b\<lparr>bytes := v, writeIndex := writeIndex b + int (length d)\<rparr>)"
    "contents (b\<lparr>bytes := v, writeIndex := writeIndex b + int (length d)\<rparr>) = contents b @ d"
    by auto
  have "int32 (size_t (writeIndex b) + int (length d)) = writeIndex b + int (length d)"
    using inv assms(2) by (simp add: size_t_id int32_id)
  then have "append_tail d b = Inr (b\<lparr>bytes := v, writeIndex := writeIndex b + int (length d)\<rparr>)"
    using v(1) assms(2) by (simp add: append_tail_def writeable_eq [OF assms(1)] writeBegin_def)
  then show ?thesis using v write_at_length [OF v(1)] by (simp add: bufsize_def)
qed

lemma append_tail_full:
  "buf_inv b \<Longrightarrow> bufsize b - writeIndex b \<le> int (length d) \<Longrightarrow> append_tail d b = Inl AssertFail"
  by (simp add: append_tail_def writeable_eq assertR_def)

lemma contents_grown:
  assumes "buf_inv b" and "writeIndex b \<le> m" and "m < 2 ^ 31"
  defines "b' \<equiv> b\<lparr>bytes := take (nat m) (bytes b) @ replicate (nat m - length (bytes b)) NUL\<rparr>"
  shows "buf_inv b'" "contents b' = contents b" "bufsize b' = m"
proof -
  note inv = buf_invD [OF assms(1)]
  show size: "bufsize b' = m" using assms(2) inv by (simp add: b'_def bufsize_def)
  show "buf_inv b'"
    using inv assms(2,3) size by (simp add: buf_inv_def) (simp add: b'_def)
  have "nat (writeIndex b) \<le> nat m" "nat (writeIndex b) \<le> length (bytes b)"
    using inv assms(2) by (auto simp: bufsize_def)
  then show "contents b' = contents b"
    using inv by (simp add: contents_def b'_def nat_diff_distrib take_drop min_def)
qed

lemma append_outcome:
  assumes "buf_inv b" and "bufsize b + int (length d) < 2 ^ 31"
  shows "if append_fits (int (length d)) b
    then \<exists>b'. append_bytes d b = Inr b' \<and> buf_inv b' \<and> contents b' = contents b @ d
    else append_bytes d b = Inl (append_fault (int (length d)) b)"
proof -
  note inv = buf_invD [OF assms(1)]
  define n w where "n = int (length d)" and "w = bufsize b - writeIndex b"
  have w: "0 \<le> w" "writeableBytes b = w" using inv by (simp_all add: w_def writeable_eq assms(1))
  have nn: "bufsize b + n < 2 ^ 31" using assms(2) by (simp add: n_def)
  consider (room) "n \<le> w" | (grow) "w < n" "w + readIndex b < n + kCheapPrepend"
    | (move) "w < n" "n + kCheapPrepend \<le> w + readIndex b" by linarith
  then show ?thesis
  proof cases
    case room
    then have "append_bytes d b = append_tail d b"
      by (simp add: append_by_tail w n_def)
    with room append_tail_ok [OF assms(1), of d] append_tail_full [OF assms(1), of d] show ?thesis
      by (auto simp: append_fits_def append_fault_def Let_def n_def w_def)
  next
    case grow
    define b1 where "b1 = b\<lparr>bytes := take (nat (w + n)) (bytes b)
      @ replicate (nat (w + n) - length (bytes b)) NUL\<rparr>"
    have b1: "append_bytes d b = append_tail d b1" "bufsize b1 = w + n" "writeIndex b1 = writeIndex b"
      using makespace_grow [OF assms(1) nn] grow w
      by (simp_all add: append_by_tail n_def w_def b1_def bufsize_def)
    show ?thesis
    proof (cases "w + n < writeIndex b")
      case True
      have "writeableBytes b1 = w + n - writeIndex b + 2 ^ 64"
        using True inv w b1 grow by (simp add: writeableBytes_def size_t_id size_t_wrap)
      moreover have "d \<noteq> []" using grow w by (auto simp: n_def)
      moreover have "n < w + n - writeIndex b + 2 ^ 64" using inv w by simp
      moreover have "int (length (bytes b1)) = w + n" using b1(2) by (simp add: bufsize_def)
      ultimately have "append_tail d b1 = Inl UndefinedBehaviour"
        using True b1(3) by (simp add: append_tail_def write_at_def writeBegin_def n_def)
      with True grow w show ?thesis
        by (simp add: append_fits_def append_fault_def b1(1) Let_def n_def w_def)
    next
      case False
      have g: "buf_inv b1" "contents b1 = contents b"
        using contents_grown(1,2) [OF assms(1), of "w + n"] False inv nn by (auto simp: b1_def w_def)
      from append_tail_ok [OF g(1), of d] append_tail_full [OF g(1), of d] False grow b1 g show ?thesis
        by (auto simp: append_fits_def append_fault_def Let_def n_def w_def)
    qed
  next
    case move
    from makespace_move [OF assms(1) nn] move obtain b1 where
      b1: "makespace n b = Inr b1" "buf_inv b1" "contents b1 = contents b"
      "bufsize b1 = bufsize b" "writeIndex b1 = kCheapPrepend + (writeIndex b - readIndex b)"
      by (auto simp: w_def)
    have "append_bytes d b = append_tail d b1"
      using move w b1(1) by (simp add: append_by_tail n_def)
    with append_tail_ok [OF b1(2), of d] append_tail_full [OF b1(2), of d] move b1 show ?thesis
      by (auto simp: append_fits_def append_fault_def Let_def n_def w_def)
  qed
qed

text \<open>When the contents move down, the vector keeps its size.\<close>

lemma append_moves:
  assumes "buf_inv b" and "bufsize b + int (length d) < 2 ^ 31" and "bufsize b - writeIndex b < int (length d)"
    and "int (length d) + kCheapPrepend < bufsize b - writeIndex b + readIndex b"
  shows "\<exists>b'. append_bytes d b = Inr b' \<and> buf_inv b' \<and> contents b' = contents b @ d \<and> bufsize b' = bufsize b"
proof -
  from makespace_move [OF assms(1-3)] assms(4) obtain b1 where
    b1: "makespace (int (length d)) b = Inr b1" "buf_inv b1" "contents b1 = contents b"
    "bufsize b1 = bufsize b" "writeIndex b1 = kCheapPrepend + (writeIndex b - readIndex b)" by auto
  have "append_bytes d b = append_tail d b1"
    using assms(3) b1(1) by (simp add: append_by_tail writeable_eq [OF assms(1)])
  moreover have "int (length d) < bufsize b1 - writeIndex b1" using assms(4) b1(4,5) by simp
  ultimately show ?thesis using append_tail_ok [OF b1(2), of d] b1(3,4) by auto
qed

section \<open>When \<open>readFd\<close> works\<close>

text \<open>
  What \<open>readFd\<close> reads is cut to \<open>read_cap\<close> bytes. Bytes that fit the tail of the vector
  are always taken; when some spill into the block on the stack, \<open>append\<close> runs on a full
  vector, and works only if the contents can move down by more than the spilled bytes.
\<close>

definition read_cap :: "buffer \<Rightarrow> nat" where
  "read_cap b = nat (bufsize b - writeIndex b + extrabuf_size)"

definition spill_fault :: "int \<Rightarrow> buffer \<Rightarrow> fault" where
  "spill_fault n b = (if readIndex b < n + kCheapPrepend \<and> n < bufsize b
     then UndefinedBehaviour else AssertFail)"

lemma readFd_error: "readFd (Inl err) b = Inr (-1, Some err, b)"
  by (simp add: readFd_def Let_def)

lemma readFd_fits:
  assumes "buf_inv b" and "int (length data) \<le> bufsize b - writeIndex b"
  shows "\<exists>b'. readFd (Inr data) b = Inr (int (length data), None, b') \<and> buf_inv b' \<and>
    contents b' = contents b @ data \<and> bufsize b' = bufsize b"
proof -
  note inv = buf_invD [OF assms(1)]
  from write_end [OF assms(1), of data] assms(2) obtain v where
    v: "write_at data (writeIndex b) (bytes b) = Inr v"
    "buf_inv (b\<lparr>bytes := v, writeIndex := writeIndex b + int (length data)\<rparr>)"
    "contents (b\<lparr>bytes := v, writeIndex := writeIndex b + int (length data)\<rparr>) = contents b @ data"
    by auto
  have cut: "take (nat (writeableBytes b + extrabuf_size)) data = data"
    "take (nat (writeableBytes b)) data = data"
    using assms(2) by (simp_all add: writeable_eq [OF assms(1)] extrabuf_size_def)
  have "size_t (int (length data)) \<le> writeableBytes b"
    using assms(2) inv by (simp add: writeable_eq [OF assms(1)] size_t_id)
  then have "readFd (Inr data) b =
      Inr (int (length data), None, b\<lparr>bytes := v, writeIndex := writeIndex b + int (length data)\<rparr>)"
    using v(1) assms(2) inv unfolding readFd_def Let_def sum.case cut by (simp add: int32_id)
  then show ?thesis using v write_at_length [OF v(1)] by (simp add: bufsize_def)
qed

lemma readFd_spills:
  assumes "buf_inv b" and "bufsize b + extrabuf_size < 2 ^ 31"
    and "bufsize b - writeIndex b < int (length data)" and "length data \<le> read_cap b"
  shows "let n = int (length data) - (bufsize b - writeIndex b) in
    if n + kCheapPrepend < readIndex b
    then \<exists>b'. readFd (Inr data) b = Inr (int (length data), None, b') \<and> buf_inv b' \<and>
      contents b' = contents b @ data \<and> bufsize b' = bufsize b
    else readFd (Inr data) b = Inl (spill_fault n b)"
proof -
  note inv = buf_invD [OF assms(1)]
  define w where "w = nat (bufsize b - writeIndex b)"
  define n where "n = int (length data) - (bufsize b - writeIndex b)"
  have w: "writeableBytes b = int w" "bufsize b - writeIndex b = int w"
    using inv by (simp_all add: w_def writeable_eq [OF assms(1)])
  have l: "w < length data" "length (drop w data) = nat n" "0 < n" "n \<le> extrabuf_size"
    using assms(3,4) w by (auto simp: n_def read_cap_def extrabuf_size_def)
  have cut: "take (nat (writeableBytes b + extrabuf_size)) data = data"
    using assms(4) by (simp add: writeable_eq [OF assms(1)] read_cap_def)
  have "writeIndex b + int (length (take w data)) \<le> bufsize b" using w l(1) by simp
  from write_end [OF assms(1) this] obtain v where
    v: "write_at (take w data) (writeIndex b) (bytes b) = Inr v"
    "buf_inv (b\<lparr>bytes := v, writeIndex := bufsize b\<rparr>)"
    "contents (b\<lparr>bytes := v, writeIndex := bufsize b\<rparr>) = contents b @ take w data"
    using w l(1) by (auto simp: algebra_simps)
  define b1 where "b1 = b\<lparr>bytes := v, writeIndex := bufsize b\<rparr>"
  have b1: "bufsize b1 = bufsize b" "writeIndex b1 = bufsize b" "readIndex b1 = readIndex b"
    using write_at_length [OF v(1)] by (simp_all add: b1_def bufsize_def)
  have "int (length data) = int w + n" using w by (simp add: n_def)
  then have "size_t (int (length data)) = int (length data)"
    using l(3,4) w inv by (simp add: size_t_id extrabuf_size_def)
  then have "\<not> size_t (int (length data)) \<le> writeableBytes b"
    using l(1) by (simp add: w(1))
  moreover have "int32 (bufsize (b\<lparr>bytes := v\<rparr>)) = bufsize b"
    using b1(1) inv by (simp add: b1_def bufsize_def int32_id)
  ultimately have r: "readFd (Inr data) b =
      bindR (append_bytes (drop w data) b1) (\<lambda>b''. Inr (int (length data), None, b''))"
    using v(1) unfolding readFd_def Let_def sum.case cut by (simp add: w(1) b1_def)
  have fits: "append_fits n b1 \<longleftrightarrow> n + kCheapPrepend < readIndex b"
    "append_fault n b1 = spill_fault n b"
    using l(3) inv by (auto simp: append_fits_def append_fault_def spill_fault_def b1 Let_def)
  have "bufsize b1 + int (length (drop w data)) < 2 ^ 31" "int (length (drop w data)) = n"
    using assms(2) l b1 by auto
  note size = this
  have b1c: "buf_inv b1" "contents b1 @ drop w data = contents b @ data" using v(2,3) by (simp_all add: b1_def)
  show ?thesis
  proof (cases "n + kCheapPrepend < readIndex b")
    case True
    from append_moves [OF b1c(1) size(1)] l(3) size(2) True b1 obtain b2 where
      "append_bytes (drop w data) b1 = Inr b2" "buf_inv b2" "contents b2 = contents b @ data" "bufsize b2 = bufsize b"
      using b1c(2) by auto
    with True r show ?thesis by (simp add: n_def [symmetric])
  next
    case False
    with append_outcome [OF b1c(1) size(1)] size(2) fits r show ?thesis by (simp add: n_def [symmetric])
  qed
qed

text \<open>The bytes that do not fit the tail of the vector, and whether the buffer can take them.\<close>

definition overrun :: "string \<Rightarrow> buffer \<Rightarrow> int" where
  "overrun data b = int (length data) - (bufsize b - writeIndex b)"

definition takes :: "string \<Rightarrow> buffer \<Rightarrow> bool" where
  "takes data b \<longleftrightarrow> overrun data b \<le> 0 \<or> overrun data b + kCheapPrepend < readIndex b"

lemma readFd_takes:
  assumes "buf_inv b" and "bufsize b + extrabuf_size < 2 ^ 31" and "length data \<le> read_cap b"
  shows "if takes data b
    then \<exists>b'. readFd (Inr data) b = Inr (int (length data), None, b') \<and> buf_inv b' \<and>
      contents b' = contents b @ data \<and> bufsize b' = bufsize b
    else readFd (Inr data) b = Inl (spill_fault (overrun data b) b)"
proof (cases "overrun data b \<le> 0")
  case True
  with readFd_fits [OF assms(1), of data] show ?thesis by (simp add: takes_def overrun_def)
next
  case False
  with readFd_spills [OF assms(1,2) _ assms(3)] show ?thesis by (simp add: takes_def overrun_def Let_def)
qed

section \<open>Searching for the line end\<close>

definition crlf_free :: "char list \<Rightarrow> bool" where
  "crlf_free d \<longleftrightarrow> crlf_pos d = length d"

lemma crlf_pos_le: "crlf_pos d \<le> length d"
  by (induction d rule: crlf_pos.induct) auto

lemma crlf_pos_found:
  "crlf_pos d < length d \<Longrightarrow> \<exists>rest. drop (crlf_pos d) d = kCRLF @ rest"
  by (induction d rule: crlf_pos.induct) (auto simp: kCRLF_def split: if_splits)

lemma crlf_pos_at: "crlf_free xs \<Longrightarrow> crlf_pos (xs @ kCRLF @ ys) = length xs"
  by (induction xs rule: crlf_pos.induct)
    (auto simp: crlf_free_def kCRLF_def split: if_splits)

lemma crlf_free_take: "crlf_free (take (crlf_pos d) d)"
proof (induction d rule: crlf_pos.induct)
  case (3 c d cs)
  show ?case
  proof (cases "[c, d] = kCRLF")
    case False
    from False 3 have "crlf_free (take (crlf_pos (d # cs)) (d # cs))" by simp
    with False show ?thesis
      by (cases "crlf_pos (d # cs)") (auto simp: crlf_free_def split: if_splits)
  qed (simp add: crlf_free_def)
qed (simp_all add: crlf_free_def)

lemma search_from_contents:
  assumes "buf_inv b" and "k \<le> length (contents b)"
  shows "findCRLF_from (readIndex b + int k) b =
    Inr (let d = drop k (contents b) in
         if crlf_free d then None else Some (readIndex b + int k + int (crlf_pos d)))"
proof -
  obtain r w where rw: "readIndex b = int r" "writeIndex b = int w" "r \<le> w"
    "w \<le> length (bytes b)" "contents b = take (w - r) (drop r (bytes b))"
    using assms(1) by (rule buf_inv_nat)
  have len: "length (contents b) = w - r" using rw by simp
  have "read_range (int (r + k)) (int w) (bytes b) = Inr (take (w - (r + k)) (drop (r + k) (bytes b)))"
    using rw len assms(2) by (intro read_range_nat) auto
  then have "read_range (readIndex b + int k) (writeBegin b) (bytes b) = Inr (drop k (contents b))"
    using rw by (simp add: writeBegin_def drop_take add.commute)
  moreover have "readIndex b + int k + int (crlf_pos (drop k (contents b))) = writeBegin b \<longleftrightarrow>
      crlf_free (drop k (contents b))"
    using rw len assms(2) by (auto simp: crlf_free_def writeBegin_def)
  ultimately show ?thesis
    using rw len assms(2)
    by (simp add: findCRLF_from_def search_crlf_def Let_def peek_def writeBegin_def)
qed

lemma findCRLF_contents:
  "buf_inv b \<Longrightarrow> findCRLF b =
    Inr (if crlf_free (contents b) then None else Some (readIndex b + int (crlf_pos (contents b))))"
  using search_from_contents [of b 0]
  by (simp add: findCRLF_def findCRLF_from_def assertR_def peek_def split: if_splits)

section \<open>\<open>prepend\<close> and \<open>shrink\<close>\<close>

lemma prepend_outcome:
  assumes "buf_inv b"
  shows "if int (length d) < readIndex b
    then \<exists>b'. prepend d b = Inr b' \<and> buf_inv b' \<and> contents b' = d @ contents b \<and>
      bufsize b' = bufsize b
    else prepend d b = Inl AssertFail"
proof (cases "int (length d) < readIndex b")
  case True
  note inv = buf_invD [OF assms]
  define r w where "r = nat (readIndex b) - length d" and "w = nat (writeIndex b)"
  have rw: "readIndex b = int (r + length d)" "writeIndex b = int w"
    "r + length d \<le> w" "w \<le> length (bytes b)"
    using inv True by (auto simp: r_def w_def bufsize_def)
  define v where "v = take r (bytes b) @ d @ drop (r + length d) (bytes b)"
  have "int32 (size_t (readIndex b) - int (length d)) = int r"
    using inv rw by (simp add: size_t_id int32_id)
  then have "prepend d b = Inr (b\<lparr>bytes := v, readIndex := int r\<rparr>)"
    using True rw
    by (simp add: prepend_def Let_def prependable_eq [OF assms] write_at_ok v_def)
  moreover have "length v = length (bytes b)" using rw by (simp add: v_def)
  moreover have "contents (b\<lparr>bytes := v, readIndex := int r\<rparr>) = d @ contents b"
    using rw by (simp add: contents_nat [of _ r w] contents_nat [of b "r + length d" w] v_def)
  ultimately show ?thesis
    using inv rw True by (auto simp: buf_inv_def bufsize_def)
qed (simp add: prepend_def assertR_def prependable_eq assms Let_def)

lemma resize_fresh: "0 \<le> n \<Longrightarrow> n < 2 ^ 63 \<Longrightarrow> resize n [] = Inr (replicate (nat n) NUL)"
  by (simp add: resize_def)

lemma shrink_ok:
  assumes "buf_inv b" and "0 \<le> reserve" and "kCheapPrepend + readableBytes b + reserve < 2 ^ 31"
  shows "\<exists>b'. shrink reserve b = Inr b' \<and> buf_inv b' \<and> contents b' = contents b \<and>
    bufsize b' = kCheapPrepend + readableBytes b + reserve \<and> readIndex b' = kCheapPrepend"
proof -
  define n where "n = kCheapPrepend + readableBytes b + reserve"
  define e where "e = \<lparr>bytes = replicate (nat n) NUL, readIndex = kCheapPrepend, writeIndex = kCheapPrepend\<rparr>"
  have r: "0 \<le> readableBytes b" by (simp add: readableBytes_def)
  have n: "size_t n = n" "0 \<le> n" "n < 2 ^ 31" "bufsize e = n"
    using assms(2,3) r by (auto simp: n_def size_t_id kCheapPrepend_def bufsize_def e_def)
  have e: "buf_inv e" "contents e = []"
    using n assms(2) r by (simp_all add: buf_inv_def e_def contents_def n_def kCheapPrepend_def bufsize_def)
  have "writeIndex e + int (length (contents b)) \<le> bufsize e"
    using n(4) assms(2) by (simp add: length_contents [OF assms(1)]) (simp add: n_def e_def)
  from write_end [OF e(1) this] obtain v where
    v: "write_at (contents b) kCheapPrepend (replicate (nat n) NUL) = Inr v"
    "buf_inv (e\<lparr>bytes := v, writeIndex := kCheapPrepend + readableBytes b\<rparr>)"
    "contents (e\<lparr>bytes := v, writeIndex := kCheapPrepend + readableBytes b\<rparr>) = contents b"
    by (auto simp: e_def length_contents [OF assms(1)] e(2) [unfolded e_def])
  have i: "int32 (kCheapPrepend + readableBytes b) = kCheapPrepend + readableBytes b"
    using assms(2,3) r by (simp add: int32_id kCheapPrepend_def)
  define b' where "b' = b\<lparr>bytes := v, readIndex := kCheapPrepend,
    writeIndex := kCheapPrepend + readableBytes b\<rparr>"
  have "shrink reserve b = Inr b'"
    using n v(1) by (simp add: shrink_def n_def [symmetric] resize_fresh read_contents assms(1) i
        b'_def Let_def)
  moreover have "buf_inv b'" "contents b' = contents b" "readIndex b' = kCheapPrepend"
    using v(2,3) by (simp_all add: b'_def e_def buf_inv_def contents_def bufsize_def)
  moreover have "bufsize b' = n"
    using write_at_length [OF v(1)] n(2) by (simp add: b'_def bufsize_def)
  ultimately show ?thesis by (auto simp: n_def)
qed

section \<open>The buffer as a queue of bytes\<close>

text \<open>
  What a connection needs of its output buffer: \<open>push\<close> adds at the end what \<open>room\<close> admits,
  \<open>pop\<close> removes from the front. The stream lemma is the one the connection uses: bytes
  taken out followed by bytes still inside are the bytes put in, in order.
\<close>

locale byte_queue =
  fixes inv :: "'q \<Rightarrow> bool"
    and content :: "'q \<Rightarrow> char list"
    and room :: "char list \<Rightarrow> 'q \<Rightarrow> bool"
    and push :: "char list \<Rightarrow> 'q \<Rightarrow> 'q res"
    and pop :: "int \<Rightarrow> 'q \<Rightarrow> 'q res"
  assumes push_law: "inv q \<Longrightarrow> room d q \<Longrightarrow>
      \<exists>q'. push d q = Inr q' \<and> inv q' \<and> content q' = content q @ d"
    and pop_law: "inv q \<Longrightarrow> 0 \<le> n \<Longrightarrow> n \<le> int (length (content q)) \<Longrightarrow>
      \<exists>q'. pop n q = Inr q' \<and> inv q' \<and> content q' = drop (nat n) (content q)"
    and pop_overrun: "inv q \<Longrightarrow> int (length (content q)) < n \<Longrightarrow> pop n q = Inl AssertFail"
begin

lemma pop_Inr_iff:
  assumes "inv q" and "0 \<le> n"
  shows "(\<exists>q'. pop n q = Inr q') \<longleftrightarrow> n \<le> int (length (content q))"
  using pop_law [OF assms] pop_overrun [OF assms(1)] by (cases "n \<le> int (length (content q))") auto

lemma popped:
  assumes "inv q" and "0 \<le> n" and "pop n q = Inr q'"
  shows "inv q'" "take (nat n) (content q) @ content q' = content q"
    "content q' = drop (nat n) (content q)"
  using pop_law [OF assms(1,2)] pop_Inr_iff [OF assms(1,2)] assms(3) by auto

lemma pushed:
  assumes "inv q" and "room d q" and "push d q = Inr q'"
  shows "inv q'" "content q' = content q @ d"
  using push_law [OF assms(1,2)] assms(3) by auto

lemma push_then_pop:
  assumes "inv q" and "content q = []" and "room d q"
  shows "\<exists>q' q''. push d q = Inr q' \<and> pop (int (length d)) q' = Inr q'' \<and> content q'' = []"
proof -
  from push_law [OF assms(1,3)] obtain q' where q': "push d q = Inr q'" "inv q'" "content q' = d"
    using assms(2) by auto
  then show ?thesis using pop_law [OF q'(2), of "int (length d)"] by auto
qed

end

definition buf_room :: "char list \<Rightarrow> buffer \<Rightarrow> bool" where
  "buf_room d b \<longleftrightarrow> bufsize b + int (length d) < 2 ^ 31 \<and> append_fits (int (length d)) b"

lemma append_room:
  "buf_inv b \<Longrightarrow> buf_room d b \<Longrightarrow>
   \<exists>b'. append_bytes d b = Inr b' \<and> buf_inv b' \<and> contents b' = contents b @ d"
  using append_outcome [of b d] by (simp add: buf_room_def split: if_splits)

interpretation bufq: byte_queue buf_inv contents buf_room append_bytes retrieve
proof unfold_locales
  fix q d
  assume "buf_inv q" "buf_room d q"
  then show "\<exists>q'. append_bytes d q = Inr q' \<and> buf_inv q' \<and> contents q' = contents q @ d"
    by (rule append_room)
next
  fix q n
  assume q: "buf_inv q" and n: "0 \<le> n" "n \<le> int (length (contents q))"
  then have "n \<le> readableBytes q" by (simp add: length_contents)
  with q n show "\<exists>q'. retrieve n q = Inr q' \<and> buf_inv q' \<and> contents q' = drop (nat n) (contents q)"
    by (simp add: retrieve_ok retrieved_inv retrieved_contents)
next
  fix q n
  assume "buf_inv q" "int (length (contents q)) < n"
  then show "retrieve n q = Inl AssertFail"
    by (simp add: length_contents retrieve_overrun)
qed

section \<open>Properties\<close>

text \<open>C7: \<open>append\<close> on a well-formed buffer: when \<open>append_fits\<close> it returns, keeps the buffer
  well formed and its contents are the old ones followed by the new bytes; otherwise it ends in
  the assertion, or past the end of the vector that \<open>makespace\<close> has made shorter.\<close>

theorem buffer_append:
  assumes "buf_inv b" and "bufsize b + int (length d) < 2 ^ 31"
  shows "if append_fits (int (length d)) b
    then \<exists>b'. append_bytes d b = Inr b' \<and> buf_inv b' \<and> contents b' = contents b @ d
    else append_bytes d b = Inl (append_fault (int (length d)) b)"
  by (rule append_outcome [OF assms])

lemma new_buffer_fields [simp]:
  "bufsize new_buffer = 1032" "readIndex new_buffer = 8" "writeIndex new_buffer = 8"
  by (simp_all add: new_buffer_def bufsize_def kCheapPrepend_def kInitialSize_def)

theorem buffer_append_witness:
  "\<exists>b'. append_bytes ''abc'' new_buffer = Inr b' \<and> buf_inv b' \<and> contents b' = ''abc''"
  using buffer_append [of new_buffer "''abc''"] buf_inv_new contents_new
  by (simp add: append_fits_def)

text \<open>\<open>prepend\<close> succeeds exactly when fewer bytes than \<open>prependableBytes()\<close> are put in
  front, and then puts them in front of the contents without moving anything.\<close>

theorem buffer_prepend:
  assumes "buf_inv b"
  shows "if int (length d) < readIndex b
    then \<exists>b'. prepend d b = Inr b' \<and> buf_inv b' \<and> contents b' = d @ contents b \<and> bufsize b' = bufsize b
    else prepend d b = Inl AssertFail"
  by (rule prepend_outcome [OF assms])

theorem buffer_prepend_witness:
  "\<exists>b'. prepend ''ab'' new_buffer = Inr b' \<and> buf_inv b' \<and> contents b' = ''ab'' \<and> bufsize b' = 1032"
  using buffer_prepend [of new_buffer "''ab''"] buf_inv_new contents_new by simp

text \<open>C8: \<open>readFd\<close> takes everything \<open>readv\<close> delivers when it fits the tail of the vector, or
  when the contents can move down by more than what spilled into the block on the stack; any
  other read that spills ends in the assertion or out of bounds, whatever is in the buffer.\<close>

theorem buffer_readFd:
  assumes "buf_inv b" and "bufsize b + extrabuf_size < 2 ^ 31" and "length data \<le> read_cap b"
  shows "let n = int (length data) - (bufsize b - writeIndex b) in
    if n \<le> 0 \<or> n + kCheapPrepend < readIndex b
    then \<exists>b'. readFd (Inr data) b = Inr (int (length data), None, b') \<and> buf_inv b' \<and>
      contents b' = contents b @ data
    else readFd (Inr data) b = Inl (spill_fault n b)"
proof (cases "bufsize b - writeIndex b < int (length data)")
  case True
  with readFd_spills [OF assms(1,2) True assms(3)] show ?thesis by (auto simp: Let_def)
next
  case False
  with readFd_fits [OF assms(1), of data] show ?thesis by (auto simp: Let_def)
qed

theorem buffer_readFd_witness:
  "readFd (Inr (replicate 1025 CHR ''x'')) new_buffer = Inl UndefinedBehaviour"
  using buffer_readFd [of new_buffer "replicate 1025 CHR ''x''"] buf_inv_new
  by (simp add: extrabuf_size_def read_cap_def spill_fault_def kCheapPrepend_def Let_def)

text \<open>C9: the buffer is a queue of bytes: after an \<open>append\<close> with room, \<open>retrieve(n)\<close> removes the
  first \<open>n\<close> bytes of the stream and nothing else, for every \<open>n\<close> up to the readable bytes, and
  fails its assertion above.\<close>

theorem buffer_stream:
  assumes "buf_inv b" and "buf_room d b" and "0 \<le> n"
  shows "\<exists>b1. append_bytes d b = Inr b1 \<and> (if n \<le> int (length (contents b @ d))
    then \<exists>b2. retrieve n b1 = Inr b2 \<and> buf_inv b2 \<and>
      take (nat n) (contents b @ d) @ contents b2 = contents b @ d
    else retrieve n b1 = Inl AssertFail)"
proof -
  from bufq.push_law [OF assms(1,2)] obtain b1 where
    b1: "append_bytes d b = Inr b1" "buf_inv b1" "contents b1 = contents b @ d" by blast
  show ?thesis
  proof (cases "n \<le> int (length (contents b1))")
    case True
    from bufq.pop_law [OF b1(2) assms(3) True] obtain b2 where
      b2: "retrieve n b1 = Inr b2" "buf_inv b2" by blast
    with bufq.popped [OF b1(2) assms(3)] True b1 show ?thesis by auto
  next
    case False
    with bufq.pop_overrun [OF b1(2)] b1 show ?thesis by auto
  qed
qed

theorem buffer_stream_witness:
  "\<exists>b1 b2. append_bytes ''abc'' new_buffer = Inr b1 \<and> retrieve 2 b1 = Inr b2 \<and> contents b2 = ''c''"
  using buffer_stream [of new_buffer "''abc''" 2] buf_inv_new contents_new
  by (auto simp: buf_room_def append_fits_def numeral_2_eq_2)

end
