(* ===== verification/Codec.thy ===== *)
theory Codec
  imports Buffer
begin

text \<open>
  \<^verbatim>\<open>net/hub/codec.cc\<close>: the parser of the hub's line protocol, and the messages its
  clients write (\<^verbatim>\<open>net/hub/pubsub.cc\<close>, \<^verbatim>\<open>net/hub/hub.cc\<close>). The parser is shown
  equal to a function on the bytes the buffer holds. That it inverts the writer is stated as an
  interface of a framed stream (locale \<open>framing\<close>) and interpreted on \<open>parseMessage\<close> and the code's
  messages; \<open>digest\<close> is what the parser makes of any bytes at all.
\<close>

section \<open>The parser\<close>

datatype ParseResult = KSuccess | KContinue | KError

text \<open>
  The out parameters \<open>cmd\<close>, \<open>topic\<close>, \<open>content\<close> are passed in and returned: a branch that does
  not assign one keeps its old value. \<open>content->assign(crlf + 2, secCrlf)\<close> with
  \<open>secCrlf\<close> null is a range that ends before it starts, which C++ does not define; the
  test before it looks at \<open>crlf\<close>, which is not null there.
\<close>

definition find_space :: "string \<Rightarrow> nat" where
  "find_space s = length (takeWhile (\<lambda>c. c \<noteq> CHR '' '') s)"

definition parseMessage ::
  "buffer \<Rightarrow> string \<times> string \<times> string \<Rightarrow>
   (ParseResult \<times> buffer \<times> string \<times> string \<times> string) res" where
  "parseMessage message out = (case out of (cmd0, topic0, content0) \<Rightarrow>
     bindR (findCRLF message) (\<lambda>crlf. case crlf of
       None \<Rightarrow> Inr (KContinue, message, cmd0, topic0, content0)
     | Some crlf \<Rightarrow>
         bindR (read_range (peek message) crlf (bytes message)) (\<lambda>line.
         let spacePos = peek message + int (find_space line) in
         if spacePos \<noteq> crlf then
           bindR (read_range (peek message) spacePos (bytes message)) (\<lambda>cmd.
           bindR (read_range (spacePos + 1) crlf (bytes message)) (\<lambda>topic.
           if cmd = ''pub'' then
             bindR (findCRLF_from (crlf + 2) message) (\<lambda>secCrlf. case secCrlf of
               None \<Rightarrow> Inl UndefinedBehaviour
             | Some secCrlf \<Rightarrow>
                 bindR (read_range (crlf + 2) secCrlf (bytes message)) (\<lambda>content.
                 bindR (retrieve_until (secCrlf + 2) message) (\<lambda>message'.
                   Inr (KSuccess, message', cmd, topic, content))))
           else
             bindR (retrieve_until (crlf + 2) message) (\<lambda>message'.
               Inr (KSuccess, message', cmd, topic, content0))))
         else Inr (KError, message, cmd0, topic0, content0))))"

section \<open>What the parser does to the bytes\<close>

text \<open>
  The same on the byte sequence alone. \<open>Crash\<close> is the branch on the null pointer.
\<close>

datatype parsed =
  Done string string "string option" "char list"
| More
| Bad
| Crash

definition parse_bytes :: "char list \<Rightarrow> parsed" where
  "parse_bytes d =
     (if crlf_free d then More
      else
        let line = take (crlf_pos d) d; rest = drop (crlf_pos d + 2) d; n = find_space line in
        if n = length line then Bad
        else
          let cmd = take n line; topic = drop (Suc n) line in
          if cmd = ''pub'' then
            (if crlf_free rest then Crash
             else Done cmd topic (Some (take (crlf_pos rest) rest)) (drop (crlf_pos rest + 2) rest))
          else Done cmd topic None rest)"

lemma crlf_room:
  assumes "\<not> crlf_free d"
  shows "crlf_pos d + 2 \<le> length d"
proof -
  have "crlf_pos d < length d" using assms crlf_pos_le [of d] by (simp add: crlf_free_def)
  from crlf_pos_found [OF this] obtain rest where "drop (crlf_pos d) d = kCRLF @ rest" ..
  then have "length (drop (crlf_pos d) d) = length (kCRLF @ rest)" by (rule arg_cong)
  then show ?thesis by (simp add: kCRLF_def)
qed

lemma find_space_le: "find_space s \<le> length s"
  by (simp add: find_space_def length_takeWhile_le)

text \<open>Reading a block of the contents through the offsets of the vector.\<close>

lemma read_block:
  assumes "buf_inv b" and "i \<le> j" and "j \<le> length (contents b)"
  shows "read_range (readIndex b + int i) (readIndex b + int j) (bytes b)
    = Inr (take (j - i) (drop i (contents b)))"
proof -
  obtain r w where rw: "readIndex b = int r" "writeIndex b = int w" "r \<le> w"
    "w \<le> length (bytes b)" "contents b = take (w - r) (drop r (bytes b))"
    using assms(1) by (rule buf_inv_nat)
  have j: "j \<le> w - r" using rw(4,5) assms(3) by simp
  then have "read_range (int (r + i)) (int (r + j)) (bytes b)
      = Inr (take (j - i) (drop (r + i) (bytes b)))"
    using rw(3,4) assms(2) read_range_nat [of "r + i" "r + j" "bytes b"] by simp
  moreover have "take (j - i) (drop (r + i) (bytes b)) = take (j - i) (drop i (contents b))"
    using j by (simp add: rw(5) drop_take min_absorb1 diff_le_mono add.commute)
  ultimately show ?thesis by (simp add: rw(1))
qed

lemma retrieve_block:
  assumes "buf_inv b" and "j \<le> length (contents b)"
  shows "retrieve_until (readIndex b + int j) b = Inr (b\<lparr>readIndex := readIndex b + int j\<rparr>)"
    "buf_inv (b\<lparr>readIndex := readIndex b + int j\<rparr>)"
    "contents (b\<lparr>readIndex := readIndex b + int j\<rparr>) = drop j (contents b)"
proof -
  have j: "int j \<le> readableBytes b" using assms length_contents [OF assms(1)] by simp
  show "retrieve_until (readIndex b + int j) b = Inr (b\<lparr>readIndex := readIndex b + int j\<rparr>)"
    using j by (intro retrieve_until_ok [OF assms(1)]) (simp_all add: readable_eq [OF assms(1)])
  show "buf_inv (b\<lparr>readIndex := readIndex b + int j\<rparr>)"
    "contents (b\<lparr>readIndex := readIndex b + int j\<rparr>) = drop j (contents b)"
    using retrieved_inv [OF assms(1) _ j] retrieved_contents [OF assms(1) _ j] by simp_all
qed

lemma parse_bytes_rest:
  assumes "parse_bytes d = Done cmd topic content rest"
  obtains k where "rest = drop k d" and "2 \<le> k" and "k \<le> length d"
proof -
  let ?p = "crlf_pos d" and ?r = "drop (crlf_pos d + 2) d"
  from assms have nf: "\<not> crlf_free d" by (auto simp: parse_bytes_def)
  note room = crlf_room [OF nf]
  from assms have "rest = ?r \<or> \<not> crlf_free ?r \<and> rest = drop (crlf_pos ?r + 2) ?r"
    by (auto simp: parse_bytes_def Let_def split: if_splits)
  then show thesis
  proof (elim disjE conjE)
    assume "rest = ?r" then show thesis using that [of "?p + 2"] room by simp
  next
    assume r: "\<not> crlf_free ?r" "rest = drop (crlf_pos ?r + 2) ?r"
    then have "crlf_pos ?r + 2 \<le> length ?r" by (intro crlf_room)
    then have "?p + 2 + (crlf_pos ?r + 2) \<le> length d" using room by simp
    with r show thesis using that [of "?p + 2 + (crlf_pos ?r + 2)"] by (simp add: add.commute)
  qed
qed

lemma parse_progress:
  "parse_bytes d = Done cmd topic content rest \<Longrightarrow> length rest < length d"
  by (erule parse_bytes_rest) auto

definition consume :: "char list \<Rightarrow> buffer \<Rightarrow> buffer" where
  "consume rest b = b\<lparr>readIndex := readIndex b + int (length (contents b) - length rest)\<rparr>"

lemma consume_ok:
  assumes "buf_inv b" and "parse_bytes (contents b) = Done cmd topic content rest"
  shows "buf_inv (consume rest b)" "contents (consume rest b) = rest"
    "bufsize (consume rest b) = bufsize b"
proof -
  from assms(2) obtain k where k: "rest = drop k (contents b)" "k \<le> length (contents b)"
    by (rule parse_bytes_rest)
  then have "consume rest b = b\<lparr>readIndex := readIndex b + int k\<rparr>" by (simp add: consume_def)
  with retrieve_block(2,3) [OF assms(1) k(2)] k(1)
  show "buf_inv (consume rest b)" "contents (consume rest b) = rest" by simp_all
  show "bufsize (consume rest b) = bufsize b" by (simp add: consume_def bufsize_def)
qed

text \<open>The parser on a well-formed buffer, every branch.\<close>

lemma parseMessage_contents:
  assumes "buf_inv b"
  shows "parseMessage b (cmd0, topic0, content0) =
    (case parse_bytes (contents b) of
       More \<Rightarrow> Inr (KContinue, b, cmd0, topic0, content0)
     | Bad \<Rightarrow> Inr (KError, b, cmd0, topic0, content0)
     | Crash \<Rightarrow> Inl UndefinedBehaviour
     | Done cmd topic content rest \<Rightarrow>
         Inr (KSuccess, consume rest b, cmd, topic, case_option content0 id content))"
proof (cases "crlf_free (contents b)")
  case True
  then show ?thesis by (simp add: parseMessage_def findCRLF_contents assms parse_bytes_def)
next
  case False
  define d p where "d = contents b" and "p = crlf_pos (contents b)"
  define line rest n where "line = take p d" and "rest = drop (p + 2) d" and "n = find_space line"
  define sc where "sc = readIndex b + int (p + 2) + int (crlf_pos rest)"
  note room = crlf_room [OF False, folded p_def d_def]
  have find: "findCRLF b = Inr (Some (readIndex b + int p))"
    using False by (simp add: findCRLF_contents assms p_def)
  have lens: "length line = p" "n \<le> p" "p \<le> length d" "p + 2 \<le> length d"
    using room find_space_le [of line] by (auto simp: line_def n_def)
  have block: "read_range (readIndex b + int i) (readIndex b + int j) (bytes b)
      = Inr (take (j - i) (drop i d))" if "i \<le> j" "j \<le> length d" for i j
    using read_block [OF assms that(1)] that(2) by (simp add: d_def)
  have line: "read_range (readIndex b) (readIndex b + int p) (bytes b) = Inr line"
    using block [of 0 p] lens by (simp add: line_def)
  have cmd: "read_range (readIndex b) (readIndex b + int n) (bytes b) = Inr (take n line)"
    using block [of 0 n] lens by (simp add: line_def min_absorb1)
  have topic: "read_range (readIndex b + int n + 1) (readIndex b + int p) (bytes b)
      = Inr (drop (Suc n) line)" if "n \<noteq> p"
    using block [of "Suc n" p] lens that by (simp add: line_def drop_take add.commute add.left_commute)
  have sec: "findCRLF_from (readIndex b + int p + 2) b
      = Inr (if crlf_free rest then None else Some sc)"
    using search_from_contents [OF assms, of "p + 2"] lens
    by (simp add: d_def rest_def sc_def ac_simps Let_def)
  have content: "read_range (readIndex b + int p + 2) sc (bytes b)
      = Inr (take (crlf_pos rest) rest)" if "\<not> crlf_free rest"
    using block [of "p + 2" "p + 2 + crlf_pos rest"] crlf_room [OF that] lens
    by (simp add: rest_def sc_def ac_simps)
  have take_out: "retrieve_until (readIndex b + int j) b = Inr (consume (drop j d) b)"
    if "j \<le> length d" for j
    using retrieve_block(1) [OF assms, of j] that by (simp add: consume_def d_def)
  have one: "retrieve_until (readIndex b + int p + 2) b = Inr (consume rest b)"
    using take_out [of "p + 2"] lens by (simp add: rest_def sc_def ac_simps)
  have two: "retrieve_until (sc + 2) b
      = Inr (consume (drop (crlf_pos rest + 2) rest) b)" if "\<not> crlf_free rest"
    using take_out [of "p + 2 + (crlf_pos rest + 2)"] crlf_room [OF that] lens
    by (simp add: rest_def sc_def ac_simps)
  have "parse_bytes (contents b) =
    (if n = p then Bad
     else if take n line = ''pub'' then
       (if crlf_free rest then Crash
        else Done (take n line) (drop (Suc n) line) (Some (take (crlf_pos rest) rest))
               (drop (crlf_pos rest + 2) rest))
     else Done (take n line) (drop (Suc n) line) None rest)"
    using False lens(1)
    unfolding parse_bytes_def Let_def n_def line_def rest_def p_def d_def by simp
  moreover have "parseMessage b (cmd0, topic0, content0) =
    (if n = p then Inr (KError, b, cmd0, topic0, content0)
     else if take n line = ''pub'' then
       (if crlf_free rest then Inl UndefinedBehaviour
        else Inr (KSuccess, consume (drop (crlf_pos rest + 2) rest) b, take n line,
               drop (Suc n) line, take (crlf_pos rest) rest))
     else Inr (KSuccess, consume rest b, take n line, drop (Suc n) line, content0))"
    unfolding parseMessage_def prod.case Let_def peek_def find
    by (simp add: line n_def [symmetric] cmd topic sec content one two)
  ultimately show ?thesis by simp
qed

section \<open>Line ends in composed byte sequences\<close>

lemma crlf_pos_Cons: "c \<noteq> CHR 0x0D \<Longrightarrow> crlf_pos (c # d) = Suc (crlf_pos d)"
  by (cases d) (auto simp: kCRLF_def)

lemma crlf_free_Cons: "c \<noteq> CHR 0x0D \<Longrightarrow> crlf_free (c # d) = crlf_free d"
  by (simp add: crlf_free_def crlf_pos_Cons)

lemma crlf_free_append: "CHR 0x0D \<notin> set xs \<Longrightarrow> crlf_free (xs @ ys) = crlf_free ys"
  by (induction xs) (auto simp: crlf_free_Cons)

lemma crlf_pos_extend: "\<not> crlf_free d \<Longrightarrow> crlf_pos (d @ e) = crlf_pos d"
  by (induction d rule: crlf_pos.induct) (auto simp: crlf_free_def split: if_splits)

lemma crlf_free_extend: "\<not> crlf_free d \<Longrightarrow> \<not> crlf_free (d @ e)"
  using crlf_pos_extend [of d e] crlf_pos_le [of d] by (auto simp: crlf_free_def)

lemma find_space_append: "CHR '' '' \<notin> set xs \<Longrightarrow> find_space (xs @ CHR '' '' # ys) = length xs"
  by (induction xs) (auto simp: find_space_def)

text \<open>A line \<open>cmd topic\<close> followed by its line end, with anything behind it.\<close>

lemma parse_line:
  assumes "CHR 0x0D \<notin> set cmd" and "CHR '' '' \<notin> set cmd" and "crlf_free topic"
  shows "parse_bytes (cmd @ '' '' @ topic @ kCRLF @ rest) =
    (if cmd = ''pub'' then
       (if crlf_free rest then Crash
        else Done cmd topic (Some (take (crlf_pos rest) rest)) (drop (crlf_pos rest + 2) rest))
     else Done cmd topic None rest)"
proof -
  let ?line = "cmd @ '' '' @ topic"
  have "crlf_free ('' '' @ topic)" using assms(3) by (simp add: crlf_free_Cons)
  with crlf_free_append [OF assms(1)] have free: "crlf_free ?line" by blast
  have pos: "crlf_pos (cmd @ '' '' @ topic @ kCRLF @ rest) = length ?line"
    using crlf_pos_at [OF free, of rest] by simp
  have nf: "\<not> crlf_free (cmd @ '' '' @ topic @ kCRLF @ rest)"
    using pos by (simp add: crlf_free_def kCRLF_def)
  have n: "find_space ?line = length cmd" using find_space_append [OF assms(2)] by simp
  have l: "take (length ?line) (cmd @ '' '' @ topic @ kCRLF @ rest) = ?line"
    "drop (length ?line + 2) (cmd @ '' '' @ topic @ kCRLF @ rest) = rest"
    by (simp_all add: kCRLF_def numeral_3_eq_3)
  show ?thesis
    unfolding parse_bytes_def Let_def pos l n using nf by simp
qed

section \<open>Writing messages\<close>

text \<open>
  The messages a client sends (\<open>publish\<close>, \<open>subscribe\<close>, \<open>unSubscribe\<close>); the hub's
  \<open>makeMessage\<close> is \<open>publish_message\<close> again.
\<close>

definition publish_message :: "string \<Rightarrow> string \<Rightarrow> string" where
  "publish_message topic content = ''pub '' @ topic @ kCRLF @ content @ kCRLF"

definition subscribe_message :: "string \<Rightarrow> string" where
  "subscribe_message topic = ''sub '' @ topic @ kCRLF"

definition unsubscribe_message :: "string \<Rightarrow> string" where
  "unsubscribe_message topic = ''unsub '' @ topic @ kCRLF"

datatype message = Pub string string | Sub string | Unsub string

fun write_message :: "message \<Rightarrow> string" where
  "write_message (Pub topic content) = publish_message topic content"
| "write_message (Sub topic) = subscribe_message topic"
| "write_message (Unsub topic) = unsubscribe_message topic"

fun message_ok :: "message \<Rightarrow> bool" where
  "message_ok (Pub topic content) = (crlf_free topic \<and> crlf_free content)"
| "message_ok (Sub topic) = crlf_free topic"
| "message_ok (Unsub topic) = crlf_free topic"

text \<open>
  What a caller sees of a message in the three strings: \<open>as_triple c0 m\<close> when the content was \<open>c0\<close>
  before; and back, what the hub takes three strings for. Other commands are no message.
\<close>

fun as_triple :: "string \<Rightarrow> message \<Rightarrow> string \<times> string \<times> string" where
  "as_triple c0 (Pub k c) = (''pub'', k, c)"
| "as_triple c0 (Sub k) = (''sub'', k, c0)"
| "as_triple c0 (Unsub k) = (''unsub'', k, c0)"

definition message_of :: "string \<times> string \<times> string \<Rightarrow> message option" where
  "message_of out = (case out of (cmd, topic, content) \<Rightarrow>
     if cmd = ''pub'' then Some (Pub topic content)
     else if cmd = ''sub'' then Some (Sub topic)
     else if cmd = ''unsub'' then Some (Unsub topic)
     else None)"

lemma message_of_triple [simp]: "message_of (as_triple c0 m) = Some m"
  by (cases m) (simp_all add: message_of_def)

fun parsed_as :: "message \<Rightarrow> char list \<Rightarrow> parsed" where
  "parsed_as (Pub k c) rest = Done ''pub'' k (Some c) rest"
| "parsed_as (Sub k) rest = Done ''sub'' k None rest"
| "parsed_as (Unsub k) rest = Done ''unsub'' k None rest"

lemma parse_write: "message_ok m \<Longrightarrow> parse_bytes (write_message m @ rest) = parsed_as m rest"
proof (cases m)
  case (Pub k c)
  assume "message_ok m"
  with Pub have ok: "crlf_free k" "crlf_free c" by simp_all
  have pos: "crlf_pos (c @ kCRLF @ rest) = length c" using crlf_pos_at [OF ok(2)] .
  then have "\<not> crlf_free (c @ kCRLF @ rest)" by (simp add: crlf_free_def kCRLF_def)
  with pos parse_line [of "''pub''" k "c @ kCRLF @ rest"] ok(1) show ?thesis
    by (simp add: Pub publish_message_def) (simp add: kCRLF_def)
next
  case (Sub k)
  then show "message_ok m \<Longrightarrow> ?thesis" using parse_line [of "''sub''" k rest] by (simp add: subscribe_message_def)
next
  case (Unsub k)
  then show "message_ok m \<Longrightarrow> ?thesis" using parse_line [of "''unsub''" k rest] by (simp add: unsubscribe_message_def)
qed

lemma parse_written:
  assumes "message_ok m" and "buf_inv b" and "contents b = write_message m @ rest"
  shows "parseMessage b (cmd0, topic0, content0) = (case as_triple content0 m of (cmd, topic, content) \<Rightarrow>
    Inr (KSuccess, consume rest b, cmd, topic, content)) \<and> buf_inv (consume rest b) \<and> contents (consume rest b) = rest"
  using parseMessage_contents [OF assms(2), of cmd0 topic0 content0] consume_ok [OF assms(2)] assms(3)
    parse_write [OF assms(1), of rest]
  by (cases m) auto

section \<open>Framed streams\<close>

text \<open>
  The loop of the two \<open>onMessage\<close> functions without what they do with a message: a parser is called
  as long as it succeeds, on what it leaves and with the strings it wrote last. \<open>None\<close> stands for a
  loop that does not end.
\<close>

partial_function (option) read_stream ::
  "('b \<Rightarrow> 'o \<Rightarrow> (ParseResult \<times> 'b \<times> 'o) res) \<Rightarrow> 'o list \<Rightarrow> 'b \<Rightarrow> 'o \<Rightarrow>
   ('o list \<times> ParseResult \<times> 'b) res option" where
  "read_stream parse outs b out =
     (case parse b out of
        Inl f \<Rightarrow> Some (Inl f)
      | Inr (r, b', out') \<Rightarrow>
          if r = KSuccess then read_stream parse (outs @ [out']) b' out' else Some (Inr (outs, r, b')))"

text \<open>
  The contract between a parser and a writer: a message written at the front of what a buffer holds
  comes back whole, and the rest is untouched.
\<close>

locale framing =
  fixes wr :: "'m \<Rightarrow> 'c list" and ok :: "'m \<Rightarrow> bool"
    and parse :: "'b \<Rightarrow> 'o \<Rightarrow> (ParseResult \<times> 'b \<times> 'o) res" and inv :: "'b \<Rightarrow> bool" and held :: "'b \<Rightarrow> 'c list"
    and seen :: "'o \<Rightarrow> 'm option"
  assumes parse_wr: "inv b \<Longrightarrow> ok m \<Longrightarrow> held b = wr m @ rest \<Longrightarrow>
    \<exists>b' out'. parse b out = Inr (KSuccess, b', out') \<and> inv b' \<and> held b' = rest \<and> seen out' = Some m"
begin

lemma read_written:
  "inv b \<Longrightarrow> list_all ok ms \<Longrightarrow> held b = concat (map wr ms) @ tail \<Longrightarrow>
   \<exists>outs' b' out'. map seen outs' = map Some ms \<and> inv b' \<and> held b' = tail \<and>
     read_stream parse outs b out = read_stream parse (outs @ outs') b' out'"
proof (induction ms arbitrary: b outs out)
  case Nil
  then show ?case by (intro exI [of _ "[]"]) auto
next
  case (Cons m ms)
  then obtain u o1 where u: "parse b out = Inr (KSuccess, u, o1)" "inv u" "held u = concat (map wr ms) @ tail" "seen o1 = Some m"
    using parse_wr [of b m "concat (map wr ms) @ tail" out] by auto
  from Cons.IH [OF u(2) _ u(3), of "outs @ [o1]" o1] Cons.prems(2) obtain outs' b' out' where
    "map seen outs' = map Some ms" "inv b'" "held b' = tail"
    "read_stream parse (outs @ [o1]) u o1 = read_stream parse ((outs @ [o1]) @ outs') b' out'" by auto
  with u(1,4) show ?case by (intro exI [of _ "o1 # outs'"]) (auto simp: read_stream.simps [of parse outs b])
qed

end

interpretation hub_frames: framing write_message message_ok parseMessage buf_inv contents message_of
proof unfold_locales
  fix b m rest and out :: "string \<times> string \<times> string"
  assume a: "buf_inv b" "message_ok m" "contents b = write_message m @ rest"
  obtain cmd0 topic0 content0 where out: "out = (cmd0, topic0, content0)" by (cases out)
  have "parseMessage b out = Inr (KSuccess, consume rest b, as_triple content0 m)"
    using parse_written [OF a(2,1,3), of cmd0 topic0 content0] by (cases m) (simp_all add: out)
  with parse_written [OF a(2,1,3), of cmd0 topic0 content0]
  show "\<exists>b' out'. parseMessage b out = Inr (KSuccess, b', out') \<and> buf_inv b' \<and> contents b' = rest \<and> message_of out' = Some m"
    by auto
qed

section \<open>All that can be read\<close>

text \<open>
  The reading of any bytes at all: the messages among the commands in front, and the rest, with
  which the parser stops.
\<close>

definition orders :: "string \<Rightarrow> string \<Rightarrow> string option \<Rightarrow> message list" where
  "orders cmd topic content = (case message_of (cmd, topic, case_option [] id content) of None \<Rightarrow> [] | Some m \<Rightarrow> [m])"

function digest :: "char list \<Rightarrow> message list \<times> char list" where
  "digest d = (case parse_bytes d of
     Done cmd topic content rest \<Rightarrow> (case digest rest of (ms, r) \<Rightarrow> (orders cmd topic content @ ms, r))
   | _ \<Rightarrow> ([], d))"
  by pat_completeness auto
termination
  by (relation "measure length") (auto dest: parse_progress)

declare digest.simps [simp del]

lemma digest_step:
  "parse_bytes d = Done cmd topic content rest \<Longrightarrow> digest d = (orders cmd topic content @ fst (digest rest), snd (digest rest))"
  by (simp add: digest.simps [of d] split: prod.split)

definition unread :: "char list \<Rightarrow> bool" where
  "unread d \<longleftrightarrow> (case parse_bytes d of Done _ _ _ _ \<Rightarrow> False | _ \<Rightarrow> True)"

lemma digest_unread: "unread d \<Longrightarrow> digest d = ([], d)"
  by (simp add: digest.simps [of d] unread_def split: parsed.splits)

lemma digest_rest: "unread (snd (digest d))"
proof (induction d rule: digest.induct)
  case (1 d)
  show ?case
  proof (cases "unread d")
    case False
    then obtain cmd topic content rest where d: "parse_bytes d = Done cmd topic content rest"
      by (auto simp: unread_def split: parsed.splits)
    with 1 [OF d] show ?thesis by (simp add: digest_step)
  qed (simp add: digest_unread)
qed

lemma orders_parsed_as: "parsed_as m rest = Done cmd topic content r \<Longrightarrow> orders cmd topic content = [m] \<and> r = rest"
  by (cases m) (auto simp: orders_def message_of_def)

lemma digest_written:
  "list_all message_ok ms \<Longrightarrow> unread tail \<Longrightarrow> digest (concat (map write_message ms) @ tail) = (ms, tail)"
proof (induction ms)
  case (Cons m ms)
  let ?rest = "concat (map write_message ms) @ tail"
  obtain cmd topic content where p: "parsed_as m ?rest = Done cmd topic content ?rest" by (cases m) simp_all
  moreover have "parse_bytes (write_message m @ ?rest) = parsed_as m ?rest" using Cons.prems(1) by (intro parse_write) simp
  ultimately show ?case using Cons orders_parsed_as [OF p] by (simp add: digest_step)
qed (simp add: digest_unread)

lemma crlf_free_tl: "crlf_free d \<Longrightarrow> crlf_free (tl d)"
  by (cases d rule: crlf_pos.cases) (auto simp: crlf_free_def split: if_splits)

lemma crlf_free_drop: "crlf_free d \<Longrightarrow> crlf_free (drop n d)"
  by (induction n arbitrary: d) (simp_all add: drop_Suc crlf_free_tl)

lemma parsed_free:
  assumes "parse_bytes d = Done cmd topic content rest"
  shows "crlf_free topic" and "content = Some c \<Longrightarrow> crlf_free c" and "cmd = ''pub'' \<longleftrightarrow> content \<noteq> None"
  using assms crlf_free_drop [OF crlf_free_take [of d]] crlf_free_take
  by (auto simp: parse_bytes_def Let_def split: if_splits)

lemma orders_ok: "parse_bytes d = Done cmd topic content rest \<Longrightarrow> list_all message_ok (orders cmd topic content)"
  using parsed_free [of d cmd topic content rest] by (auto simp: orders_def message_of_def)

lemma digest_ok: "list_all message_ok (fst (digest d))"
proof (induction d rule: digest.induct)
  case (1 d)
  show ?case
  proof (cases "unread d")
    case False
    then obtain cmd topic content rest where d: "parse_bytes d = Done cmd topic content rest"
      by (auto simp: unread_def split: parsed.splits)
    with 1 [OF d] show ?thesis by (simp add: digest_step orders_ok)
  qed (simp add: digest_unread)
qed

section \<open>Properties\<close>

text \<open>C5: \<open>parseMessage\<close> on a well-formed buffer, on every branch: it waits for more bytes while
  there is no line end, reports a line without a space as an error and leaves it in the buffer,
  returns a command and its topic (and, for \<open>pub\<close>, the second line) and removes exactly the bytes
  of the message, and runs into the null pointer when only the first line of a \<open>pub\<close> is there.\<close>

theorem parse_every_branch:
  assumes "buf_inv b"
  shows "parseMessage b (cmd0, topic0, content0) =
    (case parse_bytes (contents b) of
       More \<Rightarrow> Inr (KContinue, b, cmd0, topic0, content0)
     | Bad \<Rightarrow> Inr (KError, b, cmd0, topic0, content0)
     | Crash \<Rightarrow> Inl UndefinedBehaviour
     | Done cmd topic content rest \<Rightarrow>
         Inr (KSuccess, consume rest b, cmd, topic, case_option content0 id content))"
  by (rule parseMessage_contents [OF assms])

theorem parse_every_branch_witness:
  "buf_inv new_buffer \<and> parseMessage new_buffer ([], [], []) = Inr (KContinue, new_buffer, [], [], [])"
  using parse_every_branch [of new_buffer "[]" "[]" "[]"] buf_inv_new contents_new
  by (simp add: parse_bytes_def crlf_free_def)


lemma buffer_with:
  assumes "length d < 1000"
  obtains b where "append_bytes d new_buffer = Inr b" "buf_inv b" "contents b = d"
proof -
  have "buf_room d new_buffer" using assms by (simp add: buf_room_def append_fits_def)
  from bufq.push_law [OF buf_inv_new this] that show thesis by (auto simp: contents_new)
qed


text \<open>A line the parser rejects is never removed, so every later parse of the connection's
  bytes rejects it again, whatever arrives.\<close>

theorem bad_line_blocks:
  assumes "parse_bytes d = Bad"
  shows "parse_bytes (d @ later) = Bad"
proof -
  from assms have nf: "\<not> crlf_free d" and l: "find_space (take (crlf_pos d) d) = length (take (crlf_pos d) d)"
    by (auto simp: parse_bytes_def Let_def split: if_splits)
  have "crlf_pos d - length d = 0" using crlf_pos_le [of d] by simp
  with nf l show ?thesis by (simp add: parse_bytes_def Let_def crlf_free_extend crlf_pos_extend)
qed

theorem bad_line_blocks_witness: "parse_bytes ((''quit'' @ kCRLF) @ ''sub cats'' @ kCRLF) = Bad"
  by (rule bad_line_blocks) (simp add: parse_bytes_def crlf_free_def kCRLF_def find_space_def)

text \<open>A \<open>pub\<close> whose second line has not arrived yet is not waited for: the parser
  dereferences the null pointer of the second search.\<close>

theorem partial_pub_crashes:
  assumes "buf_inv b" and "contents b = ''pub '' @ topic @ kCRLF @ part"
    and "crlf_free topic" and "crlf_free part"
  shows "parseMessage b out = Inl UndefinedBehaviour"
proof (cases out)
  case (fields cmd0 topic0 content0)
  have "parse_bytes (contents b) = Crash"
    using parse_line [of "''pub''" topic part] assms(2-4) by simp
  with parseMessage_contents [OF assms(1)] fields show ?thesis by simp
qed

theorem partial_pub_crashes_witness:
  "\<exists>b. append_bytes (''pub cats'' @ kCRLF) new_buffer = Inr b \<and>
     parseMessage b ([], [], []) = Inl UndefinedBehaviour"
proof -
  have "length (''pub cats'' @ kCRLF) < 1000" by (simp add: kCRLF_def)
  then obtain b where
    b: "append_bytes (''pub cats'' @ kCRLF) new_buffer = Inr b" "buf_inv b" "contents b = ''pub cats'' @ kCRLF"
    by (rule buffer_with)
  then show ?thesis
    using partial_pub_crashes [of b "''cats''" "[]" "([], [], [])"] by (auto simp: crlf_free_def kCRLF_def)
qed

end
