(* ===== verification/Timestamp.thy ===== *)
theory Timestamp
  imports Prelude "HOL-Library.Word" Complex_Main
begin

text \<open>
  \<^verbatim>\<open>base/Timestamp.h\<close> and \<^verbatim>\<open>base/Timestamp.cc\<close>: a time stamp is a signed 64-bit
  number of microseconds since the epoch, here an \<open>int\<close>; 0 and below is "invalid".
  \<open>addTime\<close> takes its seconds as a \<open>double\<close>: a rational number, with the product rounded
  to 53 significant bits, to nearest and ties to even, as IEEE 754 does (subnormal and
  overflowing products apart, which truncate to 0 or leave the range of the cast).
\<close>

section \<open>Double arithmetic\<close>

fun bit_length :: "nat \<Rightarrow> nat" where
  "bit_length n = (if n = 0 then 0 else Suc (bit_length (n div 2)))"

declare bit_length.simps [simp del]

definition pow2 :: "int \<Rightarrow> rat" where
  "pow2 k = (if 0 \<le> k then 2 ^ nat k else 1 / 2 ^ nat (- k))"

definition exponent :: "rat \<Rightarrow> int" where
  "exponent x =
     (let (p, q) = quotient_of \<bar>x\<bar>;
          e = int (bit_length (nat p)) - int (bit_length (nat q))
      in if pow2 e \<le> \<bar>x\<bar> then e else e - 1)"

definition round_even :: "rat \<Rightarrow> int" where
  "round_even x =
     (let f = \<lfloor>x\<rfloor>; d = x - of_int f
      in if d < 1 / 2 then f else if d > 1 / 2 then f + 1 else if even f then f else f + 1)"

definition double_round :: "rat \<Rightarrow> rat" where
  "double_round x =
     (if x = 0 then 0
      else let s = pow2 (52 - exponent x) in of_int (round_even (x * s)) / s)"

definition double_mult :: "rat \<Rightarrow> rat \<Rightarrow> rat" where
  "double_mult a b = double_round (a * b)"

definition double_div :: "rat \<Rightarrow> rat \<Rightarrow> rat" where
  "double_div a b = double_round (a / b)"

definition trunc :: "rat \<Rightarrow> int" where
  "trunc x = (if 0 \<le> x then \<lfloor>x\<rfloor> else \<lceil>x\<rceil>)"

section \<open>Time stamps\<close>

type_synonym timestamp = int

definition kMicroSecondPerSecond :: int where
  "kMicroSecondPerSecond = 1000 * 1000"

definition ts_invalid :: timestamp where
  "ts_invalid = 0"

definition ts_valid :: "timestamp \<Rightarrow> bool" where
  "ts_valid t \<longleftrightarrow> t > 0"

definition ts_swap :: "timestamp \<Rightarrow> timestamp \<Rightarrow> timestamp \<times> timestamp" where
  "ts_swap a b = (b, a)"

definition ts_less :: "timestamp \<Rightarrow> timestamp \<Rightarrow> bool" where
  "ts_less lt rt \<longleftrightarrow> lt < rt"

definition ts_equal :: "timestamp \<Rightarrow> timestamp \<Rightarrow> bool" where
  "ts_equal lt rt \<longleftrightarrow> lt = rt"

text \<open>\<open>ts_of_timeval\<close> is \<open>now()\<close> from what \<open>gettimeofday\<close> stored.\<close>

definition ts_of_timeval :: "int \<Rightarrow> int \<Rightarrow> timestamp" where
  "ts_of_timeval tv_sec tv_usec = int64 (tv_sec * kMicroSecondPerSecond + tv_usec)"

text \<open>
  The cast of a value outside the range of \<open>int64_t\<close> and an overflowing sum of signed
  integers are undefined.
\<close>

definition in_int64 :: "int \<Rightarrow> bool" where
  "in_int64 x \<longleftrightarrow> - (2 ^ 63) \<le> x \<and> x < 2 ^ 63"

definition addTime :: "timestamp \<Rightarrow> rat \<Rightarrow> timestamp res" where
  "addTime t seconds =
     (let delay = trunc (double_mult (of_int kMicroSecondPerSecond) seconds)
      in if in_int64 delay \<and> in_int64 (t + delay) then Inr (t + delay)
         else Inl UndefinedBehaviour)"

section \<open>Exact products\<close>

lemma bit_length_0 [simp]: "bit_length 0 = 0"
  by (subst bit_length.simps) simp

lemma bit_length_1 [simp]: "bit_length (Suc 0) = 1"
  by (subst bit_length.simps) simp

lemma bit_length_bounds: "0 < n \<Longrightarrow> 2 ^ (bit_length n - 1) \<le> n \<and> n < 2 ^ bit_length n"
proof (induction n rule: bit_length.induct)
  case (1 n)
  show ?case
  proof (cases "n = 1")
    case True
    then show ?thesis by simp
  next
    case False
    with 1 have "0 < n div 2" and IH: "2 ^ (bit_length (n div 2) - 1) \<le> n div 2"
      "n div 2 < 2 ^ bit_length (n div 2)" by auto
    then have b: "0 < bit_length (n div 2)" by (subst bit_length.simps) simp
    then obtain k where k: "bit_length (n div 2) = Suc k" using gr0_implies_Suc by blast
    have "bit_length n = Suc (Suc k)" using 1 k by (subst bit_length.simps) simp
    with IH k show ?thesis by simp linarith
  qed
qed

lemma pow2_pos [simp]: "0 < pow2 k"
  by (simp add: pow2_def)

lemma pow2_nonneg: "0 \<le> k \<Longrightarrow> pow2 k = of_int (2 ^ nat k)"
  by (simp add: pow2_def)

lemma round_even_int [simp]: "round_even (of_int n) = n"
  by (simp add: round_even_def)

lemma exponent_int:
  assumes "n \<noteq> 0" and "\<bar>n\<bar> < 2 ^ 53"
  shows "exponent (of_int n) \<le> 52"
proof -
  have q: "quotient_of \<bar>of_int n\<bar> = (\<bar>n\<bar>, 1)"
    using quotient_of_int [of "\<bar>n\<bar>"] by (simp add: Rat.of_int_def)
  have "0 < nat \<bar>n\<bar>" using assms(1) by simp
  from bit_length_bounds [OF this] have "2 ^ (bit_length (nat \<bar>n\<bar>) - 1) \<le> nat \<bar>n\<bar>" by simp
  also have "\<dots> < 2 ^ 53" using assms(2) by (simp add: nat_less_iff)
  finally have "(2 :: nat) ^ (bit_length (nat \<bar>n\<bar>) - 1) < 2 ^ 53" .
  then have "bit_length (nat \<bar>n\<bar>) - 1 < 53" by (rule power_less_imp_less_exp [rotated]) simp
  then have "int (bit_length (nat \<bar>n\<bar>)) - 1 \<le> 52" by linarith
  then show ?thesis by (simp add: exponent_def q Let_def)
qed

lemma double_round_int:
  assumes "\<bar>n\<bar> < 2 ^ 53"
  shows "double_round (of_int n) = of_int n"
proof (cases "n = 0")
  case False
  define k where "k = 52 - exponent (of_int n)"
  have "0 \<le> k" using exponent_int [OF False assms] by (simp add: k_def)
  then have "of_int n * pow2 k = of_int (n * 2 ^ nat k)" by (simp add: pow2_nonneg)
  moreover have "pow2 k = of_int (2 ^ nat k)" using \<open>0 \<le> k\<close> by (rule pow2_nonneg)
  ultimately show ?thesis
    using False by (simp only: double_round_def Let_def k_def [symmetric] round_even_int)
      (simp add: k_def)
qed (simp add: double_round_def)

lemma trunc_int [simp]: "trunc (of_int n) = n"
  by (simp add: trunc_def)

text \<open>A delay that is a whole number of microseconds (below \<open>2 ^ 53\<close>) is added exactly.\<close>

lemma addTime_exact:
  assumes "of_int kMicroSecondPerSecond * s = of_int n" and "\<bar>n\<bar> < 2 ^ 53" and "\<bar>t\<bar> < 2 ^ 62"
  shows "addTime t s = Inr (t + n)"
proof -
  have "trunc (double_mult (of_int kMicroSecondPerSecond) s) = n"
    unfolding double_mult_def assms(1) double_round_int [OF assms(2)] by simp
  moreover have "in_int64 n" "in_int64 (t + n)" using assms(2,3) by (auto simp: in_int64_def)
  ultimately show ?thesis by (simp add: addTime_def Let_def)
qed

end
