(* ===== verification/Kernel.thy ===== *)
theory Kernel
  imports Timestamp
begin

text \<open>
  The operating system, which is not part of the repository. Every system call the sources
  make is a value of \<open>syscall\<close>; what the kernel answers is a parameter of the model, a
  function of the calls made so far and of the call itself, kept in the field \<open>kernel\<close> of the
  state. A theorem for every \<open>kernel\<close> holds whatever the machine does; where the code relies
  on documented behaviour, that is a hypothesis about this function. \<open>sysLog\<close> is the list of
  the calls made, oldest first: the observable output of the program.
\<close>

section \<open>System calls\<close>

datatype ctl_op = CtlAdd | CtlMod | CtlDel

datatype syscall =
  SysGettimeofday
| SysEpollCreate
| SysEpollCtl int ctl_op int "32 word" nat
| SysEpollWait int int int
| SysPoll "(int \<times> 16 word) list" int
| SysEventfd
| SysTimerfdCreate
| SysTimerfdSettime int int int
| SysRead int int
| SysReadv int int
| SysWrite int string
| SysClose int
| SysSocket
| SysFcntlGetfl int
| SysFcntlSetfl int int
| SysFcntlGetfd int
| SysFcntlSetfd int int
| SysConnect int "16 word" "32 word"
| SysBind int "16 word" "32 word"
| SysListen int
| SysAccept int
| SysShutdownWr int
| SysGetSoError int
| SysGetsockname int
| SysGetpeername int
| SysSetsockopt int int int bool

text \<open>
  An answer: the value returned, \<open>errno\<close>, and what the call stores through its pointers: two
  integers (the fields of a \<open>timeval\<close>, a counter, an option value), bytes, the port and address
  of a socket in network byte order, the events of \<open>epoll_wait\<close>, the \<open>revents\<close> of
  \<open>poll\<close>.
\<close>

record kres =
  kret :: int
  kerrno :: int
  kfst :: int
  ksnd :: int
  kdata :: string
  kport :: "16 word"
  kaddr :: "32 word"
  kevs :: "(32 word \<times> nat) list"
  krevs :: "16 word list"

definition ret :: "int \<Rightarrow> kres" where
  "ret n = \<lparr>kret = n, kerrno = 0, kfst = 0, ksnd = 0, kdata = [], kport = 0, kaddr = 0,
     kevs = [], krevs = []\<rparr>"

record kworld =
  kernel :: "syscall list \<Rightarrow> syscall \<Rightarrow> kres"
  sysLog :: "syscall list"

definition sys :: "syscall \<Rightarrow> 'z kworld_scheme \<Rightarrow> kres \<times> 'z kworld_scheme" where
  "sys c w = (kernel w (sysLog w) c, w\<lparr>sysLog := sysLog w @ [c]\<rparr>)"

text \<open>\<open>Timestamp::now()\<close>.\<close>

definition ts_now :: "'z kworld_scheme \<Rightarrow> timestamp \<times> 'z kworld_scheme" where
  "ts_now w = (let (r, w') = sys SysGettimeofday w in (ts_of_timeval (kfst r) (ksnd r), w'))"

lemma sys_fields [simp]:
  "kernel (snd (sys c w)) = kernel w"
  "sysLog (snd (sys c w)) = sysLog w @ [c]"
  "kworld.more (snd (sys c w)) = kworld.more w"
  "fst (sys c w) = kernel w (sysLog w) c"
  by (simp_all add: sys_def)

lemma now_fields [simp]:
  "kernel (snd (ts_now w)) = kernel w"
  "sysLog (snd (ts_now w)) = sysLog w @ [SysGettimeofday]"
  "kworld.more (snd (ts_now w)) = kworld.more w"
  by (simp_all add: ts_now_def sys_def Let_def)

end
