(* ===== verification/Channel.thy ===== *)
theory Channel
  imports Kernel "HOL-Library.Word"
begin

unbundle bit_operations_syntax

text \<open>
  \<^verbatim>\<open>net/Channel.h\<close> and \<^verbatim>\<open>net/Channel.cc\<close>: a channel ties a file descriptor to the
  events it waits for and to the callbacks that handle them. A callback is a
  \<open>boost::function\<close> made by one of the \<open>boost::bind\<close> expressions of the sources; each of
  these is a constructor of \<open>chan_cb\<close>, with the object it is bound to. Channels live at
  addresses (\<open>chans\<close>), so that a pointer to a channel that is gone is seen.
\<close>

section \<open>State\<close>

datatype chan_cb =
  CbTimerQueueRead nat
| CbWakeupRead nat
| CbAcceptorRead nat
| CbConnRead nat
| CbConnWrite nat
| CbConnClose nat
| CbConnError nat
| CbConnectorWrite nat
| CbConnectorError nat
| CbUser nat

record channel =
  ch_events :: "32 word"
  ch_revents :: "32 word"
  ch_fd :: int
  ch_loop :: nat
  ch_index :: int
  ch_handling :: bool
  ch_read :: "chan_cb option"
  ch_write :: "chan_cb option"
  ch_error :: "chan_cb option"
  ch_close :: "chan_cb option"

text \<open>
  \<open>threadOf l\<close> is \<open>threadId_\<close> of the event loop at address \<open>l\<close>, \<open>curTid\<close> the thread that
  executes (\<open>CurrentThread::tid()\<close>).
\<close>

record heapw = kworld +
  curTid :: int
  threadOf :: "nat \<Rightarrow> int"
  chans :: "nat \<Rightarrow> channel option"

definition POLLIN :: "32 word" where "POLLIN = 0x001"

definition POLLPRI :: "32 word" where "POLLPRI = 0x002"

definition POLLOUT :: "32 word" where "POLLOUT = 0x004"

definition POLLERR :: "32 word" where "POLLERR = 0x008"

definition POLLHUP :: "32 word" where "POLLHUP = 0x010"

definition POLLNVAL :: "32 word" where "POLLNVAL = 0x020"

definition POLLRDHUP :: "32 word" where "POLLRDHUP = 0x2000"

definition kNoneEvent :: "32 word" where
  "kNoneEvent = 0"

definition kReadEvent :: "32 word" where
  "kReadEvent = POLLIN OR POLLPRI"

definition kWriteEvent :: "32 word" where
  "kWriteEvent = POLLOUT"

lemmas poll_bits = POLLIN_def POLLPRI_def POLLOUT_def POLLERR_def POLLHUP_def POLLNVAL_def
  POLLRDHUP_def kNoneEvent_def kReadEvent_def kWriteEvent_def

definition new_channel :: "nat \<Rightarrow> int \<Rightarrow> channel" where
  "new_channel loop fd =
     \<lparr>ch_events = 0, ch_revents = 0, ch_fd = fd, ch_loop = loop, ch_index = -1,
      ch_handling = False, ch_read = None, ch_write = None, ch_error = None, ch_close = None\<rparr>"

section \<open>Operations on one channel\<close>

definition setReadCallback :: "chan_cb option \<Rightarrow> channel \<Rightarrow> channel" where
  "setReadCallback cb ch = ch\<lparr>ch_read := cb\<rparr>"

definition setWriteCallback :: "chan_cb option \<Rightarrow> channel \<Rightarrow> channel" where
  "setWriteCallback cb ch = ch\<lparr>ch_write := cb\<rparr>"

definition setErrorCallback :: "chan_cb option \<Rightarrow> channel \<Rightarrow> channel" where
  "setErrorCallback cb ch = ch\<lparr>ch_error := cb\<rparr>"

definition setCloseCallback :: "chan_cb option \<Rightarrow> channel \<Rightarrow> channel" where
  "setCloseCallback cb ch = ch\<lparr>ch_close := cb\<rparr>"

text \<open>The changes of \<open>events_\<close>; the call of \<open>update()\<close> that follows each is in the loop's theory.\<close>

definition ev_enableReading :: "channel \<Rightarrow> channel" where
  "ev_enableReading ch = ch\<lparr>ch_events := ch_events ch OR kReadEvent\<rparr>"

definition ev_enableWriting :: "channel \<Rightarrow> channel" where
  "ev_enableWriting ch = ch\<lparr>ch_events := ch_events ch OR kWriteEvent\<rparr>"

definition ev_disableWriting :: "channel \<Rightarrow> channel" where
  "ev_disableWriting ch = ch\<lparr>ch_events := ch_events ch AND NOT kWriteEvent\<rparr>"

definition ev_disableAll :: "channel \<Rightarrow> channel" where
  "ev_disableAll ch = ch\<lparr>ch_events := kNoneEvent\<rparr>"

definition isWriting :: "channel \<Rightarrow> bool" where
  "isWriting ch \<longleftrightarrow> ch_events ch AND kWriteEvent \<noteq> 0"

definition isNoneEvent :: "channel \<Rightarrow> bool" where
  "isNoneEvent ch \<longleftrightarrow> ch_events ch = kNoneEvent"

text \<open>Access through a pointer: a pointer to no channel is dangling or null.\<close>

definition ch_get :: "nat \<Rightarrow> 'z heapw_scheme \<Rightarrow> channel res" where
  "ch_get c w = (case chans w c of None \<Rightarrow> Inl UndefinedBehaviour | Some ch \<Rightarrow> Inr ch)"

definition ch_put :: "nat \<Rightarrow> channel \<Rightarrow> 'z heapw_scheme \<Rightarrow> 'z heapw_scheme" where
  "ch_put c ch w = w\<lparr>chans := (chans w)(c \<mapsto> ch)\<rparr>"

definition isInLoopThread :: "nat \<Rightarrow> 'z heapw_scheme \<Rightarrow> bool" where
  "isInLoopThread l w \<longleftrightarrow> threadOf w l = curTid w"

text \<open>\<open>assertInLoopThread()\<close> ends in \<open>LOG_FATAL\<close> when another thread calls it.\<close>

definition inLoopThread :: "nat \<Rightarrow> 'z heapw_scheme \<Rightarrow> 'a res \<Rightarrow> 'a res" where
  "inLoopThread l w k = (if isInLoopThread l w then k else Inl FatalLog)"

lemma put_world [simp]: "kernel (ch_put c ch w) = kernel w" "sysLog (ch_put c ch w) = sysLog w"
  by (simp_all add: ch_put_def)

lemma put_thread [simp]: "isInLoopThread l (ch_put c ch w) = isInLoopThread l w"
  by (simp add: isInLoopThread_def ch_put_def)

lemma heap_sys [simp]:
  "chans (snd (sys call w)) = chans w" "isInLoopThread l (snd (sys call w)) = isInLoopThread l w"
  by (simp_all add: sys_def isInLoopThread_def)

section \<open>Handling an event\<close>

text \<open>
  \<open>handleEvent\<close> tests the ready events in four places and calls the callback of each that is
  set. \<open>run cb t w\<close> is the effect of the callback \<open>cb\<close> called with the receive time
  \<open>t\<close>; it may change anything, the channel included, so every test reads the channel again.
\<close>

definition event_stage ::
  "(chan_cb \<Rightarrow> timestamp \<Rightarrow> 'z heapw_scheme \<Rightarrow> 'z heapw_scheme res) \<Rightarrow> nat \<Rightarrow> timestamp \<Rightarrow>
   (32 word \<Rightarrow> bool) \<Rightarrow> (channel \<Rightarrow> chan_cb option) \<Rightarrow> 'z heapw_scheme \<Rightarrow> 'z heapw_scheme res" where
  "event_stage run c t ready cb w =
     bindR (ch_get c w) (\<lambda>ch.
       if ready (ch_revents ch)
       then (case cb ch of None \<Rightarrow> Inr w | Some f \<Rightarrow> run f t w)
       else Inr w)"

definition hup_only :: "32 word \<Rightarrow> bool" where
  "hup_only r \<longleftrightarrow> r AND POLLHUP \<noteq> 0 \<and> \<not> r AND POLLIN \<noteq> 0"

definition err_ready :: "32 word \<Rightarrow> bool" where
  "err_ready r \<longleftrightarrow> r AND (POLLERR OR POLLNVAL) \<noteq> 0"

definition in_ready :: "32 word \<Rightarrow> bool" where
  "in_ready r \<longleftrightarrow> r AND (POLLIN OR POLLPRI OR POLLRDHUP) \<noteq> 0"

definition out_ready :: "32 word \<Rightarrow> bool" where
  "out_ready r \<longleftrightarrow> r AND POLLOUT \<noteq> 0"

definition set_handling :: "bool \<Rightarrow> nat \<Rightarrow> 'z heapw_scheme \<Rightarrow> 'z heapw_scheme res" where
  "set_handling v c w = bindR (ch_get c w) (\<lambda>ch. Inr (ch_put c (ch\<lparr>ch_handling := v\<rparr>) w))"

definition handleEvent ::
  "(chan_cb \<Rightarrow> timestamp \<Rightarrow> 'z heapw_scheme \<Rightarrow> 'z heapw_scheme res) \<Rightarrow> nat \<Rightarrow> timestamp \<Rightarrow>
   'z heapw_scheme \<Rightarrow> 'z heapw_scheme res" where
  "handleEvent run c t w =
     bindR (set_handling True c w) (\<lambda>w.
     bindR (event_stage run c t hup_only ch_close w) (\<lambda>w.
     bindR (event_stage run c t err_ready ch_error w) (\<lambda>w.
     bindR (event_stage run c t in_ready ch_read w) (\<lambda>w.
     bindR (event_stage run c t out_ready ch_write w) (\<lambda>w.
       set_handling False c w)))))"

text \<open>\<open>~Channel()\<close>: the channel must not be in the middle of \<open>handleEvent\<close>.\<close>

definition delete_channel :: "nat \<Rightarrow> 'z heapw_scheme \<Rightarrow> 'z heapw_scheme res" where
  "delete_channel c w =
     bindR (ch_get c w) (\<lambda>ch. assertR (\<not> ch_handling ch)
       (Inr (w\<lparr>chans := (chans w)(c := None)\<rparr>)))"

section \<open>Which callbacks an event runs\<close>

text \<open>The callbacks of one event in the order they run, as a list.\<close>

definition due :: "bool \<Rightarrow> chan_cb option \<Rightarrow> chan_cb list" where
  "due b cb = (if b then (case cb of None \<Rightarrow> [] | Some f \<Rightarrow> [f]) else [])"

definition callbacks_for :: "channel \<Rightarrow> chan_cb list" where
  "callbacks_for ch =
     due (hup_only (ch_revents ch)) (ch_close ch) @ due (err_ready (ch_revents ch)) (ch_error ch) @
     due (in_ready (ch_revents ch)) (ch_read ch) @ due (out_ready (ch_revents ch)) (ch_write ch)"

text \<open>A callback leaves \<open>c\<close> the channel it is: alive, with its ready events and callbacks.\<close>

definition same_wiring :: "channel \<Rightarrow> channel \<Rightarrow> bool" where
  "same_wiring a b \<longleftrightarrow> ch_revents a = ch_revents b \<and> ch_read a = ch_read b \<and>
     ch_write a = ch_write b \<and> ch_error a = ch_error b \<and> ch_close a = ch_close b"

definition keeps_channel ::
  "nat \<Rightarrow> (chan_cb \<Rightarrow> timestamp \<Rightarrow> 'z heapw_scheme \<Rightarrow> 'z heapw_scheme res) \<Rightarrow> bool" where
  "keeps_channel c run \<longleftrightarrow> (\<forall>f t w w' ch. run f t w = Inr w' \<longrightarrow> chans w c = Some ch \<longrightarrow>
     (\<exists>ch'. chans w' c = Some ch' \<and> same_wiring ch ch'))"

lemma same_wiring_refl [simp]: "same_wiring a a"
  by (simp add: same_wiring_def)

lemma same_wiring_trans: "same_wiring a b \<Longrightarrow> same_wiring b c \<Longrightarrow> same_wiring a c"
  by (simp add: same_wiring_def)

lemma same_wiring_handling [simp]: "same_wiring ch (ch\<lparr>ch_handling := v\<rparr>)"
  by (simp add: same_wiring_def)

lemma event_stage_due:
  assumes "chans w c = Some ch"
  shows "event_stage run c t ready cb w = foldR (\<lambda>f. run f t) (due (ready (ch_revents ch)) (cb ch)) w"
  using assms by (cases "cb ch") (simp_all add: event_stage_def ch_get_def due_def del: foldR.simps(2))

lemma keeps_foldR:
  assumes "keeps_channel c run" and "foldR (\<lambda>f. run f t) fs w = Inr w'" and "chans w c = Some ch"
  shows "\<exists>ch'. chans w' c = Some ch' \<and> same_wiring ch ch'"
proof (rule foldR_invariant [OF assms(2)])
  show "\<exists>ch'. chans w c = Some ch' \<and> same_wiring ch ch'" using assms(3) by simp
next
  fix f s u
  assume "\<exists>ch'. chans s c = Some ch' \<and> same_wiring ch ch'" and run: "run f t s = Inr u"
  then obtain ch' where s: "chans s c = Some ch'" "same_wiring ch ch'" by blast
  from assms(1) run s(1) obtain ch'' where "chans u c = Some ch''" "same_wiring ch' ch''"
    unfolding keeps_channel_def by blast
  with s(2) show "\<exists>ch'. chans u c = Some ch' \<and> same_wiring ch ch'"
    using same_wiring_trans by blast
qed

lemma chans_ch_put [simp]: "chans (ch_put c ch w) = (chans w)(c \<mapsto> ch)"
  by (simp add: ch_put_def)

lemma set_handling_Some:
  "chans w c = Some ch \<Longrightarrow>
   set_handling v c w = Inr (ch_put c (ch\<lparr>ch_handling := v\<rparr>) w)"
  by (simp add: set_handling_def ch_get_def)

lemma due_wiring:
  "same_wiring ch ch' \<Longrightarrow> callbacks_for ch' = callbacks_for ch"
  by (simp add: same_wiring_def callbacks_for_def)

text \<open>
  A run of several stages is the run of the callbacks due in each, by induction on the stages:
  every callback leaves the wiring the later stages read.
\<close>

type_synonym stage = "(32 word \<Rightarrow> bool) \<times> (channel \<Rightarrow> chan_cb option)"

definition by_wiring :: "stage \<Rightarrow> bool" where
  "by_wiring s \<longleftrightarrow> (\<forall>a b. same_wiring a b \<longrightarrow> snd s a = snd s b)"

definition stage_due :: "channel \<Rightarrow> stage \<Rightarrow> chan_cb list" where
  "stage_due ch s = due (fst s (ch_revents ch)) (snd s ch)"

lemma event_stage_wired:
  assumes "by_wiring s" and "chans w c = Some x" and "same_wiring ch x"
  shows "event_stage run c t (fst s) (snd s) w = foldR (\<lambda>f. run f t) (stage_due ch s) w"
proof -
  from assms(1,3) have "snd s ch = snd s x" by (simp add: by_wiring_def)
  moreover from assms(3) have "ch_revents ch = ch_revents x" by (simp add: same_wiring_def)
  ultimately show ?thesis using event_stage_due [OF assms(2)] by (simp add: stage_due_def)
qed

lemma stages_run:
  assumes "keeps_channel c run" and "list_all by_wiring ss" and "chans w c = Some x"
    and "same_wiring ch x"
  shows "foldR (\<lambda>s. event_stage run c t (fst s) (snd s)) ss w =
    foldR (\<lambda>f. run f t) (concat (map (stage_due ch) ss)) w"
  using assms(2-4)
proof (induction ss arbitrary: w x)
  case (Cons s ss)
  have first: "event_stage run c t (fst s) (snd s) w = foldR (\<lambda>f. run f t) (stage_due ch s) w"
    using Cons.prems by (intro event_stage_wired) auto
  have "foldR (\<lambda>s. event_stage run c t (fst s) (snd s)) ss w' =
      foldR (\<lambda>f. run f t) (concat (map (stage_due ch) ss)) w'"
    if w': "foldR (\<lambda>f. run f t) (stage_due ch s) w = Inr w'" for w'
  proof -
    from keeps_foldR [OF assms(1) w' Cons.prems(2)] obtain y
      where "chans w' c = Some y" "same_wiring x y" by blast
    with Cons.IH [of w' y] Cons.prems show ?thesis using same_wiring_trans by auto
  qed
  then show ?case by (simp add: first foldR_append cong: bindR_cong)
qed simp

definition event_stages :: "stage list" where
  "event_stages = [(hup_only, ch_close), (err_ready, ch_error), (in_ready, ch_read), (out_ready, ch_write)]"

lemma callbacks_for_stages: "callbacks_for ch = concat (map (stage_due ch) event_stages)"
  by (simp add: callbacks_for_def event_stages_def stage_due_def)

text \<open>
  \<open>handleEvent\<close> is: set the flag, run the callbacks that are due in the order close, error,
  read, write, clear the flag.
\<close>

lemma handleEvent_sequence:
  assumes "keeps_channel c run" and "chans w c = Some ch"
  shows "handleEvent run c t w =
    bindR (foldR (\<lambda>f. run f t) (callbacks_for ch) (ch_put c (ch\<lparr>ch_handling := True\<rparr>) w))
      (set_handling False c)"
proof -
  let ?u = "ch_put c (ch\<lparr>ch_handling := True\<rparr>) w"
  have "handleEvent run c t w =
      bindR (foldR (\<lambda>s. event_stage run c t (fst s) (snd s)) event_stages ?u) (set_handling False c)"
    using assms(2) by (simp add: handleEvent_def set_handling_Some event_stages_def bindR_assoc)
  also have "foldR (\<lambda>s. event_stage run c t (fst s) (snd s)) event_stages ?u =
      foldR (\<lambda>f. run f t) (concat (map (stage_due ch) event_stages)) ?u"
    by (rule stages_run [OF assms(1), where x = "ch\<lparr>ch_handling := True\<rparr>"])
      (simp_all add: event_stages_def by_wiring_def same_wiring_def)
  finally show ?thesis by (simp only: callbacks_for_stages)
qed

section \<open>Properties\<close>

text \<open>A kernel that answers every call with 0, and a heap with one channel, for the examples.\<close>

definition zero_kernel :: "syscall list \<Rightarrow> syscall \<Rightarrow> kres" where
  "zero_kernel calls c = ret 0"

definition example_heap :: "channel \<Rightarrow> heapw" where
  "example_heap ch = \<lparr>kernel = zero_kernel, sysLog = [], curTid = 1, threadOf = (\<lambda>_. 1),
     chans = [1 \<mapsto> ch]\<rparr>"

definition ready_channel :: "32 word \<Rightarrow> channel" where
  "ready_channel r = (new_channel 0 5)\<lparr>ch_revents := r, ch_read := Some (CbConnRead 7),
     ch_write := Some (CbConnWrite 7), ch_close := Some (CbConnClose 7), ch_error := Some (CbConnError 7)\<rparr>"

text \<open>C10: \<open>handleEvent\<close> runs exactly the callbacks the ready events call for and that are set, in
  the order close, error, read, write, each once, with \<open>eventHandling\<close> set meanwhile, as long as
  the callbacks leave the channel alive and its wiring alone.\<close>

theorem handleEvent_runs_due:
  assumes "keeps_channel c run" and "chans w c = Some ch"
  shows "handleEvent run c t w =
    bindR (foldR (\<lambda>f. run f t) (callbacks_for ch) (ch_put c (ch\<lparr>ch_handling := True\<rparr>) w))
      (set_handling False c)"
  by (rule handleEvent_sequence [OF assms])

theorem handleEvent_runs_due_witness:
  "callbacks_for (ready_channel (POLLIN OR POLLOUT)) = [CbConnRead 7, CbConnWrite 7] \<and>
   handleEvent (\<lambda>f t w. Inr w) 1 0 (example_heap (ready_channel (POLLIN OR POLLOUT))) =
     Inr (ch_put 1 (ready_channel (POLLIN OR POLLOUT)) (example_heap (ready_channel (POLLIN OR POLLOUT))))"
proof -
  let ?ch = "ready_channel (POLLIN OR POLLOUT)"
  have keep: "keeps_channel 1 (\<lambda>f t w :: heapw. Inr w)" by (simp add: keeps_channel_def)
  have due: "callbacks_for ?ch = [CbConnRead 7, CbConnWrite 7]"
    by (simp add: callbacks_for_def due_def ready_channel_def hup_only_def err_ready_def in_ready_def
        out_ready_def poll_bits)
  have "?ch\<lparr>ch_handling := False\<rparr> = ?ch" by (simp add: ready_channel_def new_channel_def)
  with handleEvent_runs_due [OF keep, of "example_heap ?ch" ?ch 0] show ?thesis
    by (simp add: due set_handling_def ch_get_def) (simp add: example_heap_def ch_put_def)
qed

end
