(* ===== verification/Poller.thy ===== *)
theory Poller
  imports Channel
begin

text \<open>
  \<^verbatim>\<open>net/Poller.h\<close>: the abstract class the event loop registers its channels with, as a
  locale. \<open>ok p w\<close> is the poller's own consistency with the channels at their addresses,
  \<open>reg p\<close> the map from descriptors to registered channels, \<open>parked p fd\<close> says the poller has
  been told that \<open>fd\<close> waits for nothing. The laws are what \<^verbatim>\<open>EventLoop\<close> and
  \<^verbatim>\<open>Channel\<close> rely on; both implementations are interpreted in their own theories, and the
  virtual dispatch in the event loop's.
\<close>

section \<open>Descriptors and calls that do not concern a poller\<close>

text \<open>Descriptors are below the limit the kernel sets for a process (at most \<open>2 ^ 30\<close>).\<close>

definition valid_fd :: "int \<Rightarrow> bool" where
  "valid_fd fd \<longleftrightarrow> 0 \<le> fd \<and> fd < 2 ^ 30"

fun harmless :: "syscall \<Rightarrow> bool" where
  "harmless (SysEpollCtl _ _ _ _ _) = False"
| "harmless (SysClose _) = False"
| "harmless _ = True"

definition same_but_index :: "channel \<Rightarrow> channel \<Rightarrow> bool" where
  "same_but_index a b \<longleftrightarrow> (\<exists>i. b = a\<lparr>ch_index := i\<rparr>)"

lemma same_but_index_refl [simp]: "same_but_index a a"
  by (auto simp: same_but_index_def intro: exI [of _ "ch_index a"])

lemma rel_same_refl [simp]: "rel_option same_but_index x x"
  by (cases x) simp_all

section \<open>The interface\<close>

locale poller =
  fixes update :: "nat \<Rightarrow> 'p \<Rightarrow> 'z heapw_scheme \<Rightarrow> ('p \<times> 'z heapw_scheme) res"
    and remove :: "nat \<Rightarrow> 'p \<Rightarrow> 'z heapw_scheme \<Rightarrow> ('p \<times> 'z heapw_scheme) res"
    and ok :: "'p \<Rightarrow> 'z heapw_scheme \<Rightarrow> bool"
    and reg :: "'p \<Rightarrow> int \<Rightarrow> nat option"
    and parked :: "'p \<Rightarrow> int \<Rightarrow> bool"
  assumes register_law: "ok p w \<Longrightarrow> chans w c = Some ch \<Longrightarrow> ch_index ch = -1 \<Longrightarrow>
      valid_fd (ch_fd ch) \<Longrightarrow> reg p (ch_fd ch) = None \<Longrightarrow>
      \<exists>p' w' i. update c p w = Inr (p', w') \<and> ok p' w' \<and> 0 \<le> i \<and>
        reg p' = (reg p)(ch_fd ch \<mapsto> c) \<and> chans w' = (chans w)(c \<mapsto> ch\<lparr>ch_index := i\<rparr>)"
    and modify_law: "ok p w \<Longrightarrow> chans w c = Some ch \<Longrightarrow> reg p (ch_fd ch) = Some c \<Longrightarrow>
      \<exists>p' w'. update c p w = Inr (p', w') \<and> ok p' w' \<and> reg p' = reg p \<and>
        chans w' = chans w \<and> (ch_events ch = kNoneEvent \<longrightarrow> parked p' (ch_fd ch))"
    and unregister_law: "ok p w \<Longrightarrow> chans w c = Some ch \<Longrightarrow> reg p (ch_fd ch) = Some c \<Longrightarrow>
      ch_events ch = kNoneEvent \<Longrightarrow> parked p (ch_fd ch) \<Longrightarrow>
      \<exists>p' w'. remove c p w = Inr (p', w') \<and> ok p' w' \<and> reg p' = (reg p)(ch_fd ch := None) \<and>
        chans w' c = Some ch \<and>
        (\<forall>d. rel_option same_but_index (chans w d) (chans w' d))"
    and registered_law: "ok p w \<Longrightarrow> reg p fd = Some c \<Longrightarrow>
      \<exists>ch. chans w c = Some ch \<and> ch_fd ch = fd \<and> 0 \<le> ch_index ch"
    and events_law: "ok p w \<Longrightarrow> chans w c = Some ch \<Longrightarrow> ok p (ch_put c (ch\<lparr>ch_events := e\<rparr>) w)"
    and quiet_law: "ok p w \<Longrightarrow> harmless call \<Longrightarrow> ok p (snd (sys call w))"
begin

text \<open>One channel is registered for one descriptor only.\<close>

lemma registered_once: "ok p w \<Longrightarrow> reg p fd = Some c \<Longrightarrow> reg p fd' = Some c \<Longrightarrow> fd = fd'"
  using registered_law [of p w fd c] registered_law [of p w fd' c] by auto

text \<open>
  The step of \<open>enableReading\<close> and its kin: the events of a channel change and the poller is
  told. It never fails for a channel that is registered, or new with a free descriptor.
\<close>

definition admissible :: "'p \<Rightarrow> nat \<Rightarrow> channel \<Rightarrow> bool" where
  "admissible p c ch \<longleftrightarrow> reg p (ch_fd ch) = Some c \<or>
     (ch_index ch = -1 \<and> valid_fd (ch_fd ch) \<and> reg p (ch_fd ch) = None)"

lemma update_admissible:
  assumes "ok p w" and "chans w c = Some ch" and "admissible p c ch"
  shows "\<exists>p' w' ch'. update c p w = Inr (p', w') \<and> ok p' w' \<and> same_but_index ch ch' \<and>
    chans w' = (chans w)(c \<mapsto> ch') \<and> reg p' = (reg p)(ch_fd ch \<mapsto> c)"
proof (cases "reg p (ch_fd ch) = Some c")
  case True
  from modify_law [OF assms(1,2) True] obtain p' w' where
    u: "update c p w = Inr (p', w')" "ok p' w'" "reg p' = reg p" "chans w' = chans w" by blast
  moreover have "chans w = (chans w)(c \<mapsto> ch)" "reg p = (reg p)(ch_fd ch \<mapsto> c)"
    using assms(2) True by (auto simp: fun_upd_idem)
  ultimately show ?thesis by (metis same_but_index_refl)
next
  case False
  with assms(3) have new: "ch_index ch = -1" "valid_fd (ch_fd ch)" "reg p (ch_fd ch) = None"
    by (auto simp: admissible_def)
  from register_law [OF assms(1,2) new] obtain p' w' i where
    u: "update c p w = Inr (p', w')" "ok p' w'" "reg p' = (reg p)(ch_fd ch \<mapsto> c)"
    "chans w' = (chans w)(c \<mapsto> ch\<lparr>ch_index := i\<rparr>)" by blast
  moreover have "same_but_index ch (ch\<lparr>ch_index := i\<rparr>)" by (auto simp: same_but_index_def)
  ultimately show ?thesis by blast
qed

lemma change_events:
  assumes "ok p w" and "chans w c = Some ch" and "admissible p c ch"
  shows "\<exists>p' w' ch'. update c p (ch_put c (ch\<lparr>ch_events := e\<rparr>) w) = Inr (p', w') \<and> ok p' w' \<and>
    same_but_index (ch\<lparr>ch_events := e\<rparr>) ch' \<and> chans w' = (chans w)(c \<mapsto> ch') \<and>
    reg p' = (reg p)(ch_fd ch \<mapsto> c)"
proof -
  let ?w = "ch_put c (ch\<lparr>ch_events := e\<rparr>) w"
  have "ok p ?w" using events_law [OF assms(1,2)] .
  moreover have "chans ?w c = Some (ch\<lparr>ch_events := e\<rparr>)" by simp
  moreover have "admissible p c (ch\<lparr>ch_events := e\<rparr>)" using assms(3) by (simp add: admissible_def)
  ultimately show ?thesis using update_admissible by fastforce
qed

text \<open>
  The end of a channel's life: \<open>disableAll\<close> and then \<open>removeChannel\<close>. A registered channel
  comes off, and its descriptor is free again.
\<close>

lemma disable_then_remove:
  assumes "ok p w" and "chans w c = Some ch" and "reg p (ch_fd ch) = Some c"
  shows "\<exists>p' w' p'' w''. update c p (ch_put c (ch\<lparr>ch_events := kNoneEvent\<rparr>) w) = Inr (p', w') \<and>
    remove c p' w' = Inr (p'', w'') \<and> ok p'' w'' \<and> reg p'' = (reg p)(ch_fd ch := None)"
proof -
  let ?ch = "ch\<lparr>ch_events := kNoneEvent\<rparr>"
  have "ok p (ch_put c ?ch w)" using events_law [OF assms(1,2)] .
  moreover have "chans (ch_put c ?ch w) c = Some ?ch" "reg p (ch_fd ?ch) = Some c"
    using assms(3) by simp_all
  ultimately obtain p' w' where
    u: "update c p (ch_put c ?ch w) = Inr (p', w')" "ok p' w'" "reg p' = reg p"
    "chans w' = chans (ch_put c ?ch w)" "parked p' (ch_fd ?ch)"
    using modify_law [of p "ch_put c ?ch w" c ?ch] by auto
  then have "chans w' c = Some ?ch" "reg p' (ch_fd ?ch) = Some c" using assms(3) by simp_all
  with unregister_law [of p' w' c ?ch] u show ?thesis by fastforce
qed

end

section \<open>Waiting for events\<close>

text \<open>
  \<open>fillActiveChannels\<close> in both pollers comes down to \<open>mark\<close>: each ready channel gets the
  events it is ready for, in the order the kernel reports them.
\<close>

definition mark1 :: "32 word \<times> nat \<Rightarrow> 'z heapw_scheme \<Rightarrow> 'z heapw_scheme" where
  "mark1 ev w = (case chans w (snd ev) of
     None \<Rightarrow> w | Some ch \<Rightarrow> ch_put (snd ev) (ch\<lparr>ch_revents := fst ev\<rparr>) w)"

definition mark :: "(32 word \<times> nat) list \<Rightarrow> 'z heapw_scheme \<Rightarrow> 'z heapw_scheme" where
  "mark evs w = fold mark1 evs w"

lemma mark_Nil [simp]: "mark [] w = w"
  by (simp add: mark_def)

lemma mark_Cons [simp]: "mark (ev # evs) w = mark evs (mark1 ev w)"
  by (simp add: mark_def)

lemma mark1_alive: "chans w (snd ev) = Some ch \<Longrightarrow> mark1 ev w = ch_put (snd ev) (ch\<lparr>ch_revents := fst ev\<rparr>) w"
  by (simp add: mark1_def)

text \<open>Only \<open>revents_\<close> of living channels changes.\<close>

definition same_but_revents :: "channel \<Rightarrow> channel \<Rightarrow> bool" where
  "same_but_revents a b \<longleftrightarrow> (\<exists>r. b = a\<lparr>ch_revents := r\<rparr>)"

lemma same_but_revents_refl [simp]: "same_but_revents a a"
  by (auto simp: same_but_revents_def intro: exI [of _ "ch_revents a"])

lemma same_but_revents_trans: "same_but_revents a b \<Longrightarrow> same_but_revents b c \<Longrightarrow> same_but_revents a c"
  by (auto simp: same_but_revents_def)

lemma rel_revents_trans:
  "rel_option same_but_revents x y \<Longrightarrow> rel_option same_but_revents y z \<Longrightarrow> rel_option same_but_revents x z"
  by (cases x; cases y; cases z) (auto intro: same_but_revents_trans)

lemma rel_revents_refl [simp]: "rel_option same_but_revents x x"
  by (cases x) simp_all

lemma mark1_chans: "rel_option same_but_revents (chans w c) (chans (mark1 ev w) c)"
  by (auto simp: mark1_def same_but_revents_def split: option.splits)

lemma mark_chans: "rel_option same_but_revents (chans w c) (chans (mark evs w) c)"
  by (induction evs arbitrary: w) (auto intro: rel_revents_trans mark1_chans)

lemma mark_world [simp]:
  "kernel (mark evs w) = kernel w" "sysLog (mark evs w) = sysLog w"
  "isInLoopThread l (mark evs w) = isInLoopThread l w"
proof -
  have "kernel (mark1 ev w) = kernel w \<and> sysLog (mark1 ev w) = sysLog w \<and>
      isInLoopThread l (mark1 ev w) = isInLoopThread l w" for ev and w :: "'a heapw_scheme"
    by (simp add: mark1_def split: option.splits)
  then have "kernel (mark evs w) = kernel w \<and> sysLog (mark evs w) = sysLog w \<and>
      isInLoopThread l (mark evs w) = isInLoopThread l w"
    by (induction evs arbitrary: w) simp_all
  then show "kernel (mark evs w) = kernel w" "sysLog (mark evs w) = sysLog w"
    "isInLoopThread l (mark evs w) = isInLoopThread l w" by simp_all
qed

lemma now_chans [simp]: "chans (snd (ts_now w)) = chans w"
  by (simp add: ts_now_def sys_def)

lemma mark_of_chans: "chans v = chans w \<Longrightarrow> chans (mark evs v) = chans (mark evs w)"
proof (induction evs arbitrary: v w)
  case (Cons ev evs)
  then have "chans (mark1 ev v) = chans (mark1 ev w)" by (simp add: mark1_def split: option.splits)
  from Cons.IH [OF this] show ?case by simp
qed simp

locale waiting_poller = poller update remove ok reg parked
  for update :: "nat \<Rightarrow> 'p \<Rightarrow> 'z heapw_scheme \<Rightarrow> ('p \<times> 'z heapw_scheme) res"
    and remove :: "nat \<Rightarrow> 'p \<Rightarrow> 'z heapw_scheme \<Rightarrow> ('p \<times> 'z heapw_scheme) res"
    and ok :: "'p \<Rightarrow> 'z heapw_scheme \<Rightarrow> bool"
    and reg :: "'p \<Rightarrow> int \<Rightarrow> nat option"
    and parked :: "'p \<Rightarrow> int \<Rightarrow> bool" +
  fixes poll :: "int \<Rightarrow> nat list \<Rightarrow> 'p \<Rightarrow> 'z heapw_scheme \<Rightarrow>
      (timestamp \<times> nat list \<times> 'p \<times> 'z heapw_scheme) res"
    and answered :: "int \<Rightarrow> 'p \<Rightarrow> 'z heapw_scheme \<Rightarrow> (32 word \<times> nat) list \<Rightarrow> bool"
  assumes poll_law: "ok p w \<Longrightarrow> answered t p w evs \<Longrightarrow>
      \<exists>now p' w'. poll t active p w = Inr (now, active @ map snd evs, p', w') \<and> ok p' w' \<and>
        reg p' = reg p \<and> chans w' = chans (mark evs w)"
    and answered_law: "ok p w \<Longrightarrow> answered t p w evs \<Longrightarrow> (e, c) \<in> set evs \<Longrightarrow> c \<in> ran (reg p)"
begin

text \<open>Every channel in the active list is alive, so the loop may handle its event.\<close>

lemma active_alive:
  assumes "ok p w" and "answered t p w evs"
  shows "\<exists>now active p' w'. poll t [] p w = Inr (now, active, p', w') \<and> ok p' w' \<and> reg p' = reg p \<and>
    active = map snd evs \<and> (\<forall>c \<in> set active. chans w' c \<noteq> None)"
proof -
  obtain now p' w' where u: "poll t [] p w = Inr (now, map snd evs, p', w')" "ok p' w'"
    "reg p' = reg p" "chans w' = chans (mark evs w)" using poll_law [OF assms, of "[]"] by auto
  have "chans w' c \<noteq> None" if c: "c \<in> set (map snd evs)" for c
  proof -
    from c answered_law [OF assms] have "c \<in> ran (reg p)" by auto
    then obtain fd where "reg p fd = Some c" by (auto simp: ran_def)
    with registered_law [OF assms(1)] have "chans w c \<noteq> None" by fastforce
    with mark_chans [of w c evs] show ?thesis by (auto simp: u(4) option_rel_Some1)
  qed
  with u show ?thesis by blast
qed

end

end
