(* ===== verification/Poll_Poller.thy ===== *)
theory Poll_Poller
  imports Poller
begin

text \<open>
  \<^verbatim>\<open>net/poller/PollPoller.cc\<close>: the poller over \<open>poll(2)\<close>. A vector of \<open>pollfd\<close> and a
  map from descriptors to channels; a channel remembers its position in the vector, an entry
  whose channel waits for nothing carries \<open>-fd - 1\<close>, and removal moves the last entry into the
  gap. \<open>pp_ok\<close> says how the three agree; every operation keeps it.
\<close>

section \<open>State and operations\<close>

record pollfd =
  pfd_fd :: int
  pfd_events :: "16 word"
  pfd_revents :: "16 word"

record poll_poller =
  pollfds :: "pollfd list"
  pp_channels :: "int \<Rightarrow> nat option"

definition pp_new :: poll_poller where
  "pp_new = \<lparr>pollfds = [], pp_channels = (\<lambda>_. None)\<rparr>"

definition pp_updateChannel ::
  "nat \<Rightarrow> nat \<Rightarrow> poll_poller \<Rightarrow> 'z heapw_scheme \<Rightarrow> (poll_poller \<times> 'z heapw_scheme) res" where
  "pp_updateChannel l c p w = inLoopThread l w (bindR (ch_get c w) (\<lambda>ch.
     if ch_index ch = -1 then
       assertR (pp_channels p (ch_fd ch) = None)
         (let pfd = \<lparr>pfd_fd = ch_fd ch, pfd_events = ucast (ch_events ch), pfd_revents = 0\<rparr>;
              pfds = pollfds p @ [pfd];
              idx = int32 (int (length pfds)) - 1
          in Inr (p\<lparr>pollfds := pfds, pp_channels := (pp_channels p)(pfd_fd pfd \<mapsto> c)\<rparr>,
                  ch_put c (ch\<lparr>ch_index := idx\<rparr>) w))
     else
       assertR (pp_channels p (ch_fd ch) \<noteq> None) (assertR (pp_channels p (ch_fd ch) = Some c)
         (let idx = ch_index ch
          in assertR (0 \<le> idx \<and> idx < int32 (int (length (pollfds p))))
               (let pfd = pollfds p ! nat idx
                in assertR (pfd_fd pfd = ch_fd ch \<or> pfd_fd pfd = - ch_fd ch - 1)
                     (let pfd' = pfd\<lparr>pfd_events := ucast (ch_events ch), pfd_revents := 0,
                            pfd_fd := (if isNoneEvent ch then - ch_fd ch - 1 else pfd_fd pfd)\<rparr>
                      in Inr (p\<lparr>pollfds := (pollfds p)[nat idx := pfd']\<rparr>, w)))))))"

definition pp_removeChannel ::
  "nat \<Rightarrow> nat \<Rightarrow> poll_poller \<Rightarrow> 'z heapw_scheme \<Rightarrow> (poll_poller \<times> 'z heapw_scheme) res" where
  "pp_removeChannel l c p w = inLoopThread l w (bindR (ch_get c w) (\<lambda>ch.
     assertR (pp_channels p (ch_fd ch) \<noteq> None) (assertR (pp_channels p (ch_fd ch) = Some c)
     (assertR (isNoneEvent ch)
       (let index = ch_index ch
        in assertR (0 \<le> index \<and> index < int32 (int (length (pollfds p))))
             (let pfd = pollfds p ! nat index
              in assertR (pfd_fd pfd = - ch_fd ch - 1 \<and> scast (pfd_events pfd) = ch_events ch)
                   (let p' = p\<lparr>pp_channels := (pp_channels p)(ch_fd ch := None)\<rparr>
                    in if nat index = length (pollfds p') - 1
                       then Inr (p'\<lparr>pollfds := butlast (pollfds p')\<rparr>, w)
                       else
                         let fd = pfd_fd (last (pollfds p'));
                             channelAtEnd = (if fd < 0 then - fd - 1 else fd);
                             swapped = (pollfds p')[nat index := last (pollfds p'),
                                         length (pollfds p') - 1 := pfd]
                         in case pp_channels p' channelAtEnd of
                              None \<Rightarrow> Inl UndefinedBehaviour
                            | Some d \<Rightarrow> bindR (ch_get d w) (\<lambda>dh.
                                Inr (p'\<lparr>pollfds := butlast swapped\<rparr>,
                                     ch_put d (dh\<lparr>ch_index := index\<rparr>) w)))))))))"

text \<open>
  \<open>fillActiveChannels\<close> stops after \<open>numEvents\<close> entries with events. The list
  \<open>activeChannels\<close> is returned with the new state.
\<close>

fun pp_fillActiveChannels ::
  "(int \<Rightarrow> nat option) \<Rightarrow> pollfd list \<Rightarrow> int \<Rightarrow> nat list \<Rightarrow> 'z heapw_scheme \<Rightarrow>
   (nat list \<times> 'z heapw_scheme) res" where
  "pp_fillActiveChannels channels [] numEvents active w = Inr (active, w)"
| "pp_fillActiveChannels channels (it # pfds) numEvents active w =
     (if numEvents > 0 then
        if sint (pfd_revents it) > 0 then
          (case channels (pfd_fd it) of
             None \<Rightarrow> Inl AssertFail
           | Some c \<Rightarrow> bindR (ch_get c w) (\<lambda>ch.
               assertR (ch_fd ch = pfd_fd it)
                 (pp_fillActiveChannels channels pfds (numEvents - 1) (active @ [c])
                    (ch_put c (ch\<lparr>ch_revents := scast (pfd_revents it)\<rparr>) w))))
        else pp_fillActiveChannels channels pfds numEvents active w
      else Inr (active, w))"

text \<open>The kernel stores \<open>revents\<close> to every entry; \<open>&*begin()\<close> of an empty vector is undefined.\<close>

definition store_revents :: "16 word list \<Rightarrow> pollfd list \<Rightarrow> pollfd list" where
  "store_revents rs pfds =
     map (\<lambda>(pfd, r). pfd\<lparr>pfd_revents := r\<rparr>) (zip pfds (rs @ replicate (length pfds) 0))"

definition pp_poll ::
  "int \<Rightarrow> nat list \<Rightarrow> poll_poller \<Rightarrow> 'z heapw_scheme \<Rightarrow>
   (timestamp \<times> nat list \<times> poll_poller \<times> 'z heapw_scheme) res" where
  "pp_poll timeoutMs active p w =
     (if pollfds p = [] then Inl UndefinedBehaviour
      else
        let (r, w1) = sys (SysPoll (map (\<lambda>x. (pfd_fd x, pfd_events x)) (pollfds p)) timeoutMs) w;
            numEvents = kret r;
            p' = p\<lparr>pollfds := store_revents (krevs r) (pollfds p)\<rparr>;
            (now, w2) = ts_now w1
        in if numEvents > 0
           then bindR (pp_fillActiveChannels (pp_channels p') (pollfds p') numEvents active w2)
                  (\<lambda>(active', w3). Inr (now, active', p', w3))
           else Inr (now, active, p', w2))"

section \<open>Consistency\<close>

definition pfd_key :: "pollfd \<Rightarrow> int" where
  "pfd_key pfd = (if pfd_fd pfd < 0 then - pfd_fd pfd - 1 else pfd_fd pfd)"

definition keys :: "poll_poller \<Rightarrow> int list" where
  "keys p = map pfd_key (pollfds p)"

text \<open>Position \<open>i\<close> of the vector belongs to a registered, living channel that knows it.\<close>

definition owned :: "'z heapw_scheme \<Rightarrow> (int \<Rightarrow> nat option) \<Rightarrow> int \<Rightarrow> nat \<Rightarrow> bool" where
  "owned w m k i \<longleftrightarrow> (\<exists>c ch. m k = Some c \<and> chans w c = Some ch \<and> ch_fd ch = k \<and> ch_index ch = int i)"

definition pp_ok :: "nat \<Rightarrow> poll_poller \<Rightarrow> 'z heapw_scheme \<Rightarrow> bool" where
  "pp_ok l p w \<longleftrightarrow> isInLoopThread l w \<and> distinct (keys p) \<and> (\<forall>k \<in> set (keys p). valid_fd k) \<and>
     dom (pp_channels p) = set (keys p) \<and>
     (\<forall>i < length (pollfds p). owned w (pp_channels p) (keys p ! i) i)"

definition pp_parked :: "poll_poller \<Rightarrow> int \<Rightarrow> bool" where
  "pp_parked p fd \<longleftrightarrow> (\<exists>pfd \<in> set (pollfds p). pfd_fd pfd = - fd - 1 \<and> pfd_events pfd = 0)"

lemma length_keys [simp]: "length (keys p) = length (pollfds p)"
  by (simp add: keys_def)

lemma keys_nth: "i < length (pollfds p) \<Longrightarrow> keys p ! i = pfd_key (pollfds p ! i)"
  by (simp add: keys_def)

lemma pp_okD:
  assumes "pp_ok l p w"
  shows "isInLoopThread l w" "distinct (keys p)" "\<And>k. k \<in> set (keys p) \<Longrightarrow> valid_fd k"
    "dom (pp_channels p) = set (keys p)"
    "\<And>i. i < length (pollfds p) \<Longrightarrow> owned w (pp_channels p) (keys p ! i) i"
  using assms by (auto simp: pp_ok_def)

lemma pp_okI:
  assumes "isInLoopThread l w" and "distinct (keys p)" and "\<And>k. k \<in> set (keys p) \<Longrightarrow> valid_fd k"
    and "dom (pp_channels p) = set (keys p)"
    and "\<And>i. i < length (pollfds p) \<Longrightarrow> owned w (pp_channels p) (keys p ! i) i"
  shows "pp_ok l p w"
  using assms by (auto simp: pp_ok_def)

text \<open>Descriptors are distinct and bounded, so the vector is short and positions fit an \<open>int\<close>.\<close>

lemma pp_length: "pp_ok l p w \<Longrightarrow> int (length (pollfds p)) \<le> 2 ^ 30"
proof -
  assume ok: "pp_ok l p w"
  have "set (keys p) \<subseteq> {0..<2 ^ 30}" using pp_okD(3) [OF ok] by (auto simp: valid_fd_def)
  then have "card (set (keys p)) \<le> card {0..<2 ^ 30 :: int}" by (intro card_mono) auto
  then show ?thesis using distinct_card [OF pp_okD(2) [OF ok]] by simp
qed

lemma pp_position:
  assumes "pp_ok l p w" and "pp_channels p fd = Some c"
  obtains i ch where "i < length (pollfds p)" and "keys p ! i = fd" and "chans w c = Some ch"
    and "ch_fd ch = fd" and "ch_index ch = int i"
proof -
  have "fd \<in> set (keys p)" using assms(2) pp_okD(4) [OF assms(1)] by auto
  then obtain i where i: "i < length (pollfds p)" "keys p ! i = fd" by (auto simp: in_set_conv_nth)
  from pp_okD(5) [OF assms(1) i(1)] i assms(2) that [of i] show thesis by (auto simp: owned_def)
qed

lemma valid_key: "valid_fd k \<Longrightarrow> pfd_key pfd = k \<longleftrightarrow> pfd_fd pfd = k \<or> pfd_fd pfd = - k - 1"
  by (auto simp: pfd_key_def valid_fd_def)

section \<open>Every operation succeeds on a consistent state and keeps it consistent\<close>

lemma owned_other:
  "owned w m k i \<Longrightarrow> (\<And>c ch. m k = Some c \<Longrightarrow> chans w c = Some ch \<Longrightarrow> ch_index ch = int i \<Longrightarrow>
     m' k = Some c \<and> chans w' c = Some ch) \<Longrightarrow> owned w' m' k i"
  unfolding owned_def by blast

lemma pp_register:
  assumes ok: "pp_ok l p w" and ch: "chans w c = Some ch" "ch_index ch = -1"
    and fd: "valid_fd (ch_fd ch)" "pp_channels p (ch_fd ch) = None"
  shows "\<exists>p' w' i. pp_updateChannel l c p w = Inr (p', w') \<and> pp_ok l p' w' \<and> 0 \<le> i \<and>
    pp_channels p' = (pp_channels p)(ch_fd ch \<mapsto> c) \<and> chans w' = (chans w)(c \<mapsto> ch\<lparr>ch_index := i\<rparr>)"
proof -
  note D = pp_okD [OF ok]
  define n where "n = length (pollfds p)"
  define pfd where "pfd = \<lparr>pfd_fd = ch_fd ch, pfd_events = ucast (ch_events ch), pfd_revents = 0\<rparr>"
  define p' where "p' = p\<lparr>pollfds := pollfds p @ [pfd], pp_channels := (pp_channels p)(ch_fd ch \<mapsto> c)\<rparr>"
  define w' where "w' = ch_put c (ch\<lparr>ch_index := int n\<rparr>) w"
  have idx: "int32 (int n + 1) - 1 = int n" using pp_length [OF ok] by (simp add: n_def int32_id)
  then have upd: "pp_updateChannel l c p w = Inr (p', w')"
    using D(1) ch fd(2)
    by (simp add: pp_updateChannel_def inLoopThread_def ch_get_def Let_def p'_def w'_def pfd_def n_def add.commute)
  have keys: "keys p' = keys p @ [ch_fd ch]"
    using fd(1) by (simp add: p'_def keys_def pfd_def pfd_key_def valid_fd_def)
  have fresh: "ch_fd ch \<notin> set (keys p)" using fd(2) D(4) by auto
  have "owned w' (pp_channels p') (keys p' ! i) i" if "i < length (pollfds p')" for i
  proof (cases "i = n")
    case True
    then have "keys p' ! i = ch_fd ch" by (simp add: keys nth_append n_def)
    then show ?thesis using True by (simp add: owned_def) (simp add: p'_def w'_def)
  next
    case False
    with that have i: "i < length (pollfds p)" by (simp add: p'_def n_def)
    have "keys p ! i \<noteq> ch_fd ch" using fresh i by (metis length_keys nth_mem)
    moreover have "keys p' ! i = keys p ! i" using i by (simp add: keys nth_append)
    ultimately show ?thesis
      using D(5) [OF i] ch by (auto simp: owned_def) (auto simp: p'_def w'_def)
  qed
  moreover have "pp_channels p' = (pp_channels p)(ch_fd ch \<mapsto> c)" by (simp add: p'_def)
  moreover have "isInLoopThread l w'" using D(1) by (simp add: w'_def)
  ultimately have "pp_ok l p' w'"
    using D(2-4) fd(1) fresh by (intro pp_okI) (auto simp: keys)
  with upd show ?thesis by (auto simp: p'_def w'_def intro!: exI [of _ "int n"])
qed

lemma pp_modify:
  assumes ok: "pp_ok l p w" and ch: "chans w c = Some ch"
    and reg: "pp_channels p (ch_fd ch) = Some c"
  shows "\<exists>p' w'. pp_updateChannel l c p w = Inr (p', w') \<and> pp_ok l p' w' \<and>
    pp_channels p' = pp_channels p \<and> chans w' = chans w \<and>
    (ch_events ch = kNoneEvent \<longrightarrow> pp_parked p' (ch_fd ch))"
proof -
  note D = pp_okD [OF ok]
  obtain i where i: "i < length (pollfds p)" "keys p ! i = ch_fd ch" "ch_index ch = int i"
    using pp_position [OF ok reg] ch by auto
  have valid: "valid_fd (ch_fd ch)" using D(3) i by (metis length_keys nth_mem)
  define pfd where "pfd = (pollfds p ! i)\<lparr>pfd_events := ucast (ch_events ch), pfd_revents := 0,
    pfd_fd := (if isNoneEvent ch then - ch_fd ch - 1 else pfd_fd (pollfds p ! i))\<rparr>"
  define p' where "p' = p\<lparr>pollfds := (pollfds p)[i := pfd]\<rparr>"
  have key: "pfd_key (pollfds p ! i) = ch_fd ch" using i by (simp add: keys_nth)
  then have fd: "pfd_fd (pollfds p ! i) = ch_fd ch \<or> pfd_fd (pollfds p ! i) = - ch_fd ch - 1"
    by (simp add: valid_key [OF valid])
  have "int32 (int (length (pollfds p))) = int (length (pollfds p))"
    using pp_length [OF ok] by (simp add: int32_id)
  then have upd: "pp_updateChannel l c p w = Inr (p', w)"
    using D(1) ch reg i fd
    by (simp add: pp_updateChannel_def inLoopThread_def ch_get_def Let_def p'_def pfd_def)
  have "pfd_key pfd = ch_fd ch" using fd by (simp add: valid_key [OF valid] pfd_def)
  then have keys: "keys p' = keys p"
    using i by (simp add: p'_def keys_def map_update) (metis i(2) keys_def list_update_id)
  have "pp_ok l p' w"
    unfolding pp_ok_def keys using D by (simp add: p'_def)
  moreover have "ch_events ch = kNoneEvent \<longrightarrow> pp_parked p' (ch_fd ch)"
    using i(1) by (auto simp: pp_parked_def p'_def pfd_def isNoneEvent_def kNoneEvent_def
        set_update_memI intro!: bexI [of _ pfd])
  ultimately show ?thesis using upd by (auto simp: p'_def)
qed

text \<open>Removal: of the last entry, and of an earlier one, whose place the last entry takes.\<close>

lemma pp_parked_entry:
  assumes ok: "pp_ok l p w" and i: "i < length (pollfds p)" "keys p ! i = fd"
    and parked: "pp_parked p fd"
  shows "pfd_fd (pollfds p ! i) = - fd - 1 \<and> pfd_events (pollfds p ! i) = 0"
proof -
  have valid: "valid_fd fd" using i pp_okD(3) [OF ok] by (metis length_keys nth_mem)
  from parked obtain j where j: "j < length (pollfds p)" "pfd_fd (pollfds p ! j) = - fd - 1"
    "pfd_events (pollfds p ! j) = 0" by (auto simp: pp_parked_def in_set_conv_nth)
  then have "keys p ! j = fd" using valid by (simp add: keys_nth valid_key)
  then have "i = j" using i j(1) nth_eq_iff_index_eq [OF pp_okD(2) [OF ok], of i j] by simp
  with j show ?thesis by simp
qed

lemma pp_remove_last:
  assumes ok: "pp_ok l p w" and n: "Suc n = length (pollfds p)" "keys p ! n = fd"
  defines "p' \<equiv> p\<lparr>pp_channels := (pp_channels p)(fd := None), pollfds := butlast (pollfds p)\<rparr>"
  shows "pp_ok l p' w"
proof -
  note D = pp_okD [OF ok]
  have keys: "keys p' = butlast (keys p)" by (simp add: p'_def keys_def map_butlast)
  have "length (keys p) - 1 = n" using n by simp
  moreover have ne: "keys p \<noteq> []" using n by (auto simp flip: length_greater_0_conv)
  ultimately have last: "last (keys p) = fd" using n by (simp add: last_conv_nth del: length_keys)
  note rest = drop_last [OF D(2) ne, folded keys, unfolded last]
  have "owned w (pp_channels p') (keys p' ! i) i" if "i < length (pollfds p')" for i
  proof -
    from that n have i: "i < length (pollfds p)" "i \<noteq> n" by (simp_all add: p'_def)
    then have "keys p ! i \<noteq> fd" using n D(2) by (metis length_keys lessI nth_eq_iff_index_eq)
    moreover have "keys p' ! i = keys p ! i"
      using that nth_butlast [of i "keys p"] by (simp add: keys) (simp add: p'_def)
    ultimately show ?thesis using D(5) [OF i(1)] by (auto simp: owned_def p'_def)
  qed
  moreover have "dom (pp_channels p') = set (keys p')" using D(4) rest(1) by (auto simp: p'_def)
  ultimately show ?thesis using D(1,3) rest by (intro pp_okI) auto
qed

lemma pp_remove_inner:
  assumes ok: "pp_ok l p w" and i: "Suc i < length (pollfds p)" "keys p ! i = fd"
    and d: "pp_channels p (last (keys p)) = Some d" "chans w d = Some dh"
  defines "p' \<equiv> p\<lparr>pp_channels := (pp_channels p)(fd := None),
    pollfds := (butlast (pollfds p))[i := last (pollfds p)]\<rparr>"
  shows "pp_ok l p' (ch_put d (dh\<lparr>ch_index := int i\<rparr>) w)"
proof -
  note D = pp_okD [OF ok]
  define n where "n = length (pollfds p) - 1"
  have n: "n < length (pollfds p)" "keys p ! n = last (keys p)" "i < n"
    using i by (auto simp: n_def last_conv_nth simp flip: length_greater_0_conv)
  have keys: "keys p' = (butlast (keys p))[i := last (keys p)]"
    using i by (auto simp: p'_def keys_def map_update map_butlast last_map
        simp flip: length_greater_0_conv)
  have gap: "set (keys p') = set (keys p) - {fd}" "distinct (keys p')"
    using fill_gap [OF D(2), of i] i n(3) by (simp_all add: keys n_def)
  have dh: "ch_fd dh = last (keys p)" "ch_index dh = int n"
    using D(5) [OF n(1)] d n(2) by (auto simp: owned_def)
  have kne: "keys p ! j \<noteq> fd" if "j < length (pollfds p)" "j \<noteq> i" for j
    using that i D(2) by (metis Suc_lessD length_keys nth_eq_iff_index_eq)
  have "owned (ch_put d (dh\<lparr>ch_index := int i\<rparr>) w) (pp_channels p') (keys p' ! j) j"
    if "j < length (pollfds p')" for j
  proof -
    from that have j: "j < n" by (simp add: p'_def n_def)
    show ?thesis
    proof (cases "j = i")
      case True
      have "keys p' ! j = last (keys p)" using True j by (simp add: keys n_def)
      moreover have "last (keys p) \<noteq> fd" using kne [OF n(1)] n by simp
      ultimately show ?thesis using True d dh by (simp add: owned_def) (simp add: p'_def)
    next
      case False
      then have kj: "keys p' ! j = keys p ! j" using j by (simp add: keys n_def nth_butlast)
      from D(5) [of j] j n obtain e eh where e: "pp_channels p (keys p ! j) = Some e"
        "chans w e = Some eh" "ch_fd eh = keys p ! j" "ch_index eh = int j"
        by (auto simp: owned_def)
      have "e \<noteq> d" using e dh d j by auto
      moreover have "keys p ! j \<noteq> fd" using kne [of j] False j n by simp
      ultimately have "pp_channels p' (keys p ! j) = Some e" using e by (simp add: p'_def)
      with e \<open>e \<noteq> d\<close> show ?thesis by (simp add: owned_def kj)
    qed
  qed
  moreover have "dom (pp_channels p') = set (keys p')" using D(4) gap(1) by (auto simp: p'_def)
  ultimately show ?thesis using D(1,3) gap by (intro pp_okI) auto
qed

lemma butlast_swap:
  "i < n \<Longrightarrow> Suc n = length xs \<Longrightarrow> butlast (xs[i := a, n := b]) = (butlast xs)[i := a]"
  by (induction xs rule: rev_induct) (auto simp: list_update_append nth_append)

lemma pp_unregister:
  assumes ok: "pp_ok l p w" and ch: "chans w c = Some ch" and reg: "pp_channels p (ch_fd ch) = Some c"
    and none: "ch_events ch = kNoneEvent" and parked: "pp_parked p (ch_fd ch)"
  shows "\<exists>p' w'. pp_removeChannel l c p w = Inr (p', w') \<and> pp_ok l p' w' \<and>
    pp_channels p' = (pp_channels p)(ch_fd ch := None) \<and> chans w' c = Some ch \<and>
    (\<forall>d. rel_option same_but_index (chans w d) (chans w' d))"
proof -
  note D = pp_okD [OF ok]
  obtain i where i: "i < length (pollfds p)" "keys p ! i = ch_fd ch" "ch_index ch = int i"
    using pp_position [OF ok reg] ch by auto
  have entry: "pfd_fd (pollfds p ! i) = - ch_fd ch - 1" "pfd_events (pollfds p ! i) = 0"
    using pp_parked_entry [OF ok i(1,2) parked] by simp_all
  have len: "int32 (int (length (pollfds p))) = int (length (pollfds p))"
    using pp_length [OF ok] by (simp add: int32_id)
  have guards: "isInLoopThread l w" "isNoneEvent ch" using D(1) none by (simp_all add: isNoneEvent_def)
  show ?thesis
  proof (cases "i = length (pollfds p) - 1")
    case True
    let ?p = "p\<lparr>pp_channels := (pp_channels p)(ch_fd ch := None), pollfds := butlast (pollfds p)\<rparr>"
    have "nat (ch_index ch) = i" "0 \<le> ch_index ch" "ch_index ch < int (length (pollfds p))"
      using i by simp_all
    then have "pp_removeChannel l c p w = Inr (?p, w)"
      using guards ch reg i(1,2) entry len none True
      by (simp add: pp_removeChannel_def inLoopThread_def ch_get_def Let_def kNoneEvent_def)
    moreover have "pp_ok l ?p w" using pp_remove_last [OF ok _ i(2)] i(1) True by simp
    ultimately show ?thesis using ch by auto
  next
    case False
    then have inner: "Suc i < length (pollfds p)" using i(1) by simp
    then have ne: "pollfds p \<noteq> []" by auto
    have lastkey: "last (keys p) = pfd_key (last (pollfds p))" using ne by (simp add: keys_def last_map)
    define n where "n = length (pollfds p) - 1"
    have n: "n < length (pollfds p)" "i < n" "keys p ! n = last (keys p)"
      using inner ne by (auto simp: n_def last_conv_nth keys_def)
    from D(5) [OF n(1)] obtain d dh where d: "pp_channels p (last (keys p)) = Some d"
      "chans w d = Some dh" "ch_fd dh = last (keys p)" by (auto simp: owned_def n)
    have other: "last (keys p) \<noteq> ch_fd ch"
      using nth_eq_iff_index_eq [OF D(2), of i n] i n by simp
    then have cd: "c \<noteq> d" using ch d by auto
    let ?p = "p\<lparr>pp_channels := (pp_channels p)(ch_fd ch := None),
      pollfds := (butlast (pollfds p))[i := last (pollfds p)]\<rparr>"
    let ?w = "ch_put d (dh\<lparr>ch_index := int i\<rparr>) w"
    have "pp_removeChannel l c p w = Inr (?p, ?w)"
      using guards ch reg i entry len none False d other n butlast_swap [of i n "pollfds p"]
      by (simp add: pp_removeChannel_def inLoopThread_def ch_get_def Let_def kNoneEvent_def
          lastkey pfd_key_def n_def split: if_splits)
    moreover have "pp_ok l ?p ?w" using pp_remove_inner [OF ok inner i(2) d(1,2)] .
    moreover have "rel_option same_but_index (chans w e) (chans ?w e)" for e
      using d by (auto simp: same_but_index_def)
    ultimately show ?thesis using ch cd by auto
  qed
qed

lemma pp_registered:
  assumes "pp_ok l p w" and "pp_channels p fd = Some c"
  shows "\<exists>ch. chans w c = Some ch \<and> ch_fd ch = fd \<and> 0 \<le> ch_index ch"
  using pp_position [OF assms] by (metis of_nat_0_le_iff)

lemma pp_events:
  assumes "pp_ok l p w" and "chans w c = Some ch"
  shows "pp_ok l p (ch_put c (ch\<lparr>ch_events := e\<rparr>) w)"
proof (rule pp_okI)
  show "owned (ch_put c (ch\<lparr>ch_events := e\<rparr>) w) (pp_channels p) (keys p ! i) i"
    if "i < length (pollfds p)" for i
    using pp_okD(5) [OF assms(1) that] assms(2) by (auto simp: owned_def)
qed (use pp_okD [OF assms(1)] in auto)

lemma pp_quiet: "pp_ok l p w \<Longrightarrow> pp_ok l p (snd (sys call w))"
  by (simp add: pp_ok_def owned_def)

interpretation pp: poller "pp_updateChannel l" "pp_removeChannel l" "pp_ok l" pp_channels pp_parked
  for l
  by unfold_locales
    (fact pp_register pp_modify pp_unregister pp_registered pp_events | simp add: pp_quiet)+

section \<open>Waiting\<close>

text \<open>
  What \<^verbatim>\<open>poll(2)\<close> promises: it returns the number of entries with a non-zero \<open>revents\<close>,
  which is never set for an entry with a negative descriptor. The ready channels are those of
  the entries with events, in the order of the vector.
\<close>

definition ready_entries :: "poll_poller \<Rightarrow> pollfd list \<Rightarrow> (32 word \<times> nat) list" where
  "ready_entries p pfds = map (\<lambda>x. (scast (pfd_revents x), the (pp_channels p (pfd_fd x))))
     (filter (\<lambda>x. sint (pfd_revents x) > 0) pfds)"

definition pp_answered :: "int \<Rightarrow> poll_poller \<Rightarrow> 'z heapw_scheme \<Rightarrow> (32 word \<times> nat) list \<Rightarrow> bool" where
  "pp_answered t p w evs \<longleftrightarrow>
     (let r = kernel w (sysLog w) (SysPoll (map (\<lambda>x. (pfd_fd x, pfd_events x)) (pollfds p)) t);
          pfds = store_revents (krevs r) (pollfds p)
      in pollfds p \<noteq> [] \<and> length evs = nat (kret r) \<and> evs = ready_entries p pfds \<and>
         list_all (\<lambda>x. sint (pfd_revents x) > 0 \<longrightarrow> pfd_fd x \<ge> 0) pfds)"

lemma store_revents_map:
  assumes "\<And>x r. f (x\<lparr>pfd_revents := r\<rparr>) = f x"
  shows "map f (store_revents rs pfds) = map f pfds"
proof -
  have "map f (store_revents rs pfds) = map f (map fst (zip pfds (rs @ replicate (length pfds) 0)))"
    using assms by (auto simp: store_revents_def)
  also have "map fst (zip pfds (rs @ replicate (length pfds) 0)) = pfds"
    by (rule map_fst_zip_take [THEN trans]) simp
  finally show ?thesis .
qed

lemma ready_Nil_stop:
  "pp_fillActiveChannels m pfds 0 active w = Inr (active, w)"
  by (cases pfds) simp_all

text \<open>Every entry that has events belongs to a living channel.\<close>

definition entries_owned :: "poll_poller \<Rightarrow> pollfd list \<Rightarrow> 'z heapw_scheme \<Rightarrow> bool" where
  "entries_owned p pfds w \<longleftrightarrow> list_all (\<lambda>x. sint (pfd_revents x) > 0 \<longrightarrow>
     (\<exists>c ch. pp_channels p (pfd_fd x) = Some c \<and> chans w c = Some ch \<and> ch_fd ch = pfd_fd x)) pfds"

lemma entries_owned_mark: "entries_owned p pfds w \<Longrightarrow> entries_owned p pfds (mark1 ev w)"
  by (fastforce simp: entries_owned_def list_all_iff mark1_def split: option.splits)

lemma pp_fill:
  assumes "entries_owned p pfds w" and "n = int (length (ready_entries p pfds))"
  shows "pp_fillActiveChannels (pp_channels p) pfds n active w =
    Inr (active @ map snd (ready_entries p pfds), mark (ready_entries p pfds) w)"
  using assms
proof (induction pfds arbitrary: n active w)
  case (Cons x pfds)
  have tail: "entries_owned p pfds w" using Cons.prems(1) by (simp add: entries_owned_def)
  show ?case
  proof (cases "sint (pfd_revents x) > 0")
    case True
    then obtain c ch where c: "pp_channels p (pfd_fd x) = Some c" "chans w c = Some ch"
      "ch_fd ch = pfd_fd x" using Cons.prems(1) by (auto simp: entries_owned_def)
    let ?ev = "(scast (pfd_revents x), c)"
    have ready: "ready_entries p (x # pfds) = ?ev # ready_entries p pfds"
      using True c by (simp add: ready_entries_def)
    show ?thesis
      using Cons.IH [OF entries_owned_mark [OF tail, of ?ev] refl] True c Cons.prems(2)
      by (simp add: ready ch_get_def mark1_alive)
  next
    case False
    then have ready: "ready_entries p (x # pfds) = ready_entries p pfds" by (simp add: ready_entries_def)
    show ?thesis
    proof (cases "n > 0")
      case True
      with False Cons.IH [OF tail] Cons.prems(2) show ?thesis by (simp add: ready)
    next
      case none: False
      with Cons.prems(2) have "ready_entries p pfds = []" by (simp add: ready)
      with none show ?thesis by (simp add: ready)
    qed
  qed
qed (simp add: ready_entries_def)

lemma pp_entries_owned:
  assumes ok: "pp_ok l p w" and neg: "list_all (\<lambda>x. sint (pfd_revents x) > 0 \<longrightarrow> pfd_fd x \<ge> 0) pfds"
    and keys: "map pfd_key pfds = keys p"
  shows "entries_owned p pfds w"
  unfolding entries_owned_def list_all_iff
proof (intro ballI impI)
  fix x assume x: "x \<in> set pfds" "sint (pfd_revents x) > 0"
  with neg have "pfd_key x = pfd_fd x" by (auto simp: list_all_iff pfd_key_def)
  moreover have "pfd_key x \<in> set (keys p)" using x(1) by (simp flip: keys)
  ultimately obtain c where c: "pp_channels p (pfd_fd x) = Some c" using pp_okD(4) [OF ok] by auto
  from pp_position [OF ok c] obtain ch where "chans w c = Some ch" "ch_fd ch = pfd_fd x" by blast
  with c show "\<exists>c ch. pp_channels p (pfd_fd x) = Some c \<and> chans w c = Some ch \<and> ch_fd ch = pfd_fd x"
    by blast
qed

lemma pp_ok_transfer:
  assumes ok: "pp_ok l p w" and "keys q = keys p" "pp_channels q = pp_channels p"
    and "isInLoopThread l v" and "\<And>c. rel_option same_but_revents (chans w c) (chans v c)"
  shows "pp_ok l q v"
proof (rule pp_okI)
  fix i assume "i < length (pollfds q)"
  then have "i < length (pollfds p)" using assms(2) by (metis length_keys)
  then obtain c ch where c: "pp_channels p (keys p ! i) = Some c" "chans w c = Some ch"
    "ch_fd ch = keys p ! i" "ch_index ch = int i"
    using pp_okD(5) [OF ok, of i] by (auto simp: owned_def)
  from assms(5) [of c] c(2) obtain ch' where "chans v c = Some ch'" "same_but_revents ch ch'"
    by (auto simp: option_rel_Some1)
  with c assms(2,3) show "owned v (pp_channels q) (keys q ! i) i"
    by (auto simp: owned_def same_but_revents_def)
qed (use pp_okD [OF ok] assms(2-4) in auto)

lemma pp_poll_ok:
  assumes ok: "pp_ok l p w" and ans: "pp_answered t p w evs"
  shows "\<exists>now p' w'. pp_poll t active p w = Inr (now, active @ map snd evs, p', w') \<and> pp_ok l p' w' \<and>
    pp_channels p' = pp_channels p \<and> chans w' = chans (mark evs w)"
proof -
  define call where "call = SysPoll (map (\<lambda>x. (pfd_fd x, pfd_events x)) (pollfds p)) t"
  define r where "r = kernel w (sysLog w) call"
  define w2 where "w2 = snd (ts_now (snd (sys call w)))"
  define now where "now = fst (ts_now (snd (sys call w)))"
  define p' where "p' = p\<lparr>pollfds := store_revents (krevs r) (pollfds p)\<rparr>"
  have stored: "pollfds p' = store_revents (krevs r) (pollfds p)" by (simp add: p'_def)
  have same: "pollfds p \<noteq> []" "length evs = nat (kret r)" "evs = ready_entries p (pollfds p')"
    "list_all (\<lambda>x. sint (pfd_revents x) > 0 \<longrightarrow> pfd_fd x \<ge> 0) (pollfds p')"
    using ans unfolding pp_answered_def Let_def stored r_def call_def by blast+
  have keys: "map pfd_key (pollfds p') = keys p"
    by (simp add: p'_def keys_def store_revents_map pfd_key_def)
  have chans2: "chans w2 = chans w" by (simp add: w2_def)
  have thread: "isInLoopThread l w2"
    using pp_okD(1) [OF ok] by (simp add: w2_def ts_now_def sys_def isInLoopThread_def)
  have owned: "entries_owned p (pollfds p') w2"
    using pp_entries_owned [OF ok same(4) keys] by (simp add: entries_owned_def chans2)
  have run: "pp_poll t active p w = (if kret r > 0
      then bindR (pp_fillActiveChannels (pp_channels p') (pollfds p') (kret r) active w2)
        (\<lambda>(active', w3). Inr (now, active', p', w3))
      else Inr (now, active, p', w2))"
    using same(1) by (simp add: pp_poll_def Let_def split_beta call_def [symmetric] r_def p'_def w2_def now_def
        cong: if_cong)
  have "pp_poll t active p w = Inr (now, active @ map snd evs, p', mark evs w2)"
  proof (cases "kret r > 0")
    case True
    have "kret r = int (length (ready_entries p (pollfds p')))" using True same(2,3) by simp
    from pp_fill [OF owned this] True run same(3) show ?thesis by (simp add: p'_def)
  next
    case False
    then have "evs = []" using same(2) by simp
    with run False show ?thesis by simp
  qed
  moreover have "pp_ok l p' (mark evs w2)"
    by (rule pp_ok_transfer [OF ok])
      (use keys thread mark_chans [of w2 _ evs] in \<open>simp_all add: chans2 keys_def p'_def\<close>)
  moreover have "pp_channels p' = pp_channels p" by (simp add: p'_def)
  ultimately show ?thesis using mark_of_chans [OF chans2] by blast
qed

lemma pp_answered_registered:
  assumes ok: "pp_ok l p w" and ans: "pp_answered t p w evs" and ev: "(e, c) \<in> set evs"
  shows "c \<in> ran (pp_channels p)"
proof -
  obtain pfds rs where p: "pfds = store_revents rs (pollfds p)" "evs = ready_entries p pfds"
    "list_all (\<lambda>x. sint (pfd_revents x) > 0 \<longrightarrow> pfd_fd x \<ge> 0) pfds"
    using ans by (auto simp: pp_answered_def Let_def)
  have "map pfd_key pfds = keys p" by (simp add: p(1) keys_def store_revents_map pfd_key_def)
  from pp_entries_owned [OF ok p(3) this] ev p(2) show ?thesis
    by (fastforce simp: entries_owned_def list_all_iff ready_entries_def ran_def)
qed

interpretation ppw: waiting_poller "pp_updateChannel l" "pp_removeChannel l" "pp_ok l" pp_channels
  pp_parked pp_poll pp_answered for l
  by unfold_locales (rule pp_poll_ok pp_answered_registered; assumption)+

end
