(* ===== verification/Epoll_Poller.thy ===== *)
theory Epoll_Poller
  imports Poller
begin

text \<open>
  \<^verbatim>\<open>net/poller/EpollPoller.cc\<close>: the poller over \<open>epoll(7)\<close>. The kernel keeps the set of
  watched descriptors; the poller keeps its own map and gives the kernel the address of the
  channel, which comes back with each event. \<open>watched\<close> replays the calls to find what the
  kernel watches, \<open>epoll_documented\<close> is what the manual promises about it, and \<open>ep_ok\<close> says that
  the poller's map and the kernel's set agree.
\<close>

section \<open>State and operations\<close>

record epoll_poller =
  epfd :: int
  ep_events :: "(32 word \<times> nat) list"
  ep_channels :: "int \<Rightarrow> nat option"

definition InitMaxEvents :: nat where "InitMaxEvents = 20"

definition ep_new :: "'z heapw_scheme \<Rightarrow> (epoll_poller \<times> 'z heapw_scheme) res" where
  "ep_new w =
     (let (r, w') = sys SysEpollCreate w
      in if kret r < 0 then Inl FatalLog
         else Inr (\<lparr>epfd = kret r, ep_events = replicate InitMaxEvents (0, 0),
                    ep_channels = (\<lambda>_. None)\<rparr>, w'))"

definition ep_delete :: "epoll_poller \<Rightarrow> 'z heapw_scheme \<Rightarrow> 'z heapw_scheme" where
  "ep_delete p w = snd (sys (SysClose (epfd p)) w)"

definition ep_update ::
  "ctl_op \<Rightarrow> nat \<Rightarrow> channel \<Rightarrow> epoll_poller \<Rightarrow> 'z heapw_scheme \<Rightarrow> 'z heapw_scheme res" where
  "ep_update operation c ch p w =
     (let (r, w') = sys (SysEpollCtl (epfd p) operation (ch_fd ch) (ch_events ch) c) w
      in if kret r < 0 then Inl FatalLog else Inr w')"

definition ep_updateChannel ::
  "nat \<Rightarrow> nat \<Rightarrow> epoll_poller \<Rightarrow> 'z heapw_scheme \<Rightarrow> (epoll_poller \<times> 'z heapw_scheme) res" where
  "ep_updateChannel l c p w = inLoopThread l w (bindR (ch_get c w) (\<lambda>ch.
     if ch_index ch < 0 then
       assertR (ep_channels p (ch_fd ch) = None)
         (let ch' = ch\<lparr>ch_index := 1\<rparr>;
              p' = p\<lparr>ep_channels := (ep_channels p)(ch_fd ch \<mapsto> c)\<rparr>
          in bindR (ep_update CtlAdd c ch' p' (ch_put c ch' w)) (\<lambda>w'. Inr (p', w')))
     else
       assertR (ep_channels p (ch_fd ch) \<noteq> None) (assertR (ep_channels p (ch_fd ch) = Some c)
         (assertR (ch_index ch = 1)
           (bindR (ep_update CtlMod c ch p w) (\<lambda>w'. Inr (p, w')))))))"

definition ep_removeChannel ::
  "nat \<Rightarrow> nat \<Rightarrow> epoll_poller \<Rightarrow> 'z heapw_scheme \<Rightarrow> (epoll_poller \<times> 'z heapw_scheme) res" where
  "ep_removeChannel l c p w = inLoopThread l w (bindR (ch_get c w) (\<lambda>ch.
     assertR (ep_channels p (ch_fd ch) \<noteq> None) (assertR (ep_channels p (ch_fd ch) = Some c)
       (assertR (ch_events ch = kNoneEvent)
         (let p' = p\<lparr>ep_channels := (ep_channels p)(ch_fd ch := None)\<rparr>
          in bindR (ep_update CtlDel c ch p' w) (\<lambda>w'. Inr (p', w')))))))"

text \<open>The loop over the first \<open>numEvents\<close> entries, each tested against the map.\<close>

definition ep_activate ::
  "epoll_poller \<Rightarrow> 32 word \<times> nat \<Rightarrow> nat list \<times> 'z heapw_scheme \<Rightarrow> (nat list \<times> 'z heapw_scheme) res" where
  "ep_activate p ev s = (case (ev, s) of ((events, c), (active, w)) \<Rightarrow>
     bindR (ch_get c w) (\<lambda>ch.
       assertR (ep_channels p (ch_fd ch) \<noteq> None) (assertR (ep_channels p (ch_fd ch) = Some c)
         (assertR (ch_index ch = 1)
           (Inr (active @ [c], ch_put c (ch\<lparr>ch_revents := events\<rparr>) w))))))"

definition ep_fillActiveChannels ::
  "epoll_poller \<Rightarrow> int \<Rightarrow> nat list \<Rightarrow> 'z heapw_scheme \<Rightarrow> (nat list \<times> 'z heapw_scheme) res" where
  "ep_fillActiveChannels p numEvents active w =
     assertR (size_t numEvents \<le> int (length (ep_events p)))
       (foldR (ep_activate p) (take (nat numEvents) (ep_events p)) (active, w))"

text \<open>The kernel writes the events it reports over the front of \<open>events_\<close>, at most its size.\<close>

definition store_events :: "'e list \<Rightarrow> 'e list \<Rightarrow> 'e list" where
  "store_events new old = take (length old) new @ drop (length new) old"

definition ep_poll ::
  "int \<Rightarrow> nat list \<Rightarrow> epoll_poller \<Rightarrow> 'z heapw_scheme \<Rightarrow>
   (timestamp \<times> nat list \<times> epoll_poller \<times> 'z heapw_scheme) res" where
  "ep_poll timeOutMs active p w =
     (let (r, w1) = sys (SysEpollWait (epfd p) (int32 (int (length (ep_events p)))) timeOutMs) w;
          numEvents = kret r;
          p' = p\<lparr>ep_events := store_events (kevs r) (ep_events p)\<rparr>;
          (now, w2) = ts_now w1
      in if numEvents > 0
         then bindR (ep_fillActiveChannels p' numEvents active w2) (\<lambda>(active', w3).
                let evs = ep_events p';
                    p'' = (if numEvents = int32 (int (length evs))
                           then p'\<lparr>ep_events := evs @ replicate (length evs) (0, 0)\<rparr> else p')
                in Inr (now, active', p'', w3))
         else Inr (now, active, p', w2))"

section \<open>What the kernel watches\<close>

definition watch_change :: "int \<Rightarrow> syscall \<Rightarrow> int set \<Rightarrow> int set" where
  "watch_change e call S =
     (case call of
        SysEpollCtl e' op fd _ _ \<Rightarrow>
          (if e' = e then (case op of CtlAdd \<Rightarrow> insert fd S | CtlMod \<Rightarrow> S | CtlDel \<Rightarrow> S - {fd}) else S)
      | SysClose fd \<Rightarrow> S - {fd}
      | _ \<Rightarrow> S)"

text \<open>A failed call changes nothing. The calls is replayed from the newest call back.\<close>

fun watched_rev :: "(syscall list \<Rightarrow> syscall \<Rightarrow> kres) \<Rightarrow> int \<Rightarrow> syscall list \<Rightarrow> int set" where
  "watched_rev k e [] = {}"
| "watched_rev k e (call # older) =
     (if kret (k (rev older) call) < 0 then watched_rev k e older
      else watch_change e call (watched_rev k e older))"

definition watched :: "(syscall list \<Rightarrow> syscall \<Rightarrow> kres) \<Rightarrow> int \<Rightarrow> syscall list \<Rightarrow> int set" where
  "watched k e calls = watched_rev k e (rev calls)"

lemma watched_Nil [simp]: "watched k e [] = {}"
  by (simp add: watched_def)

lemma watched_snoc: "watched k e (calls @ [call]) =
    (if kret (k calls call) < 0 then watched k e calls else watch_change e call (watched k e calls))"
  by (simp add: watched_def)

lemma watched_harmless: "harmless call \<Longrightarrow> watched k e (calls @ [call]) = watched k e calls"
  by (cases call) (auto simp: watched_snoc watch_change_def)

text \<open>
  What \<^verbatim>\<open>epoll_ctl(2)\<close> promises: an open descriptor that is not watched can be added, a watched
  one changed and deleted. That a descriptor given to the poller is open is part of the promise.
\<close>

definition epoll_documented :: "(syscall list \<Rightarrow> syscall \<Rightarrow> kres) \<Rightarrow> int \<Rightarrow> bool" where
  "epoll_documented k e \<longleftrightarrow> (\<forall>calls fd ev c.
     (fd \<notin> watched k e calls \<longrightarrow> valid_fd fd \<longrightarrow> kret (k calls (SysEpollCtl e CtlAdd fd ev c)) = 0) \<and>
     (fd \<in> watched k e calls \<longrightarrow> kret (k calls (SysEpollCtl e CtlMod fd ev c)) = 0 \<and>
        kret (k calls (SysEpollCtl e CtlDel fd ev c)) = 0))"

section \<open>The poller keeps the contract\<close>

definition ep_registered :: "epoll_poller \<Rightarrow> 'z heapw_scheme \<Rightarrow> bool" where
  "ep_registered p w \<longleftrightarrow> (\<forall>fd c. ep_channels p fd = Some c \<longrightarrow>
     (\<exists>ch. chans w c = Some ch \<and> ch_fd ch = fd \<and> ch_index ch = 1))"

definition ep_ok :: "nat \<Rightarrow> epoll_poller \<Rightarrow> 'z heapw_scheme \<Rightarrow> bool" where
  "ep_ok l p w \<longleftrightarrow> isInLoopThread l w \<and> epoll_documented (kernel w) (epfd p) \<and>
     dom (ep_channels p) = watched (kernel w) (epfd p) (sysLog w) \<and> ep_registered p w"

lemma ep_okD:
  assumes "ep_ok l p w"
  shows "isInLoopThread l w" "epoll_documented (kernel w) (epfd p)"
    "dom (ep_channels p) = watched (kernel w) (epfd p) (sysLog w)"
    "\<And>fd c. ep_channels p fd = Some c \<Longrightarrow>
      \<exists>ch. chans w c = Some ch \<and> ch_fd ch = fd \<and> ch_index ch = 1"
  using assms by (auto simp: ep_ok_def ep_registered_def)

lemma ep_update_Inr:
  "kret (kernel w (sysLog w) (SysEpollCtl (epfd p) op (ch_fd ch) (ch_events ch) c)) = 0 \<Longrightarrow>
   ep_update op c ch p w = Inr (snd (sys (SysEpollCtl (epfd p) op (ch_fd ch) (ch_events ch) c) w))"
  by (simp add: ep_update_def sys_def)

lemma ep_register:
  assumes ok: "ep_ok l p w" and ch: "chans w c = Some ch" "ch_index ch = -1"
    and fd: "valid_fd (ch_fd ch)" "ep_channels p (ch_fd ch) = None"
  shows "\<exists>p' w' i. ep_updateChannel l c p w = Inr (p', w') \<and> ep_ok l p' w' \<and> 0 \<le> i \<and>
    ep_channels p' = (ep_channels p)(ch_fd ch \<mapsto> c) \<and> chans w' = (chans w)(c \<mapsto> ch\<lparr>ch_index := i\<rparr>)"
proof -
  note D = ep_okD [OF ok]
  let ?ch = "ch\<lparr>ch_index := 1\<rparr>"
  let ?p = "p\<lparr>ep_channels := (ep_channels p)(ch_fd ch \<mapsto> c)\<rparr>"
  let ?call = "SysEpollCtl (epfd p) CtlAdd (ch_fd ch) (ch_events ch) c"
  let ?w = "snd (sys ?call (ch_put c ?ch w))"
  have fresh: "ch_fd ch \<notin> watched (kernel w) (epfd p) (sysLog w)" using D(3) fd(2) by auto
  then have acc: "kret (kernel w (sysLog w) ?call) = 0"
    using D(2) fd(1) by (auto simp: epoll_documented_def)
  then have "ep_updateChannel l c p w = Inr (?p, ?w)"
    using D(1) ch fd ep_update_Inr [of "ch_put c ?ch w" ?p CtlAdd ?ch c]
    by (simp add: ep_updateChannel_def inLoopThread_def ch_get_def Let_def)
  moreover have "ep_registered ?p ?w" using D(4) ch fd(2) by (fastforce simp: ep_registered_def)
  moreover have "dom (ep_channels ?p) = watched (kernel ?w) (epfd p) (sysLog ?w)"
    using D(3) acc by (simp add: watched_snoc watch_change_def)
  ultimately show ?thesis
    using D(1,2) by (intro exI [of _ ?p] exI [of _ ?w] exI [of _ 1]) (simp add: ep_ok_def)
qed

lemma ep_modify:
  assumes ok: "ep_ok l p w" and ch: "chans w c = Some ch" and reg: "ep_channels p (ch_fd ch) = Some c"
  shows "\<exists>p' w'. ep_updateChannel l c p w = Inr (p', w') \<and> ep_ok l p' w' \<and>
    ep_channels p' = ep_channels p \<and> chans w' = chans w"
proof -
  note D = ep_okD [OF ok]
  let ?call = "SysEpollCtl (epfd p) CtlMod (ch_fd ch) (ch_events ch) c"
  let ?w = "snd (sys ?call w)"
  have "ch_fd ch \<in> watched (kernel w) (epfd p) (sysLog w)" using D(3) reg by auto
  then have acc: "kret (kernel w (sysLog w) ?call) = 0" using D(2) by (auto simp: epoll_documented_def)
  have "ch_index ch = 1" using D(4) [OF reg] ch by auto
  with acc have "ep_updateChannel l c p w = Inr (p, ?w)"
    using D(1) ch reg by (simp add: ep_updateChannel_def inLoopThread_def ch_get_def ep_update_Inr)
  moreover have "ep_ok l p ?w"
    using ok acc by (simp add: ep_ok_def ep_registered_def watched_snoc watch_change_def)
  ultimately show ?thesis by auto
qed

lemma ep_unregister:
  assumes ok: "ep_ok l p w" and ch: "chans w c = Some ch" and reg: "ep_channels p (ch_fd ch) = Some c"
    and none: "ch_events ch = kNoneEvent"
  shows "\<exists>p' w'. ep_removeChannel l c p w = Inr (p', w') \<and> ep_ok l p' w' \<and>
    ep_channels p' = (ep_channels p)(ch_fd ch := None) \<and> chans w' = chans w"
proof -
  note D = ep_okD [OF ok]
  let ?p = "p\<lparr>ep_channels := (ep_channels p)(ch_fd ch := None)\<rparr>"
  let ?call = "SysEpollCtl (epfd p) CtlDel (ch_fd ch) (ch_events ch) c"
  let ?w = "snd (sys ?call w)"
  have "ch_fd ch \<in> watched (kernel w) (epfd p) (sysLog w)" using D(3) reg by auto
  then have acc: "kret (kernel w (sysLog w) ?call) = 0" using D(2) by (auto simp: epoll_documented_def)
  then have "ep_removeChannel l c p w = Inr (?p, ?w)"
    using D(1) ch reg none ep_update_Inr [of w ?p CtlDel ch c]
    by (simp add: ep_removeChannel_def inLoopThread_def ch_get_def Let_def)
  moreover have "dom (ep_channels ?p) = watched (kernel ?w) (epfd p) (sysLog ?w)"
    using D(3) acc by (simp add: watched_snoc watch_change_def)
  then have "ep_ok l ?p ?w"
    using ok by (auto simp: ep_ok_def ep_registered_def split: if_splits)
  ultimately show ?thesis by auto
qed

lemma ep_registered_law:
  assumes "ep_ok l p w" and "ep_channels p fd = Some c"
  shows "\<exists>ch. chans w c = Some ch \<and> ch_fd ch = fd \<and> 0 \<le> ch_index ch"
  using ep_okD(4) [OF assms] by force

lemma ep_events_law:
  assumes "ep_ok l p w" and "chans w c = Some ch"
  shows "ep_ok l p (ch_put c (ch\<lparr>ch_events := e\<rparr>) w)"
  using assms by (fastforce simp: ep_ok_def ep_registered_def)

lemma ep_quiet: "ep_ok l p w \<Longrightarrow> harmless call \<Longrightarrow> ep_ok l p (snd (sys call w))"
  by (simp add: ep_ok_def ep_registered_def watched_harmless)

interpretation ep: poller "ep_updateChannel l" "ep_removeChannel l" "ep_ok l" ep_channels "\<lambda>_ _. True"
  for l
proof unfold_locales
  fix p c ch and w :: "'a heapw_scheme"
  assume "ep_ok l p w" "chans w c = Some ch" "ep_channels p (ch_fd ch) = Some c"
    "ch_events ch = kNoneEvent"
  from ep_unregister [OF this] \<open>chans w c = Some ch\<close>
  show "\<exists>p' w'. ep_removeChannel l c p w = Inr (p', w') \<and> ep_ok l p' w' \<and>
      ep_channels p' = (ep_channels p)(ch_fd ch := None) \<and> chans w' c = Some ch \<and>
      (\<forall>d. rel_option same_but_index (chans w d) (chans w' d))"
    by auto
qed (rule ep_register, assumption+, simp_all add: ep_modify ep_registered_law ep_events_law ep_quiet)

section \<open>Waiting\<close>

text \<open>
  What \<^verbatim>\<open>epoll_wait(2)\<close> promises: at most as many events as there is room for, each with the
  data given for a watched descriptor; none when it times out or fails.
\<close>

definition ep_answered :: "int \<Rightarrow> epoll_poller \<Rightarrow> 'z heapw_scheme \<Rightarrow> (32 word \<times> nat) list \<Rightarrow> bool" where
  "ep_answered t p w evs \<longleftrightarrow>
     (let r = kernel w (sysLog w) (SysEpollWait (epfd p) (int32 (int (length (ep_events p)))) t)
      in length evs = nat (kret r) \<and> length evs < 2 ^ 31 \<and> length evs \<le> length (ep_events p) \<and> evs = kevs r \<and>
         snd ` set evs \<subseteq> ran (ep_channels p))"

lemma ep_fill:
  assumes "ep_registered p w" and "snd ` set evs \<subseteq> ran (ep_channels p)"
  shows "foldR (ep_activate p) evs (active, w) = Inr (active @ map snd evs, mark evs w) \<and>
    ep_registered p (mark evs w)"
  using assms
proof (induction evs arbitrary: active w)
  case (Cons ev evs)
  obtain fd where fd: "ep_channels p fd = Some (snd ev)" using Cons.prems(2) by (auto simp: ran_def)
  with Cons.prems(1) obtain ch where ch: "chans w (snd ev) = Some ch" "ch_fd ch = fd" "ch_index ch = 1"
    by (auto simp: ep_registered_def)
  then have "ep_activate p ev (active, w) = Inr (active @ [snd ev], mark1 ev w)"
    using fd by (cases ev) (simp add: ep_activate_def ch_get_def mark1_alive)
  moreover have "ep_registered p (mark1 ev w)"
    using Cons.prems(1) ch by (fastforce simp: ep_registered_def mark1_alive)
  ultimately show ?case using Cons.IH [of "mark1 ev w" "active @ [snd ev]"] Cons.prems(2) by simp
qed simp

lemma ep_quiets: "ep_ok l p w \<Longrightarrow> ep_ok l p (snd (ts_now w))"
  using ep_quiet [of l p w SysGettimeofday] by (simp add: ts_now_def sys_def)

lemma ep_ok_events:
  "ep_channels q = ep_channels p \<Longrightarrow> epfd q = epfd p \<Longrightarrow> ep_ok l p w \<Longrightarrow> ep_ok l q w"
  by (simp add: ep_ok_def ep_registered_def)

lemma ep_poll_ok:
  assumes ok: "ep_ok l p w" and ans: "ep_answered t p w evs"
  shows "\<exists>now p' w'. ep_poll t active p w = Inr (now, active @ map snd evs, p', w') \<and> ep_ok l p' w' \<and>
    ep_channels p' = ep_channels p \<and> chans w' = chans (mark evs w)"
proof -
  define call where "call = SysEpollWait (epfd p) (int32 (int (length (ep_events p)))) t"
  define r where "r = kernel w (sysLog w) call"
  define w2 where "w2 = snd (ts_now (snd (sys call w)))"
  define now where "now = fst (ts_now (snd (sys call w)))"
  define p' where "p' = p\<lparr>ep_events := store_events (kevs r) (ep_events p)\<rparr>"
  have same: "length evs = nat (kret r)" "length evs \<le> length (ep_events p)" "evs = kevs r"
    "snd ` set evs \<subseteq> ran (ep_channels p)" "length evs < 2 ^ 31"
    using ans unfolding ep_answered_def Let_def r_def call_def by blast+
  have front: "take (length evs) (ep_events p') = evs" "length (ep_events p') = length (ep_events p)"
    using same by (simp_all add: p'_def store_events_def)
  have "ep_ok l p (snd (sys call w))" by (rule ep_quiet [OF ok]) (simp add: call_def)
  then have "ep_ok l p w2" unfolding w2_def by (rule ep_quiets)
  then have ok2: "ep_ok l p' w2" by (rule ep_ok_events [rotated 2]) (simp_all add: p'_def)
  then have reg: "ep_registered p' w2" by (simp add: ep_ok_def)
  have run: "ep_poll t active p w = (if kret r > 0
      then bindR (ep_fillActiveChannels p' (kret r) active w2) (\<lambda>(active', w3).
        Inr (now, active', if kret r = int32 (int (length (ep_events p')))
          then p'\<lparr>ep_events := ep_events p' @ replicate (length (ep_events p')) (0, 0)\<rparr> else p', w3))
      else Inr (now, active, p', w2))"
    by (simp add: ep_poll_def Let_def split_beta call_def [symmetric] r_def p'_def w2_def now_def
        cong: if_cong)
  have chans2: "chans w2 = chans w" by (simp add: w2_def)
  show ?thesis
  proof (cases "kret r > 0")
    case False
    then have "evs = []" using same by simp
    with run False ok2 chans2 show ?thesis by (auto simp: p'_def)
  next
    case True
    define p'' where "p'' = (if kret r = int32 (int (length (ep_events p')))
          then p'\<lparr>ep_events := ep_events p' @ replicate (length (ep_events p')) (0, 0)\<rparr> else p')"
    from True same(1) have "int (length evs) = kret r" by simp
    then have "size_t (kret r) \<le> int (length (ep_events p'))"
      using same(2,5) front(2) by (simp add: size_t_id)
    moreover have fill: "foldR (ep_activate p') evs (active, w2) =
        Inr (active @ map snd evs, mark evs w2) \<and> ep_registered p' (mark evs w2)"
      using ep_fill [OF reg] same(4) by (simp add: p'_def)
    ultimately have "ep_poll t active p w = Inr (now, active @ map snd evs, p'', mark evs w2)"
      using run True front(1) same(1) by (simp add: ep_fillActiveChannels_def p''_def)
    moreover have "ep_ok l p' (mark evs w2)" using ok2 fill by (simp add: ep_ok_def)
    then have "ep_ok l p'' (mark evs w2)" by (rule ep_ok_events [rotated 2]) (simp_all add: p''_def)
    moreover have "ep_channels p'' = ep_channels p" by (simp add: p''_def p'_def)
    moreover have "chans (mark evs w2) = chans (mark evs w)" by (rule mark_of_chans [OF chans2])
    ultimately show ?thesis by blast
  qed
qed

interpretation epw: waiting_poller "ep_updateChannel l" "ep_removeChannel l" "ep_ok l" ep_channels
  "\<lambda>_ _. True" ep_poll ep_answered for l
proof unfold_locales
  show "c \<in> ran (ep_channels p)" if "ep_answered t p w evs" and "(e, c) \<in> set evs" for t p evs e c
    and w :: "'a heapw_scheme"
    using that by (force simp: ep_answered_def Let_def)
qed (rule ep_poll_ok)

text \<open>A full answer doubles the room for the next one.\<close>

lemma ep_poll_room:
  assumes "ep_poll t active p w = Inr (now, active', p', w')" and "ep_answered t p w evs"
  shows "length (ep_events p') = length (ep_events p) \<or>
    length (ep_events p') = 2 * length (ep_events p)"
  using assms by (auto simp: ep_poll_def ep_answered_def store_events_def Let_def split_beta
      bindR_eq_Inr split: if_splits)

end
