(* ===== verification/Default_Poller.thy ===== *)
theory Default_Poller
  imports Poll_Poller Epoll_Poller
begin

text \<open>
  The virtual dispatch of \<^verbatim>\<open>net/Poller.h\<close> and the choice of \<^verbatim>\<open>net/poller/NewDefaultPoller.cc\<close>:
  an event loop owns one of the two pollers. The contract holds for whichever it is.
\<close>

datatype poller_obj = PollObj poll_poller | EpollObj epoll_poller

text \<open>\<open>getenv(''SUMMER_POLL'')\<close> is the argument: whether the variable is set.\<close>

definition newDefaultPoller :: "bool \<Rightarrow> 'z heapw_scheme \<Rightarrow> (poller_obj \<times> 'z heapw_scheme) res" where
  "newDefaultPoller summer_poll w =
     (if summer_poll then Inr (PollObj pp_new, w)
      else bindR (ep_new w) (\<lambda>(p, w'). Inr (EpollObj p, w')))"

fun po_updateChannel ::
  "nat \<Rightarrow> nat \<Rightarrow> poller_obj \<Rightarrow> 'z heapw_scheme \<Rightarrow> (poller_obj \<times> 'z heapw_scheme) res" where
  "po_updateChannel l c (PollObj p) w =
     bindR (pp_updateChannel l c p w) (\<lambda>(p', w'). Inr (PollObj p', w'))"
| "po_updateChannel l c (EpollObj p) w =
     bindR (ep_updateChannel l c p w) (\<lambda>(p', w'). Inr (EpollObj p', w'))"

fun po_removeChannel ::
  "nat \<Rightarrow> nat \<Rightarrow> poller_obj \<Rightarrow> 'z heapw_scheme \<Rightarrow> (poller_obj \<times> 'z heapw_scheme) res" where
  "po_removeChannel l c (PollObj p) w =
     bindR (pp_removeChannel l c p w) (\<lambda>(p', w'). Inr (PollObj p', w'))"
| "po_removeChannel l c (EpollObj p) w =
     bindR (ep_removeChannel l c p w) (\<lambda>(p', w'). Inr (EpollObj p', w'))"

fun po_poll ::
  "int \<Rightarrow> nat list \<Rightarrow> poller_obj \<Rightarrow> 'z heapw_scheme \<Rightarrow>
   (timestamp \<times> nat list \<times> poller_obj \<times> 'z heapw_scheme) res" where
  "po_poll t active (PollObj p) w =
     bindR (pp_poll t active p w) (\<lambda>(now, active', p', w'). Inr (now, active', PollObj p', w'))"
| "po_poll t active (EpollObj p) w =
     bindR (ep_poll t active p w) (\<lambda>(now, active', p', w'). Inr (now, active', EpollObj p', w'))"

fun po_channels :: "poller_obj \<Rightarrow> int \<Rightarrow> nat option" where
  "po_channels (PollObj p) = pp_channels p"
| "po_channels (EpollObj p) = ep_channels p"

fun po_ok :: "nat \<Rightarrow> poller_obj \<Rightarrow> 'z heapw_scheme \<Rightarrow> bool" where
  "po_ok l (PollObj p) w = pp_ok l p w"
| "po_ok l (EpollObj p) w = ep_ok l p w"

fun po_parked :: "poller_obj \<Rightarrow> int \<Rightarrow> bool" where
  "po_parked (PollObj p) fd = pp_parked p fd"
| "po_parked (EpollObj p) fd = True"

fun po_answered :: "int \<Rightarrow> poller_obj \<Rightarrow> 'z heapw_scheme \<Rightarrow> (32 word \<times> nat) list \<Rightarrow> bool" where
  "po_answered t (PollObj p) w evs = pp_answered t p w evs"
| "po_answered t (EpollObj p) w evs = ep_answered t p w evs"

lemma po_register:
  assumes "po_ok l p w" and "chans w c = Some ch" and "ch_index ch = -1" and "valid_fd (ch_fd ch)"
    and "po_channels p (ch_fd ch) = None"
  shows "\<exists>p' w' i. po_updateChannel l c p w = Inr (p', w') \<and> po_ok l p' w' \<and> 0 \<le> i \<and>
    po_channels p' = (po_channels p)(ch_fd ch \<mapsto> c) \<and> chans w' = (chans w)(c \<mapsto> ch\<lparr>ch_index := i\<rparr>)"
proof (cases p)
  case (PollObj q)
  with pp_register [of l q w c ch] assms obtain q' w' i where u:
    "pp_updateChannel l c q w = Inr (q', w')" "pp_ok l q' w'" "0 \<le> i"
    "pp_channels q' = (pp_channels q)(ch_fd ch \<mapsto> c)" "chans w' = (chans w)(c \<mapsto> ch\<lparr>ch_index := i\<rparr>)"
    by auto
  then show ?thesis using PollObj by (intro exI [of _ "PollObj q'"] exI [of _ w'] exI [of _ i]) simp
next
  case (EpollObj q)
  with ep_register [of l q w c ch] assms obtain q' w' i where u:
    "ep_updateChannel l c q w = Inr (q', w')" "ep_ok l q' w'" "0 \<le> i"
    "ep_channels q' = (ep_channels q)(ch_fd ch \<mapsto> c)" "chans w' = (chans w)(c \<mapsto> ch\<lparr>ch_index := i\<rparr>)"
    by auto
  then show ?thesis using EpollObj by (intro exI [of _ "EpollObj q'"] exI [of _ w'] exI [of _ i]) simp
qed

lemma po_modify:
  assumes "po_ok l p w" and "chans w c = Some ch" and "po_channels p (ch_fd ch) = Some c"
  shows "\<exists>p' w'. po_updateChannel l c p w = Inr (p', w') \<and> po_ok l p' w' \<and>
    po_channels p' = po_channels p \<and> chans w' = chans w \<and>
    (ch_events ch = kNoneEvent \<longrightarrow> po_parked p' (ch_fd ch))"
proof (cases p)
  case (PollObj q)
  with pp_modify [of l q w c ch] assms obtain q' w' where u:
    "pp_updateChannel l c q w = Inr (q', w')" "pp_ok l q' w'" "pp_channels q' = pp_channels q"
    "chans w' = chans w" "ch_events ch = kNoneEvent \<longrightarrow> pp_parked q' (ch_fd ch)" by auto
  then show ?thesis using PollObj by (intro exI [of _ "PollObj q'"] exI [of _ w']) simp
next
  case (EpollObj q)
  with ep_modify [of l q w c ch] assms obtain q' w' where u:
    "ep_updateChannel l c q w = Inr (q', w')" "ep_ok l q' w'" "ep_channels q' = ep_channels q"
    "chans w' = chans w" by auto
  then show ?thesis using EpollObj by (intro exI [of _ "EpollObj q'"] exI [of _ w']) simp
qed

lemma po_unregister:
  assumes "po_ok l p w" and "chans w c = Some ch" and "po_channels p (ch_fd ch) = Some c"
    and "ch_events ch = kNoneEvent" and "po_parked p (ch_fd ch)"
  shows "\<exists>p' w'. po_removeChannel l c p w = Inr (p', w') \<and> po_ok l p' w' \<and>
    po_channels p' = (po_channels p)(ch_fd ch := None) \<and> chans w' c = Some ch \<and>
    (\<forall>d. rel_option same_but_index (chans w d) (chans w' d))"
proof (cases p)
  case (PollObj q)
  with pp_unregister [of l q w c ch] assms obtain q' w' where u:
    "pp_removeChannel l c q w = Inr (q', w')" "pp_ok l q' w'"
    "pp_channels q' = (pp_channels q)(ch_fd ch := None)" "chans w' c = Some ch"
    "\<forall>d. rel_option same_but_index (chans w d) (chans w' d)" by auto
  then show ?thesis using PollObj by (intro exI [of _ "PollObj q'"] exI [of _ w']) simp
next
  case (EpollObj q)
  with ep_unregister [of l q w c ch] assms obtain q' w' where u:
    "ep_removeChannel l c q w = Inr (q', w')" "ep_ok l q' w'"
    "ep_channels q' = (ep_channels q)(ch_fd ch := None)" "chans w' = chans w" by auto
  then show ?thesis using EpollObj assms(2) by (intro exI [of _ "EpollObj q'"] exI [of _ w']) simp
qed

lemma po_registered: "po_ok l p w \<Longrightarrow> po_channels p fd = Some c \<Longrightarrow>
    \<exists>ch. chans w c = Some ch \<and> ch_fd ch = fd \<and> 0 \<le> ch_index ch"
  by (cases p) (simp_all add: pp_registered ep_registered_law)

lemma po_events: "po_ok l p w \<Longrightarrow> chans w c = Some ch \<Longrightarrow>
    po_ok l p (ch_put c (ch\<lparr>ch_events := e\<rparr>) w)"
  by (cases p) (simp_all add: pp_events ep_events_law)

lemma po_quiet: "po_ok l p w \<Longrightarrow> harmless call \<Longrightarrow> po_ok l p (snd (sys call w))"
  by (cases p) (simp_all add: pp_quiet ep_quiet)

lemma po_poll_ok:
  assumes "po_ok l p w" and "po_answered t p w evs"
  shows "\<exists>now p' w'. po_poll t active p w = Inr (now, active @ map snd evs, p', w') \<and> po_ok l p' w' \<and>
    po_channels p' = po_channels p \<and> chans w' = chans (mark evs w)"
proof (cases p)
  case (PollObj q)
  with pp_poll_ok [of l q w t evs active] assms obtain now q' w' where u:
    "pp_poll t active q w = Inr (now, active @ map snd evs, q', w')" "pp_ok l q' w'"
    "pp_channels q' = pp_channels q" "chans w' = chans (mark evs w)" by auto
  then show ?thesis using PollObj by (intro exI [of _ now] exI [of _ "PollObj q'"] exI [of _ w']) simp
next
  case (EpollObj q)
  with ep_poll_ok [of l q w t evs active] assms obtain now q' w' where u:
    "ep_poll t active q w = Inr (now, active @ map snd evs, q', w')" "ep_ok l q' w'"
    "ep_channels q' = ep_channels q" "chans w' = chans (mark evs w)" by auto
  then show ?thesis using EpollObj by (intro exI [of _ now] exI [of _ "EpollObj q'"] exI [of _ w']) simp
qed

lemma po_answered_registered:
  "po_ok l p w \<Longrightarrow> po_answered t p w evs \<Longrightarrow> (e, c) \<in> set evs \<Longrightarrow> c \<in> ran (po_channels p)"
  by (cases p) (auto intro: ppw.answered_law epw.answered_law)

interpretation po: waiting_poller "po_updateChannel l" "po_removeChannel l" "po_ok l" po_channels
  po_parked po_poll po_answered for l
  by unfold_locales
    (rule po_register po_modify po_unregister po_registered po_events po_quiet po_poll_ok
      po_answered_registered; assumption)+

text \<open>A new poller of either kind is consistent and has no channel.\<close>

lemma newDefaultPoller_ok:
  assumes "isInLoopThread l w"
    and "epoll_documented (kernel w) (kret (kernel w (sysLog w) SysEpollCreate))"
    and "0 \<le> kret (kernel w (sysLog w) SysEpollCreate)"
    and "watched (kernel w) (kret (kernel w (sysLog w) SysEpollCreate)) (sysLog w) = {}"
  shows "\<exists>p w'. newDefaultPoller b w = Inr (p, w') \<and> po_ok l p w' \<and> po_channels p = (\<lambda>_. None)"
  using assms
  by (cases b) (auto simp: newDefaultPoller_def pp_new_def ep_new_def pp_ok_def ep_ok_def keys_def
      ep_registered_def watched_harmless sys_def isInLoopThread_def)

end
