(* ===== verification/Event_Loop.thy ===== *)
theory Event_Loop
  imports Default_Poller
begin

text \<open>
  \<^verbatim>\<open>net/EventLoop.h\<close> and \<^verbatim>\<open>net/EventLoop.cc\<close>: one loop per thread, its poller, the functors
  other threads hand to it and the event descriptor that wakes it. A functor is one of the
  \<open>boost::bind\<close> expressions of the sources (\<open>functor_t\<close>); what it does when it runs is the
  argument \<open>exec\<close> of the operations, what a channel callback does the argument \<open>run\<close>. The
  mutex of the loop makes the critical sections atomic, so it does not appear.
\<close>

section \<open>State\<close>

text \<open>Objects are named by their addresses; a timer id carries a timer's address and sequence.\<close>

datatype functor_t =
  FnAddTimer nat nat
| FnCancelTimer nat "nat \<times> int"
| FnListen nat
| FnConnEstablished nat
| FnConnDestroyed nat
| FnRemoveConnection nat nat
| FnSend nat string
| FnShutdown nat
| FnWriteComplete nat
| FnConnectorStart nat
| FnConnectorReset nat
| FnUser nat

record eventloop =
  el_poller :: poller_obj
  el_wakeupFd :: int
  el_wakeupChannel :: nat
  el_looping :: bool
  el_quit :: bool
  el_calling :: bool
  el_pending :: "functor_t list"
  el_active :: "nat list"
  el_timerQueue :: nat

text \<open>\<open>threadLoop\<close> is the thread-local \<open>t_loopInThisThread_\<close> of each thread.\<close>

record reactor = heapw +
  loops :: "nat \<Rightarrow> eventloop option"
  threadLoop :: "int \<Rightarrow> nat option"

definition el_get :: "nat \<Rightarrow> 'z reactor_scheme \<Rightarrow> eventloop res" where
  "el_get l w = (case loops w l of None \<Rightarrow> Inl UndefinedBehaviour | Some e \<Rightarrow> Inr e)"

definition el_mod :: "nat \<Rightarrow> (eventloop \<Rightarrow> eventloop) \<Rightarrow> 'z reactor_scheme \<Rightarrow> 'z reactor_scheme" where
  "el_mod l f w = w\<lparr>loops := (loops w)(l := map_option f (loops w l))\<rparr>"

definition set_poller :: "poller_obj \<Rightarrow> eventloop \<Rightarrow> eventloop" where
  "set_poller p e = e\<lparr>el_poller := p\<rparr>"

section \<open>Channels and the poller\<close>

definition el_updateChannel :: "nat \<Rightarrow> nat \<Rightarrow> 'z reactor_scheme \<Rightarrow> 'z reactor_scheme res" where
  "el_updateChannel l c w =
     bindR (ch_get c w) (\<lambda>ch. bindR (el_get l w) (\<lambda>e.
       assertR (ch_loop ch = l) (inLoopThread l w
         (bindR (po_updateChannel l c (el_poller e) w) (\<lambda>(p', w'). Inr (el_mod l (set_poller p') w'))))))"

definition el_removeChannel :: "nat \<Rightarrow> nat \<Rightarrow> 'z reactor_scheme \<Rightarrow> 'z reactor_scheme res" where
  "el_removeChannel l c w =
     bindR (ch_get c w) (\<lambda>ch. bindR (el_get l w) (\<lambda>e.
       assertR (ch_loop ch = l) (inLoopThread l w
         (bindR (po_removeChannel l c (el_poller e) w) (\<lambda>(p', w'). Inr (el_mod l (set_poller p') w'))))))"

text \<open>\<open>Channel::update()\<close>, and the operations of \<^verbatim>\<open>net/Channel.h\<close> that end with it.\<close>

definition ch_update :: "nat \<Rightarrow> 'z reactor_scheme \<Rightarrow> 'z reactor_scheme res" where
  "ch_update c w = bindR (ch_get c w) (\<lambda>ch. el_updateChannel (ch_loop ch) c w)"

definition enableReading :: "nat \<Rightarrow> 'z reactor_scheme \<Rightarrow> 'z reactor_scheme res" where
  "enableReading c w = bindR (ch_get c w) (\<lambda>ch. ch_update c (ch_put c (ev_enableReading ch) w))"

definition enableWriting :: "nat \<Rightarrow> 'z reactor_scheme \<Rightarrow> 'z reactor_scheme res" where
  "enableWriting c w = bindR (ch_get c w) (\<lambda>ch. ch_update c (ch_put c (ev_enableWriting ch) w))"

definition disableWriting :: "nat \<Rightarrow> 'z reactor_scheme \<Rightarrow> 'z reactor_scheme res" where
  "disableWriting c w = bindR (ch_get c w) (\<lambda>ch. ch_update c (ch_put c (ev_disableWriting ch) w))"

definition disableAll :: "nat \<Rightarrow> 'z reactor_scheme \<Rightarrow> 'z reactor_scheme res" where
  "disableAll c w = bindR (ch_get c w) (\<lambda>ch. ch_update c (ch_put c (ev_disableAll ch) w))"

section \<open>Functors and waking up\<close>

text \<open>The eight bytes of \<open>uint64_t one = 1\<close>.\<close>

definition one_bytes :: string where
  "one_bytes = CHR 0x01 # replicate 7 (CHR 0x00)"

definition wakeup :: "nat \<Rightarrow> 'z reactor_scheme \<Rightarrow> 'z reactor_scheme res" where
  "wakeup l w = bindR (el_get l w) (\<lambda>e. Inr (snd (sys (SysWrite (el_wakeupFd e) one_bytes) w)))"

definition el_handleRead :: "nat \<Rightarrow> 'z reactor_scheme \<Rightarrow> 'z reactor_scheme res" where
  "el_handleRead l w = bindR (el_get l w) (\<lambda>e. Inr (snd (sys (SysRead (el_wakeupFd e) 8) w)))"

definition queueInLoop :: "nat \<Rightarrow> functor_t \<Rightarrow> 'z reactor_scheme \<Rightarrow> 'z reactor_scheme res" where
  "queueInLoop l fn w =
     bindR (el_get l w) (\<lambda>e.
       let w' = el_mod l (\<lambda>e. e\<lparr>el_pending := el_pending e @ [fn]\<rparr>) w
       in if isInLoopThread l w' \<and> el_calling e then wakeup l w' else Inr w')"

text \<open>\<open>body\<close> is the effect of the functor \<open>fn\<close>, which \<open>runInLoop\<close> calls at once in the loop's thread.\<close>

definition runInLoop ::
  "nat \<Rightarrow> functor_t \<Rightarrow> ('z reactor_scheme \<Rightarrow> 'z reactor_scheme res) \<Rightarrow> 'z reactor_scheme \<Rightarrow>
   'z reactor_scheme res" where
  "runInLoop l fn body w =
     bindR (el_get l w) (\<lambda>_.
       if isInLoopThread l w then body w else bindR (queueInLoop l fn w) (wakeup l))"

definition doPendingFunctor ::
  "(functor_t \<Rightarrow> 'z reactor_scheme \<Rightarrow> 'z reactor_scheme res) \<Rightarrow> nat \<Rightarrow> 'z reactor_scheme \<Rightarrow>
   'z reactor_scheme res" where
  "doPendingFunctor exec l w =
     bindR (el_get l w) (\<lambda>e.
       let w1 = el_mod l (\<lambda>e. e\<lparr>el_calling := True\<rparr>) w;
           functors = el_pending e;
           w2 = el_mod l (\<lambda>e. e\<lparr>el_pending := []\<rparr>) w1
       in bindR (foldR exec functors w2) (\<lambda>w3.
            bindR (el_get l w3) (\<lambda>_. Inr (el_mod l (\<lambda>e. e\<lparr>el_calling := False\<rparr>) w3))))"

definition el_quit_now :: "nat \<Rightarrow> 'z reactor_scheme \<Rightarrow> 'z reactor_scheme res" where
  "el_quit_now l w = bindR (el_get l w) (\<lambda>_. Inr (el_mod l (\<lambda>e. e\<lparr>el_quit := True\<rparr>) w))"

section \<open>The loop\<close>

definition handle_active ::
  "(chan_cb \<Rightarrow> timestamp \<Rightarrow> 'z reactor_scheme \<Rightarrow> 'z reactor_scheme res) \<Rightarrow> nat \<Rightarrow>
   'z reactor_scheme \<Rightarrow> 'z reactor_scheme res" where
  "handle_active run c w = (let (now, w') = ts_now w in handleEvent run c now w')"

definition loop_iteration ::
  "(functor_t \<Rightarrow> 'z reactor_scheme \<Rightarrow> 'z reactor_scheme res) \<Rightarrow>
   (chan_cb \<Rightarrow> timestamp \<Rightarrow> 'z reactor_scheme \<Rightarrow> 'z reactor_scheme res) \<Rightarrow> nat \<Rightarrow>
   'z reactor_scheme \<Rightarrow> 'z reactor_scheme res" where
  "loop_iteration exec run l w =
     bindR (el_get l w) (\<lambda>e.
     bindR (po_poll (5 * 1000) [] (el_poller e) w) (\<lambda>(_, active, p', w1).
       let w2 = el_mod l (\<lambda>e. set_poller p' e\<lparr>el_active := active\<rparr>) w1
       in bindR (foldR (handle_active run) active w2) (doPendingFunctor exec l)))"

text \<open>\<open>while(!quit_)\<close> may never end: then the value is \<open>None\<close>.\<close>

partial_function (option) loop_while ::
  "(functor_t \<Rightarrow> 'z reactor_scheme \<Rightarrow> 'z reactor_scheme res) \<Rightarrow>
   (chan_cb \<Rightarrow> timestamp \<Rightarrow> 'z reactor_scheme \<Rightarrow> 'z reactor_scheme res) \<Rightarrow> nat \<Rightarrow>
   'z reactor_scheme \<Rightarrow> 'z reactor_scheme res option" where
  "loop_while exec run l w =
     (case el_get l w of
        Inl f \<Rightarrow> Some (Inl f)
      | Inr e \<Rightarrow>
          if el_quit e then Some (Inr w)
          else (case loop_iteration exec run l w of
                  Inl f \<Rightarrow> Some (Inl f)
                | Inr w' \<Rightarrow> loop_while exec run l w'))"

definition el_loop ::
  "(functor_t \<Rightarrow> 'z reactor_scheme \<Rightarrow> 'z reactor_scheme res) \<Rightarrow>
   (chan_cb \<Rightarrow> timestamp \<Rightarrow> 'z reactor_scheme \<Rightarrow> 'z reactor_scheme res) \<Rightarrow> nat \<Rightarrow>
   'z reactor_scheme \<Rightarrow> 'z reactor_scheme res option" where
  "el_loop exec run l w =
     (case el_get l w of
        Inl f \<Rightarrow> Some (Inl f)
      | Inr e \<Rightarrow>
          if el_looping e then Some (Inl AssertFail)
          else if \<not> isInLoopThread l w then Some (Inl FatalLog)
          else map_option (\<lambda>r. bindR r (\<lambda>w'. Inr (el_mod l (\<lambda>e. e\<lparr>el_looping := False\<rparr>) w')))
                 (loop_while exec run l (el_mod l (\<lambda>e. e\<lparr>el_looping := True, el_quit := False\<rparr>) w)))"

section \<open>Access lemmas\<close>

lemma el_get_Inr: "el_get l w = Inr e \<longleftrightarrow> loops w l = Some e"
  by (simp add: el_get_def split: option.splits)

lemma el_get_Some [simp]: "loops w l = Some e \<Longrightarrow> el_get l w = Inr e"
  by (simp add: el_get_def)

lemma el_mod_fields [simp]:
  "loops (el_mod l f w) = (loops w)(l := map_option f (loops w l))"
  "kernel (el_mod l f w) = kernel w" "sysLog (el_mod l f w) = sysLog w"
  "chans (el_mod l f w) = chans w" "isInLoopThread k (el_mod l f w) = isInLoopThread k w"
  "threadLoop (el_mod l f w) = threadLoop w" "reactor.more (el_mod l f w) = reactor.more w"
  "curTid (el_mod l f w) = curTid w" "threadOf (el_mod l f w) = threadOf w"
  by (simp_all add: el_mod_def isInLoopThread_def)

lemma sys_reactor [simp]:
  "loops (snd (sys call w)) = loops w" "threadLoop (snd (sys call w)) = threadLoop w"
  "curTid (snd (sys call w)) = curTid w" "threadOf (snd (sys call w)) = threadOf w"
  "reactor.more (snd (sys call w)) = reactor.more w"
  by (simp_all add: sys_def)

lemma put_reactor [simp]:
  "loops (ch_put c ch w) = loops w" "threadLoop (ch_put c ch w) = threadLoop w"
  "curTid (ch_put c ch w) = curTid w" "threadOf (ch_put c ch w) = threadOf w"
  "reactor.more (ch_put c ch w) = reactor.more w"
  by (simp_all add: ch_put_def)

section \<open>What the poller does not touch\<close>

definition heap_frame :: "'z heapw_scheme \<Rightarrow> 'z heapw_scheme \<Rightarrow> bool" where
  "heap_frame w w' \<longleftrightarrow> kernel w' = kernel w \<and> curTid w' = curTid w \<and> threadOf w' = threadOf w \<and>
     heapw.more w' = heapw.more w"

lemma heap_frame_refl [simp]: "heap_frame w w"
  by (simp add: heap_frame_def)

lemma heap_frame_put [simp]: "heap_frame w (ch_put c ch w)"
  by (simp add: heap_frame_def ch_put_def)

lemma heap_frame_sys [simp]: "heap_frame w (snd (sys call w))"
  by (simp add: heap_frame_def sys_def)

lemma heap_frame_trans: "heap_frame u v \<Longrightarrow> heap_frame v w \<Longrightarrow> heap_frame u w"
  by (simp add: heap_frame_def)

lemma pp_frame:
  "pp_updateChannel l c p w = Inr (p', w') \<Longrightarrow> heap_frame w w'"
  "pp_removeChannel l c p w = Inr (p', w') \<Longrightarrow> heap_frame w w'"
  by (auto simp: pp_updateChannel_def pp_removeChannel_def inLoopThread_def bindR_eq_Inr Let_def
      split: if_splits option.splits)

lemma ep_update_frame: "ep_update op c ch p w = Inr w' \<Longrightarrow> heap_frame w w'"
  by (auto simp: ep_update_def sys_def heap_frame_def Let_def split: if_splits)

lemma ep_frame:
  "ep_updateChannel l c p w = Inr (p', w') \<Longrightarrow> heap_frame w w'"
  "ep_removeChannel l c p w = Inr (p', w') \<Longrightarrow> heap_frame w w'"
  by (auto simp: ep_updateChannel_def ep_removeChannel_def inLoopThread_def bindR_eq_Inr Let_def
      split: if_splits dest!: ep_update_frame intro: heap_frame_trans [OF heap_frame_put])

lemma po_frame:
  "po_updateChannel l c p w = Inr (p', w') \<Longrightarrow> heap_frame w w'"
  "po_removeChannel l c p w = Inr (p', w') \<Longrightarrow> heap_frame w w'"
  by (cases p; auto simp: bindR_eq_Inr dest: pp_frame ep_frame)+

lemma heap_frame_reactor:
  assumes "heap_frame w w'"
  shows "loops w' = loops w" "threadLoop w' = threadLoop w" "reactor.more w' = reactor.more w"
    "kernel w' = kernel w" "curTid w' = curTid w" "threadOf w' = threadOf w"
  using assms by (cases w; cases w'; simp add: heap_frame_def)+

section \<open>A loop's channels\<close>

text \<open>
  The loop at \<open>l\<close> is consistent when its poller is. In its own thread the four operations of a
  channel that is registered, or new with a free descriptor, succeed and change nothing but the
  channel's events and the poller.
\<close>

definition loop_ok :: "nat \<Rightarrow> 'z reactor_scheme \<Rightarrow> bool" where
  "loop_ok l w \<longleftrightarrow> (\<exists>e. loops w l = Some e \<and> po_ok l (el_poller e) w)"

definition registered :: "nat \<Rightarrow> 'z reactor_scheme \<Rightarrow> int \<Rightarrow> nat option" where
  "registered l w = (case loops w l of None \<Rightarrow> \<lambda>_. None | Some e \<Rightarrow> po_channels (el_poller e))"

definition usable :: "nat \<Rightarrow> nat \<Rightarrow> 'z reactor_scheme \<Rightarrow> bool" where
  "usable l c w \<longleftrightarrow> (\<exists>e ch. loops w l = Some e \<and> chans w c = Some ch \<and> ch_loop ch = l \<and>
     po.admissible (el_poller e) c ch)"

text \<open>What an operation on the channel \<open>c\<close> leaves: only the poller of the loop \<open>l\<close> may differ.\<close>

definition rest_same :: "nat \<Rightarrow> 'z reactor_scheme \<Rightarrow> 'z reactor_scheme \<Rightarrow> bool" where
  "rest_same l w w' \<longleftrightarrow> threadLoop w' = threadLoop w \<and> reactor.more w' = reactor.more w \<and>
     kernel w' = kernel w \<and> curTid w' = curTid w \<and> threadOf w' = threadOf w \<and>
     (\<exists>p. loops w' = (loops w)(l := map_option (set_poller p) (loops w l)))"

lemma po_ok_more:
  "po_ok l p w \<Longrightarrow> chans v = chans w \<Longrightarrow> kernel v = kernel w \<Longrightarrow> sysLog v = sysLog w \<Longrightarrow>
   isInLoopThread l v = isInLoopThread l w \<Longrightarrow> po_ok l p v"
  by (cases p) (simp_all add: pp_ok_def ep_ok_def owned_def ep_registered_def)

lemma change_events_ok:
  assumes ok: "loop_ok l w" and use: "usable l c w" and ch: "chans w c = Some ch"
  shows "\<exists>w' ch'. ch_update c (ch_put c (ch\<lparr>ch_events := e\<rparr>) w) = Inr w' \<and> loop_ok l w' \<and>
    same_but_index (ch\<lparr>ch_events := e\<rparr>) ch' \<and> chans w' = (chans w)(c \<mapsto> ch') \<and>
    registered l w' = (registered l w)(ch_fd ch \<mapsto> c) \<and> rest_same l w w'"
proof -
  from ok use ch obtain el where el: "loops w l = Some el" "po_ok l (el_poller el) w"
    "ch_loop ch = l" "po.admissible (el_poller el) c ch" by (auto simp: loop_ok_def usable_def)
  let ?v = "ch_put c (ch\<lparr>ch_events := e\<rparr>) w"
  obtain p' w1 ch' where u: "po_updateChannel l c (el_poller el) ?v = Inr (p', w1)" "po_ok l p' w1"
    "same_but_index (ch\<lparr>ch_events := e\<rparr>) ch'" "chans w1 = (chans w)(c \<mapsto> ch')"
    "po_channels p' = (po_channels (el_poller el))(ch_fd ch \<mapsto> c)"
    using po.change_events [OF el(2) ch el(4)] by blast
  have thread: "isInLoopThread l ?v"
    using el(2) by (cases "el_poller el") (simp_all add: pp_ok_def ep_ok_def)
  define w' where "w' = el_mod l (set_poller p') w1"
  have fr: "heap_frame ?v w1" using po_frame(1) [OF u(1)] .
  note same = heap_frame_reactor [OF fr]
  have "ch_update c ?v = Inr w'"
    using el u(1) thread by (simp add: ch_update_def el_updateChannel_def ch_get_def inLoopThread_def w'_def)
  moreover have "loop_ok l w'"
    using u(2) el(1) same(1) by (auto simp: loop_ok_def w'_def set_poller_def intro: po_ok_more)
  moreover have "registered l w' = (registered l w)(ch_fd ch \<mapsto> c)"
    using u(5) el(1) same(1) by (simp add: registered_def w'_def set_poller_def)
  moreover have "rest_same l w w'"
    using same by (auto simp: rest_same_def w'_def)
  ultimately show ?thesis using u(3,4) by (auto simp: w'_def)
qed

lemma channel_ops_ok:
  assumes "loop_ok l w" and "usable l c w" and "chans w c = Some ch"
  shows "\<exists>w'. enableReading c w = Inr w' \<and> loop_ok l w'"
    and "\<exists>w'. enableWriting c w = Inr w' \<and> loop_ok l w'"
    and "\<exists>w'. disableWriting c w = Inr w' \<and> loop_ok l w'"
    and "\<exists>w'. disableAll c w = Inr w' \<and> loop_ok l w'"
  using change_events_ok [OF assms] assms(3)
  by (auto simp: enableReading_def enableWriting_def disableWriting_def disableAll_def ch_get_def
      ev_enableReading_def ev_enableWriting_def ev_disableWriting_def ev_disableAll_def)

text \<open>The end of a channel: \<open>disableAll\<close>, then \<open>removeChannel\<close>.\<close>

lemma removeChannel_ok:
  assumes "loops w l = Some e" and "po_ok l (el_poller e) w" and "chans w c = Some ch" and "ch_loop ch = l"
    and "po_channels (el_poller e) (ch_fd ch) = Some c" and "ch_events ch = kNoneEvent"
    and "po_parked (el_poller e) (ch_fd ch)"
  shows "\<exists>w'. el_removeChannel l c w = Inr w' \<and> loop_ok l w' \<and> chans w' c = Some ch \<and>
    registered l w' = (registered l w)(ch_fd ch := None) \<and> rest_same l w w'"
proof -
  from po.unregister_law [OF assms(2,3,5,6,7)] obtain p' w1 where
    u: "po_removeChannel l c (el_poller e) w = Inr (p', w1)" "po_ok l p' w1" "chans w1 c = Some ch"
    "po_channels p' = (po_channels (el_poller e))(ch_fd ch := None)" by blast
  have thread: "isInLoopThread l w"
    using assms(2) by (cases "el_poller e") (simp_all add: pp_ok_def ep_ok_def)
  define w' where "w' = el_mod l (set_poller p') w1"
  note same = heap_frame_reactor [OF po_frame(2) [OF u(1)]]
  have "el_removeChannel l c w = Inr w'"
    using assms thread u(1) by (simp add: el_removeChannel_def ch_get_def inLoopThread_def w'_def)
  moreover have "loop_ok l w'"
    using u(2) assms(1) same(1) by (auto simp: loop_ok_def w'_def set_poller_def intro: po_ok_more)
  moreover have "registered l w' = (registered l w)(ch_fd ch := None)"
    using u(4) assms(1) same(1) by (simp add: registered_def w'_def set_poller_def)
  moreover have "rest_same l w w'" using same by (auto simp: rest_same_def w'_def)
  ultimately show ?thesis using u(3) by (auto simp: w'_def)
qed

text \<open>
  A channel of the loop is attached when the poller has it registered, parked when the poller
  also knows that it waits for nothing. \<open>disableAll\<close> parks, and what is parked can be removed.
\<close>

definition attached :: "nat \<Rightarrow> nat \<Rightarrow> 'z reactor_scheme \<Rightarrow> bool" where
  "attached l c w \<longleftrightarrow> (\<exists>e ch. loops w l = Some e \<and> po_ok l (el_poller e) w \<and> chans w c = Some ch \<and>
     ch_loop ch = l \<and> po_channels (el_poller e) (ch_fd ch) = Some c)"

definition parked_at :: "nat \<Rightarrow> nat \<Rightarrow> 'z reactor_scheme \<Rightarrow> bool" where
  "parked_at l c w \<longleftrightarrow> attached l c w \<and> (\<exists>e ch. loops w l = Some e \<and> chans w c = Some ch \<and>
     ch_events ch = kNoneEvent \<and> po_parked (el_poller e) (ch_fd ch))"

lemma disableAll_parks:
  assumes "attached l c w" and "chans w c = Some ch"
  shows "\<exists>w'. disableAll c w = Inr w' \<and> parked_at l c w' \<and> rest_same l w w' \<and>
    chans w' = (chans w)(c \<mapsto> ev_disableAll ch) \<and> registered l w' = registered l w"
proof -
  from assms obtain e where e: "loops w l = Some e" "po_ok l (el_poller e) w" "ch_loop ch = l"
    "po_channels (el_poller e) (ch_fd ch) = Some c" by (auto simp: attached_def)
  let ?ch = "ev_disableAll ch"
  let ?v = "ch_put c ?ch w"
  have fields: "ch_fd ?ch = ch_fd ch" "ch_loop ?ch = l" "ch_events ?ch = kNoneEvent"
    using e(3) by (simp_all add: ev_disableAll_def)
  have "po_ok l (el_poller e) ?v"
    using po.events_law [OF e(2) assms(2)] by (simp add: ev_disableAll_def)
  from po_modify [OF this, of c ?ch] fields e(4) obtain p' w1 where
    u: "po_updateChannel l c (el_poller e) ?v = Inr (p', w1)" "po_ok l p' w1"
    "po_channels p' = po_channels (el_poller e)" "chans w1 = (chans w)(c \<mapsto> ?ch)" "po_parked p' (ch_fd ch)"
    by auto
  define w' where "w' = el_mod l (set_poller p') w1"
  note same = heap_frame_reactor [OF po_frame(1) [OF u(1)]]
  have thread: "isInLoopThread l ?v" using e(2) by (cases "el_poller e") (simp_all add: pp_ok_def ep_ok_def)
  have "disableAll c w = Inr w'"
    using e assms(2) fields u(1) thread
    by (simp add: disableAll_def ch_update_def el_updateChannel_def ch_get_def inLoopThread_def w'_def)
  moreover have "po_ok l p' w'" using u(2) by (rule po_ok_more) (simp_all add: w'_def)
  then have "parked_at l c w'"
    using u fields e same(1) by (auto simp: parked_at_def attached_def w'_def set_poller_def)
  moreover have "rest_same l w w'" using same by (auto simp: rest_same_def w'_def)
  ultimately show ?thesis using u(3,4) same(1) e(1) by (auto simp: w'_def registered_def set_poller_def)
qed

lemma parked_removed:
  assumes "parked_at l c w" and "chans w c = Some ch"
  shows "\<exists>w'. el_removeChannel l c w = Inr w' \<and> loop_ok l w' \<and> chans w' c = Some ch \<and>
    registered l w' = (registered l w)(ch_fd ch := None) \<and> rest_same l w w'"
  using assms removeChannel_ok by (fastforce simp: parked_at_def attached_def)

section \<open>The functors of a loop\<close>

definition pending :: "nat \<Rightarrow> 'z reactor_scheme \<Rightarrow> functor_t list" where
  "pending l w = (case loops w l of None \<Rightarrow> [] | Some e \<Rightarrow> el_pending e)"

definition wake_call :: "nat \<Rightarrow> 'z reactor_scheme \<Rightarrow> syscall" where
  "wake_call l w = (case loops w l of None \<Rightarrow> SysEventfd | Some e \<Rightarrow> SysWrite (el_wakeupFd e) one_bytes)"

definition calling :: "nat \<Rightarrow> 'z reactor_scheme \<Rightarrow> bool" where
  "calling l w \<longleftrightarrow> (\<exists>e. loops w l = Some e \<and> el_calling e)"

definition queued :: "nat \<Rightarrow> functor_t list \<Rightarrow> syscall list \<Rightarrow> 'z reactor_scheme \<Rightarrow> 'z reactor_scheme" where
  "queued l fns calls w =
     (el_mod l (\<lambda>e. e\<lparr>el_pending := el_pending e @ fns\<rparr>) w)\<lparr>sysLog := sysLog w @ calls\<rparr>"

lemma queued_fields [simp]:
  "loops (queued l fns calls w) = (loops w)(l := map_option (\<lambda>e. e\<lparr>el_pending := el_pending e @ fns\<rparr>) (loops w l))"
  "sysLog (queued l fns calls w) = sysLog w @ calls" "isInLoopThread k (queued l fns calls w) = isInLoopThread k w"
  by (simp_all add: queued_def el_mod_def isInLoopThread_def)

lemma queued_reads [simp]:
  "wake_call l (queued l fns calls w) = wake_call l w" "calling l (queued l fns calls w) = calling l w"
  "loops w l \<noteq> None \<Longrightarrow> pending l (queued l fns calls w) = pending l w @ fns"
  by (auto simp: wake_call_def calling_def pending_def split: option.splits)

lemma queued_queued: "queued l gs ds (queued l fns calls w) = queued l (fns @ gs) (calls @ ds) w"
  by (cases "loops w l") (simp_all add: queued_def el_mod_def)

lemma queued_Nil: "queued l [] [] w = w"
  by (cases "loops w l") (simp_all add: queued_def el_mod_def option.map_ident fun_upd_idem)

text \<open>The effect of \<open>queueInLoop\<close> and \<open>runInLoop\<close>, wake-up included.\<close>

lemma queueInLoop_eq:
  "loops w l \<noteq> None \<Longrightarrow> queueInLoop l fn w =
     Inr (queued l [fn] (if isInLoopThread l w \<and> calling l w then [wake_call l w] else []) w)"
  by (auto simp: queueInLoop_def Let_def calling_def wake_call_def wakeup_def queued_def sys_def el_mod_def
      isInLoopThread_def)

lemma runInLoop_here: "loops w l \<noteq> None \<Longrightarrow> isInLoopThread l w \<Longrightarrow> runInLoop l fn body w = body w"
  by (auto simp: runInLoop_def)

lemma runInLoop_elsewhere:
  "loops w l \<noteq> None \<Longrightarrow> \<not> isInLoopThread l w \<Longrightarrow>
   runInLoop l fn body w = Inr (queued l [fn] [wake_call l w] w)"
  by (auto simp: runInLoop_def queueInLoop_eq wakeup_def queued_def sys_def el_mod_def wake_call_def)

text \<open>Functors that queue further functors, as the write-complete and connector ones do.\<close>

lemma queue_all:
  assumes "loops w l \<noteq> None" and "isInLoopThread l w" and "calling l w"
  shows "foldR (queueInLoop l) fns w = Inr (queued l fns (replicate (length fns) (wake_call l w)) w)"
  using assms
proof (induction fns arbitrary: w)
  case (Cons fn fns)
  let ?v = "queued l [fn] [wake_call l w] w"
  have "foldR (queueInLoop l) fns ?v = Inr (queued l fns (replicate (length fns) (wake_call l ?v)) ?v)"
    using Cons.prems by (intro Cons.IH) simp_all
  then show ?case using Cons.prems by (simp add: queueInLoop_eq queued_queued)
qed (simp add: queued_Nil)

text \<open>
  One run of \<open>doPendingFunctor\<close>: every functor that was pending runs, once and in order; what
  they queue waits for the next iteration, and each of those has woken the loop up.
\<close>

lemma doPendingFunctor_spawning:
  assumes l: "loops w l = Some e" and here: "isInLoopThread l w"
    and exec: "\<And>fn v. exec fn v = foldR (queueInLoop l) (spawn fn) v"
  shows "doPendingFunctor exec l w = Inr
    ((el_mod l (\<lambda>e. e\<lparr>el_pending := concat (map spawn (el_pending e)), el_calling := False\<rparr>) w)
       \<lparr>sysLog := sysLog w @ replicate (length (concat (map spawn (el_pending e)))) (wake_call l w)\<rparr>)"
proof -
  let ?v = "el_mod l (\<lambda>e. e\<lparr>el_pending := []\<rparr>) (el_mod l (\<lambda>e. e\<lparr>el_calling := True\<rparr>) w)"
  have concat: "foldR exec fns v = foldR (queueInLoop l) (concat (map spawn fns)) v" for fns v
    by (induction fns arbitrary: v) (simp_all add: exec foldR_append cong: bindR_cong)
  have "loops ?v l \<noteq> None" "isInLoopThread l ?v" "calling l ?v" using l here by (simp_all add: calling_def)
  from queue_all [OF this, of "concat (map spawn (el_pending e))"] l show ?thesis
    by (simp add: doPendingFunctor_def concat Let_def)
      (simp add: queued_def el_mod_def wake_call_def)
qed

section \<open>Termination of the loop\<close>

fun iterate_loop ::
  "(functor_t \<Rightarrow> 'z reactor_scheme \<Rightarrow> 'z reactor_scheme res) \<Rightarrow>
   (chan_cb \<Rightarrow> timestamp \<Rightarrow> 'z reactor_scheme \<Rightarrow> 'z reactor_scheme res) \<Rightarrow> nat \<Rightarrow> nat \<Rightarrow>
   'z reactor_scheme \<Rightarrow> 'z reactor_scheme res" where
  "iterate_loop exec run l 0 w = Inr w"
| "iterate_loop exec run l (Suc n) w = bindR (loop_iteration exec run l w) (iterate_loop exec run l n)"

definition quitting :: "nat \<Rightarrow> 'z reactor_scheme \<Rightarrow> bool" where
  "quitting l w \<longleftrightarrow> (\<exists>e. loops w l = Some e \<and> el_quit e)"

lemma loop_while_quits:
  assumes "iterate_loop exec run l n w = Inr w'" and "quitting l w'"
    and "\<And>m v. m < n \<Longrightarrow> iterate_loop exec run l m w = Inr v \<Longrightarrow> loops v l \<noteq> None \<and> \<not> quitting l v"
  shows "loop_while exec run l w = Some (Inr w')"
  using assms
proof (induction n arbitrary: w)
  case 0
  then show ?case by (subst loop_while.simps) (auto simp: quitting_def)
next
  case (Suc n)
  obtain v where v: "loop_iteration exec run l w = Inr v" "iterate_loop exec run l n v = Inr w'"
    using Suc.prems(1) by (auto simp: bindR_eq_Inr)
  have "loop_while exec run l v = Some (Inr w')"
  proof (rule Suc.IH [OF v(2) Suc.prems(2)])
    show "loops u l \<noteq> None \<and> \<not> quitting l u" if "m < n" "iterate_loop exec run l m v = Inr u" for m u
      using Suc.prems(3) [of "Suc m" u] v(1) that by simp
  qed
  moreover have "loops w l \<noteq> None \<and> \<not> quitting l w" using Suc.prems(3) [of 0 w] by simp
  ultimately show ?case using v(1) by (subst loop_while.simps) (auto simp: quitting_def)
qed

section \<open>Properties\<close>

text \<open>
  A loop at address 0, owned by thread 1, over an empty poll set, with one channel that is not
  registered yet; \<open>t\<close> is the thread that executes.
\<close>

definition example_eventloop :: "functor_t list \<Rightarrow> eventloop" where
  "example_eventloop fns = \<lparr>el_poller = PollObj pp_new, el_wakeupFd = 4, el_wakeupChannel = 9,
     el_looping = False, el_quit = False, el_calling = False, el_pending = fns, el_active = [],
     el_timerQueue = 3\<rparr>"

definition example_reactor :: "int \<Rightarrow> functor_t list \<Rightarrow> reactor" where
  "example_reactor t fns = \<lparr>kernel = zero_kernel, sysLog = [], curTid = t, threadOf = (\<lambda>_. 1),
     chans = [1 \<mapsto> new_channel 0 5], loops = [0 \<mapsto> example_eventloop fns], threadLoop = [1 \<mapsto> 0]\<rparr>"

lemma example_reactor_fields [simp]:
  "loops (example_reactor t fns) = [0 \<mapsto> example_eventloop fns]" "sysLog (example_reactor t fns) = []"
  "kernel (example_reactor t fns) = zero_kernel" "isInLoopThread l (example_reactor t fns) = (t = 1)"
  "chans (example_reactor t fns) = [1 \<mapsto> new_channel 0 5]"
  by (auto simp: example_reactor_def isInLoopThread_def)

lemma example_loop_ok: "loop_ok 0 (example_reactor 1 fns)" "usable 0 1 (example_reactor 1 fns)"
  by (simp_all add: loop_ok_def usable_def example_eventloop_def pp_ok_def pp_new_def keys_def
      po.admissible_def new_channel_def valid_fd_def)

text \<open>C1: \<open>enableReading\<close> and \<open>disableAll\<close> in the loop's thread, for a channel that is registered or
  new with a free descriptor: they succeed, the poller stays consistent and has the channel
  registered under its descriptor, the channel waits for the new events, and nothing else of the
  state changes.\<close>

theorem channel_update_ok:
  assumes "loop_ok l w" and "usable l c w" and "chans w c = Some ch"
  shows "\<exists>w1 w2 ch1 ch2. enableReading c w = Inr w1 \<and> loop_ok l w1 \<and> rest_same l w w1 \<and>
      chans w1 = (chans w)(c \<mapsto> ch1) \<and> same_but_index (ev_enableReading ch) ch1 \<and>
      registered l w1 = (registered l w)(ch_fd ch \<mapsto> c) \<and>
    disableAll c w = Inr w2 \<and> loop_ok l w2 \<and> rest_same l w w2 \<and>
      chans w2 = (chans w)(c \<mapsto> ch2) \<and> same_but_index (ev_disableAll ch) ch2 \<and>
      registered l w2 = (registered l w)(ch_fd ch \<mapsto> c)"
  using change_events_ok [OF assms, of "ch_events ch OR kReadEvent"]
    change_events_ok [OF assms, of kNoneEvent] assms(3)
  by (simp add: enableReading_def disableAll_def ch_get_def ev_enableReading_def ev_disableAll_def) blast

theorem channel_update_ok_witness:
  "\<exists>w1. enableReading 1 (example_reactor 1 []) = Inr w1 \<and> registered 0 w1 = [5 \<mapsto> 1]"
  using channel_update_ok [OF example_loop_ok, of "[]" "new_channel 0 5"]
  by (auto simp: new_channel_def registered_def example_eventloop_def pp_new_def)

text \<open>C2: \<open>removeChannel\<close> of a registered channel that waits for nothing, as the poller knows: it
  succeeds, the descriptor is free again, the channel object is untouched and the poller stays
  consistent, whichever of the two pollers it is.\<close>

theorem channel_remove_ok:
  assumes "loops w l = Some e" and "po_ok l (el_poller e) w" and "chans w c = Some ch" and "ch_loop ch = l"
    and "po_channels (el_poller e) (ch_fd ch) = Some c" and "ch_events ch = kNoneEvent"
    and "po_parked (el_poller e) (ch_fd ch)"
  shows "\<exists>w'. el_removeChannel l c w = Inr w' \<and> loop_ok l w' \<and> chans w' c = Some ch \<and>
    registered l w' = (registered l w)(ch_fd ch := None) \<and> rest_same l w w'"
  by (rule removeChannel_ok [OF assms])

definition parked_poller :: poller_obj where
  "parked_poller = PollObj \<lparr>pollfds = [\<lparr>pfd_fd = -6, pfd_events = 0, pfd_revents = 0\<rparr>], pp_channels = [5 \<mapsto> 1]\<rparr>"

theorem channel_remove_ok_witness:
  "\<exists>w'. el_removeChannel 0 1 ((example_reactor 1 [])\<lparr>
       chans := [1 \<mapsto> (new_channel 0 5)\<lparr>ch_index := 0\<rparr>],
       loops := [0 \<mapsto> set_poller parked_poller (example_eventloop [])]\<rparr>) = Inr w' \<and>
     registered 0 w' = (\<lambda>_. None)"
proof -
  let ?ch = "(new_channel 0 5)\<lparr>ch_index := 0\<rparr>"
  let ?w = "(example_reactor 1 [])\<lparr>chans := [1 \<mapsto> ?ch],
    loops := [0 \<mapsto> set_poller parked_poller (example_eventloop [])]\<rparr>"
  have "po_ok 0 parked_poller ?w"
    by (simp add: parked_poller_def pp_ok_def keys_def pfd_key_def valid_fd_def owned_def new_channel_def
        isInLoopThread_def example_reactor_def)
  then show ?thesis
    using channel_remove_ok [of ?w 0 "set_poller parked_poller (example_eventloop [])" 1 ?ch]
    by (auto simp: parked_poller_def set_poller_def new_channel_def kNoneEvent_def registered_def pp_parked_def)
qed

text \<open>C11: one run of \<open>doPendingFunctor\<close>: every pending functor runs once and in order. What the
  functors queue is not run now but kept, in order, for the next iteration, and the loop is woken
  up once for each of them, so that the next iteration starts at once.\<close>

theorem pending_functors_run:
  assumes "loops w l = Some e" and "isInLoopThread l w"
    and "\<And>fn v. exec fn v = foldR (queueInLoop l) (spawn fn) v"
  shows "doPendingFunctor exec l w = Inr
    ((el_mod l (\<lambda>e. e\<lparr>el_pending := concat (map spawn (el_pending e)), el_calling := False\<rparr>) w)
       \<lparr>sysLog := sysLog w @ replicate (length (concat (map spawn (el_pending e)))) (wake_call l w)\<rparr>)"
  using assms by (rule doPendingFunctor_spawning)

theorem pending_functors_run_witness:
  "\<exists>w'. doPendingFunctor (\<lambda>fn. foldR (queueInLoop 0) (if fn = FnUser 1 then [FnUser 7] else []))
       0 (example_reactor 1 [FnUser 1, FnUser 2]) = Inr w' \<and>
     pending 0 w' = [FnUser 7] \<and> sysLog w' = [SysWrite 4 one_bytes]"
  using pending_functors_run [of "example_reactor 1 [FnUser 1, FnUser 2]" 0 "example_eventloop [FnUser 1, FnUser 2]"
      "\<lambda>fn. foldR (queueInLoop 0) (if fn = FnUser 1 then [FnUser 7] else [])"
      "\<lambda>fn. if fn = FnUser 1 then [FnUser 7] else []"]
  by (simp add: pending_def wake_call_def) (simp add: example_eventloop_def)

text \<open>\<open>runInLoop\<close> in the loop's thread is the call itself; in any other thread it puts the
  functor at the end of the pending ones and writes to the event descriptor, so that the loop
  comes out of \<open>poll\<close> and runs it.\<close>

theorem runInLoop_either_way:
  assumes "loops w l \<noteq> None"
  shows "runInLoop l fn body w =
      (if isInLoopThread l w then body w else Inr (queued l [fn] [wake_call l w] w)) \<and>
    pending l (queued l [fn] [wake_call l w] w) = pending l w @ [fn]"
  using runInLoop_here [OF assms] runInLoop_elsewhere [OF assms] assms by simp

theorem runInLoop_either_way_witness:
  "\<exists>w'. runInLoop 0 (FnUser 3) Inr (example_reactor 2 [FnUser 1]) = Inr w' \<and>
     pending 0 w' = [FnUser 1, FnUser 3] \<and> sysLog w' = [SysWrite 4 one_bytes]"
  using runInLoop_either_way [of "example_reactor 2 [FnUser 1]" 0 "FnUser 3" Inr]
  by (auto simp: pending_def wake_call_def example_eventloop_def)

text \<open>\<open>queueInLoop\<close> from another thread puts the functor into the queue but writes nothing to
  the event descriptor: a loop that waits in \<open>poll\<close> is not woken up.\<close>

theorem queueInLoop_elsewhere_silent:
  assumes "loops w l \<noteq> None" and "\<not> isInLoopThread l w"
  shows "\<exists>w'. queueInLoop l fn w = Inr w' \<and> pending l w' = pending l w @ [fn] \<and> sysLog w' = sysLog w"
  using assms by (simp add: queueInLoop_eq)

theorem queueInLoop_elsewhere_silent_witness:
  "\<exists>w'. queueInLoop 0 (FnUser 3) (example_reactor 2 []) = Inr w' \<and> pending 0 w' = [FnUser 3] \<and> sysLog w' = []"
  using queueInLoop_elsewhere_silent [of "example_reactor 2 []" 0 "FnUser 3"]
  by (auto simp: pending_def example_eventloop_def)

text \<open>C16: \<open>loop()\<close> returns when an iteration leaves \<open>quit_\<close> set, with \<open>looping_\<close> reset; it returns
  after the first such iteration and not before.\<close>

theorem loop_returns_on_quit:
  assumes "loops w l = Some e" and "\<not> el_looping e" and "isInLoopThread l w"
    and "iterate_loop exec run l n (el_mod l (\<lambda>e. e\<lparr>el_looping := True, el_quit := False\<rparr>) w) = Inr w'"
    and "quitting l w'"
    and "\<And>m v. m < n \<Longrightarrow> iterate_loop exec run l m
        (el_mod l (\<lambda>e. e\<lparr>el_looping := True, el_quit := False\<rparr>) w) = Inr v \<Longrightarrow> loops v l \<noteq> None \<and> \<not> quitting l v"
  shows "el_loop exec run l w = Some (Inr (el_mod l (\<lambda>e. e\<lparr>el_looping := False\<rparr>) w'))"
  using loop_while_quits [OF assms(4,5,6)] assms(1-3) by (simp add: el_loop_def)

theorem loop_returns_on_quit_witness:
  "\<exists>w'. el_loop (\<lambda>fn. el_quit_now 0) (\<lambda>f t. Inr) 0 ((example_reactor 1 [])\<lparr>
       loops := [0 \<mapsto> set_poller parked_poller (example_eventloop [FnUser 1])]\<rparr>) = Some (Inr w') \<and>
     pending 0 w' = [] \<and> quitting 0 w'"
proof -
  let ?e = "set_poller parked_poller (example_eventloop [FnUser 1])"
  let ?w = "(example_reactor 1 [])\<lparr>loops := [0 \<mapsto> ?e]\<rparr>"
  let ?v = "el_mod 0 (\<lambda>e. e\<lparr>el_looping := True, el_quit := False\<rparr>) ?w"
  have "\<exists>w'. iterate_loop (\<lambda>fn. el_quit_now 0) (\<lambda>f t. Inr) 0 1 ?v = Inr w' \<and> quitting 0 w' \<and> pending 0 w' = []"
    by (simp add: loop_iteration_def set_poller_def parked_poller_def pp_poll_def Let_def split_beta
        store_revents_def zero_kernel_def ret_def doPendingFunctor_def el_quit_now_def quitting_def pending_def
        example_eventloop_def example_reactor_def el_mod_def sys_def ts_now_def)
  then obtain w' where w': "iterate_loop (\<lambda>fn. el_quit_now 0) (\<lambda>f t. Inr) 0 1 ?v = Inr w'"
    "quitting 0 w'" "pending 0 w' = []" by blast
  have "el_loop (\<lambda>fn. el_quit_now 0) (\<lambda>f t. Inr) 0 ?w = Some (Inr (el_mod 0 (\<lambda>e. e\<lparr>el_looping := False\<rparr>) w'))"
    by (rule loop_returns_on_quit [where e = ?e and n = 1, OF _ _ _ w'(1,2)])
      (auto simp: set_poller_def example_eventloop_def quitting_def isInLoopThread_def example_reactor_def)
  with w'(2,3) show ?thesis by (auto simp: quitting_def pending_def)
qed

end
