(* ===== verification/Atomic.thy ===== *)
theory Atomic
  imports Prelude "HOL-Library.Word"
begin

text \<open>
  \<^verbatim>\<open>base/Atomic.h\<close>: the atomic counters. Each operation is one indivisible step, a
  function from the stored word to the value returned and the new word; arithmetic wraps
  at the width of the word. The lemmas give what a caller sees when any number of threads
  interleave their calls: a sequence of calls, in the order the hardware serialised them.
\<close>

section \<open>The operations\<close>

type_synonym 'w atomic = "'w word \<Rightarrow> 'w word \<times> 'w word"

definition atomic_new :: "'w::len word" where
  "atomic_new = 0"

definition atomic_get :: "'w::len atomic" where
  "atomic_get v = (v, if v = 0 then 0 else v)"

definition atomic_getAndAdd :: "'w::len word \<Rightarrow> 'w atomic" where
  "atomic_getAndAdd x v = (v, v + x)"

definition atomic_addAndGet :: "'w::len word \<Rightarrow> 'w atomic" where
  "atomic_addAndGet x v = (let (old, v') = atomic_getAndAdd x v in (old + x, v'))"

definition atomic_getAndIncrement :: "'w::len atomic" where
  "atomic_getAndIncrement v = atomic_getAndAdd 1 v"

definition atomic_incrementAndGet :: "'w::len atomic" where
  "atomic_incrementAndGet v = atomic_addAndGet 1 v"

definition atomic_increment :: "'w::len word \<Rightarrow> 'w word" where
  "atomic_increment v = snd (atomic_incrementAndGet v)"

definition atomic_decrement :: "'w::len word \<Rightarrow> 'w word" where
  "atomic_decrement v = snd (atomic_getAndAdd (- 1) v)"

definition atomic_add :: "'w::len word \<Rightarrow> 'w word \<Rightarrow> 'w word" where
  "atomic_add x v = snd (atomic_getAndAdd x v)"

definition atomic_getAndSet :: "'w::len word \<Rightarrow> 'w atomic" where
  "atomic_getAndSet new v = (v, new)"

section \<open>Any number of callers\<close>

text \<open>
  \<open>tickets n v\<close> are the results of \<open>n\<close> calls of \<open>incrementAndGet\<close>, whichever threads make
  them, and the word they leave.
\<close>

fun tickets :: "nat \<Rightarrow> 'w::len word \<Rightarrow> 'w word list \<times> 'w word" where
  "tickets 0 v = ([], v)"
| "tickets (Suc n) v =
     (let (t, v') = atomic_incrementAndGet v; (ts, v'') = tickets n v' in (t # ts, v''))"

lemma incrementAndGet_eq [simp]: "atomic_incrementAndGet v = (v + 1, v + 1)"
  by (simp add: atomic_incrementAndGet_def atomic_addAndGet_def atomic_getAndAdd_def)

lemma tickets_eq: "tickets n v = (map (\<lambda>k. v + of_nat (Suc k)) [0..<n], v + of_nat n)"
proof (induction n arbitrary: v)
  case (Suc n)
  have "map (\<lambda>k. v + of_nat (Suc k)) [0..<Suc n]
      = (v + 1) # map (\<lambda>k. v + of_nat (Suc (Suc k))) [0..<n]"
    by (simp add: map_upt_Suc del: upt_Suc)
  then show ?case by (simp add: Suc algebra_simps del: upt_Suc)
qed simp

text \<open>
  No two of up to \<open>2 ^ w\<close> consecutive calls return the same value: the sequence numbers of
  timers, and the thread counts, are distinct until the counter has gone all the way round.
\<close>

lemma of_nat_inj_below:
  assumes "i < 2 ^ LENGTH('w)" and "j < 2 ^ LENGTH('w)"
    and eq: "(of_nat i :: 'w::len word) = of_nat j"
  shows "i = j"
proof -
  have "unat (of_nat j :: 'w word) = i" by (rule of_nat_inverse [OF eq assms(1)])
  moreover have "unat (of_nat j :: 'w word) = j" by (rule of_nat_inverse [OF refl assms(2)])
  ultimately show ?thesis by metis
qed

lemma tickets_distinct:
  assumes "n \<le> 2 ^ LENGTH('w)"
  shows "distinct (fst (tickets n (v :: 'w::len word)))"
proof -
  have "inj_on (\<lambda>k. v + of_nat (Suc k)) {0..<n}"
  proof (rule inj_onI)
    fix i j
    assume "i \<in> {0..<n}" "j \<in> {0..<n}" "v + of_nat (Suc i) = v + of_nat (Suc j)"
    then have "(of_nat i :: 'w word) = of_nat j" by simp
    with \<open>i \<in> _\<close> \<open>j \<in> _\<close> assms show "i = j"
      by (intro of_nat_inj_below [where 'w = 'w]) auto
  qed
  then show ?thesis by (simp add: tickets_eq distinct_map)
qed

section \<open>Properties\<close>

text \<open>\<open>incrementAndGet\<close> gives every caller its own value, so timers and connections get
  distinct sequence numbers until the counter has gone round its whole range.\<close>

theorem sequence_numbers_distinct:
  assumes "n \<le> 2 ^ LENGTH('w)"
  shows "distinct (fst (tickets n (v :: 'w::len word))) \<and> snd (tickets n v) = v + of_nat n"
  using tickets_distinct [OF assms, of v] by (simp add: tickets_eq)

theorem sequence_numbers_distinct_witness:
  "distinct (fst (tickets 3 (0xFE :: 8 word))) \<and> snd (tickets 3 (0xFE :: 8 word)) = 1"
  using sequence_numbers_distinct [where n = 3 and v = "0xFE :: 8 word"] by simp

end
