(* ===== verification/Timer_Queue.thy ===== *)
theory Timer_Queue
  imports Event_Loop Atomic "HOL-Library.Product_Lexorder"
begin

text \<open>
  \<^verbatim>\<open>net/Timer.h\<close>, \<^verbatim>\<open>net/Timer.cc\<close>, \<^verbatim>\<open>net/TimerId.h\<close>, \<^verbatim>\<open>net/TimerQueue.h\<close> and
  \<^verbatim>\<open>net/TimerQueue.cc\<close>: timers ordered by expiration, the same timers as a set for
  cancellation, and the timer descriptor that makes the loop run the expired ones. A
  \<open>std::set\<close> is the sorted list of its elements; pairs compare lexicographically. The code
  reads through the end iterators of both sets before it compares them with \<open>end()\<close>; what the
  library keeps there is \<open>tq_end\<close> and \<open>tq_end_active\<close>, about which nothing is assumed.
\<close>

section \<open>State\<close>

record timer =
  tm_callback :: functor_t
  tm_expiration :: timestamp
  tm_repeat :: bool
  tm_interval :: rat
  tm_sequence :: int

record timer_queue =
  tq_loop :: nat
  tq_timerfd :: int
  tq_channel :: nat
  tq_timers :: "(timestamp \<times> nat) list"
  tq_active :: "(nat \<times> int) list"
  tq_doing :: bool
  tq_cancel :: "(nat \<times> int) list"
  tq_end :: "timestamp \<times> nat"
  tq_end_active :: "nat \<times> int"

record timerw = reactor +
  tqs :: "nat \<Rightarrow> timer_queue option"
  timers :: "nat \<Rightarrow> timer option"
  numCreated :: "64 word"

definition tq_get :: "nat \<Rightarrow> 'z timerw_scheme \<Rightarrow> timer_queue res" where
  "tq_get a w = (case tqs w a of None \<Rightarrow> Inl UndefinedBehaviour | Some q \<Rightarrow> Inr q)"

definition tq_put :: "nat \<Rightarrow> timer_queue \<Rightarrow> 'z timerw_scheme \<Rightarrow> 'z timerw_scheme" where
  "tq_put a q w = w\<lparr>tqs := (tqs w)(a \<mapsto> q)\<rparr>"

definition tm_get :: "nat \<Rightarrow> 'z timerw_scheme \<Rightarrow> timer res" where
  "tm_get p w = (case timers w p of None \<Rightarrow> Inl UndefinedBehaviour | Some t \<Rightarrow> Inr t)"

definition tm_put :: "nat \<Rightarrow> timer option \<Rightarrow> 'z timerw_scheme \<Rightarrow> 'z timerw_scheme" where
  "tm_put p t w = w\<lparr>timers := (timers w)(p := t)\<rparr>"

section \<open>Sorted sets\<close>

text \<open>\<open>insert\<close> of a \<open>std::set\<close> says whether the element is new.\<close>

definition set_add :: "'a::linorder \<Rightarrow> 'a list \<Rightarrow> 'a list \<times> bool" where
  "set_add x xs = (if x \<in> set xs then (xs, False) else (insort x xs, True))"

section \<open>A timer\<close>

text \<open>The constructor; \<open>p\<close> is the address the allocator gives it.\<close>

definition new_timer :: "nat \<Rightarrow> functor_t \<Rightarrow> timestamp \<Rightarrow> rat \<Rightarrow> 'z timerw_scheme \<Rightarrow> 'z timerw_scheme" where
  "new_timer p cb expiry interval w =
     (let (n, created) = atomic_incrementAndGet (numCreated w)
      in tm_put p (Some \<lparr>tm_callback = cb, tm_expiration = expiry, tm_repeat = interval > 0,
             tm_interval = interval, tm_sequence = sint n\<rparr>) (w\<lparr>numCreated := created\<rparr>))"

definition restart :: "timestamp \<Rightarrow> nat \<Rightarrow> 'z timerw_scheme \<Rightarrow> 'z timerw_scheme res" where
  "restart now p w = bindR (tm_get p w) (\<lambda>t.
     if tm_repeat t
     then bindR (addTime now (tm_interval t)) (\<lambda>e. Inr (tm_put p (Some (t\<lparr>tm_expiration := e\<rparr>)) w))
     else Inr (tm_put p (Some (t\<lparr>tm_expiration := ts_invalid\<rparr>)) w))"

section \<open>The timer descriptor\<close>

definition howLongToExpiration :: "timestamp \<Rightarrow> timestamp \<Rightarrow> (int \<times> int) res" where
  "howLongToExpiration now expiry =
     (let microSeconds = expiry - now
      in if in_int64 microSeconds
         then Inr (cdiv microSeconds kMicroSecondPerSecond, crem microSeconds kMicroSecondPerSecond * 1000)
         else Inl UndefinedBehaviour)"

definition readTimerfd :: "int \<Rightarrow> 'z timerw_scheme \<Rightarrow> 'z timerw_scheme" where
  "readTimerfd fd w = snd (sys (SysRead fd 8) w)"

definition resetTimerfd :: "int \<Rightarrow> timestamp \<Rightarrow> 'z timerw_scheme \<Rightarrow> 'z timerw_scheme res" where
  "resetTimerfd fd expiry w =
     (let (now, w1) = ts_now w
      in bindR (howLongToExpiration now expiry) (\<lambda>(sec, nsec).
           Inr (snd (sys (SysTimerfdSettime fd sec nsec) w1))))"

section \<open>The queue\<close>

definition tq_loop_thread :: "timer_queue \<Rightarrow> 'z timerw_scheme \<Rightarrow> 'a res \<Rightarrow> 'a res" where
  "tq_loop_thread q w k = bindR (el_get (tq_loop q) w) (\<lambda>_. inLoopThread (tq_loop q) w k)"

definition tq_insert :: "nat \<Rightarrow> nat \<Rightarrow> 'z timerw_scheme \<Rightarrow> (bool \<times> 'z timerw_scheme) res" where
  "tq_insert a p w = bindR (tq_get a w) (\<lambda>q. tq_loop_thread q w
     (assertR (length (tq_timers q) = length (tq_active q))
       (bindR (tm_get p w) (\<lambda>t.
          let expiry = tm_expiration t;
              first = fst (case tq_timers q of [] \<Rightarrow> tq_end q | e # _ \<Rightarrow> e);
              earliestTimerChanged = (tq_timers q = [] \<or> ts_less expiry first);
              (timers', ret) = set_add (expiry, p) (tq_timers q)
          in assertR ret
               (let (active', ret') = set_add (p, tm_sequence t) (tq_active q)
                in assertR ret' (assertR (length active' = length timers')
                     (Inr (earliestTimerChanged, tq_put a (q\<lparr>tq_timers := timers', tq_active := active'\<rparr>) w))))))))"

definition addTimerInLoop :: "nat \<Rightarrow> nat \<Rightarrow> 'z timerw_scheme \<Rightarrow> 'z timerw_scheme res" where
  "addTimerInLoop a p w = bindR (tq_get a w) (\<lambda>q. tq_loop_thread q w
     (bindR (tq_insert a p w) (\<lambda>(earliestTimerChanged, w').
        if earliestTimerChanged
        then bindR (tm_get p w') (\<lambda>t. resetTimerfd (tq_timerfd q) (tm_expiration t) w')
        else Inr w')))"

text \<open>\<open>addTimer\<close> may be called in any thread; it returns the timer's id.\<close>

definition addTimer ::
  "nat \<Rightarrow> nat \<Rightarrow> functor_t \<Rightarrow> timestamp \<Rightarrow> rat \<Rightarrow> 'z timerw_scheme \<Rightarrow>
   ((nat \<times> int) \<times> 'z timerw_scheme) res" where
  "addTimer a p cb expiry interval w =
     (let w1 = new_timer p cb expiry interval w
      in bindR (tm_get p w1) (\<lambda>t. bindR (tq_get a w1) (\<lambda>q.
           bindR (runInLoop (tq_loop q) (FnAddTimer a p) (addTimerInLoop a p) w1)
             (\<lambda>w2. Inr ((p, tm_sequence t), w2)))))"

text \<open>
  \<open>cancelInLoop\<close> builds the entry from \<open>it->first->expiration()\<close> before it knows whether
  \<open>it\<close> points to anything.
\<close>

definition cancelInLoop :: "nat \<Rightarrow> nat \<times> int \<Rightarrow> 'z timerw_scheme \<Rightarrow> 'z timerw_scheme res" where
  "cancelInLoop a timerId w = bindR (tq_get a w) (\<lambda>q. tq_loop_thread q w
     (assertR (length (tq_timers q) = length (tq_active q))
       (let found = timerId \<in> set (tq_active q);
            it = (if found then timerId else tq_end_active q)
        in bindR (tm_get (fst it) w) (\<lambda>t.
             let entry = (tm_expiration t, fst it)
             in if found
                then assertR (entry \<in> set (tq_timers q))
                       (let timers' = remove1 entry (tq_timers q);
                            active' = remove1 it (tq_active q)
                        in assertR (length timers' = length active')
                             (Inr (tq_put a (q\<lparr>tq_timers := timers', tq_active := active'\<rparr>)
                                (tm_put (fst it) None w))))
                else if tq_doing q
                then Inr (tq_put a (q\<lparr>tq_cancel := fst (set_add it (tq_cancel q))\<rparr>) w)
                else Inr w))))"

definition tq_cancelTimer :: "nat \<Rightarrow> nat \<times> int \<Rightarrow> 'z timerw_scheme \<Rightarrow> 'z timerw_scheme res" where
  "tq_cancelTimer a timerId w = bindR (tq_get a w) (\<lambda>q.
     runInLoop (tq_loop q) (FnCancelTimer a timerId) (cancelInLoop a timerId) w)"

text \<open>The greatest pointer, \<open>UINTPTR_MAX\<close>.\<close>

definition UINTPTR_MAX :: nat where "UINTPTR_MAX = 2 ^ 64 - 1"

definition erase_active :: "nat \<Rightarrow> timestamp \<times> nat \<Rightarrow> 'z timerw_scheme \<Rightarrow> 'z timerw_scheme res" where
  "erase_active a it w = bindR (tq_get a w) (\<lambda>q. bindR (tm_get (snd it) w) (\<lambda>t.
     let active = (snd it, tm_sequence t)
     in assertR (active \<in> set (tq_active q))
          (Inr (tq_put a (q\<lparr>tq_active := remove1 active (tq_active q)\<rparr>) w))))"

definition getExpired ::
  "nat \<Rightarrow> timestamp \<Rightarrow> 'z timerw_scheme \<Rightarrow> ((timestamp \<times> nat) list \<times> 'z timerw_scheme) res" where
  "getExpired a now w = bindR (tq_get a w) (\<lambda>q.
     assertR (length (tq_timers q) = length (tq_active q))
       (let expired = takeWhile (\<lambda>e. e < (now, UINTPTR_MAX)) (tq_timers q);
            rest = dropWhile (\<lambda>e. e < (now, UINTPTR_MAX)) (tq_timers q);
            first = fst (case rest of [] \<Rightarrow> tq_end q | e # _ \<Rightarrow> e)
        in assertR (rest = [] \<or> ts_less now first)
             (bindR (foldR (erase_active a) expired (tq_put a (q\<lparr>tq_timers := rest\<rparr>) w)) (\<lambda>w'.
                bindR (tq_get a w') (\<lambda>q'.
                  assertR (length (tq_timers q') = length (tq_active q')) (Inr (expired, w')))))))"

definition reset_one :: "nat \<Rightarrow> timestamp \<Rightarrow> timestamp \<times> nat \<Rightarrow> 'z timerw_scheme \<Rightarrow> 'z timerw_scheme res" where
  "reset_one a now it w = bindR (tq_get a w) (\<lambda>q. bindR (tm_get (snd it) w) (\<lambda>t.
     if tm_repeat t \<and> (snd it, tm_sequence t) \<notin> set (tq_cancel q)
     then bindR (restart now (snd it) w) (\<lambda>w1. bindR (tq_insert a (snd it) w1) (\<lambda>(_, w2). Inr w2))
     else Inr (tm_put (snd it) None w)))"

definition reset_expired ::
  "nat \<Rightarrow> (timestamp \<times> nat) list \<Rightarrow> timestamp \<Rightarrow> 'z timerw_scheme \<Rightarrow> 'z timerw_scheme res" where
  "reset_expired a expired now w =
     bindR (foldR (reset_one a now) expired w) (\<lambda>w1. bindR (tq_get a w1) (\<lambda>q.
       let nextExpired = (case tq_timers q of [] \<Rightarrow> ts_invalid | e # _ \<Rightarrow> fst e)
       in if ts_valid nextExpired then resetTimerfd (tq_timerfd q) nextExpired w1 else Inr w1))"

definition run_timer ::
  "(functor_t \<Rightarrow> 'z timerw_scheme \<Rightarrow> 'z timerw_scheme res) \<Rightarrow> timestamp \<times> nat \<Rightarrow>
   'z timerw_scheme \<Rightarrow> 'z timerw_scheme res" where
  "run_timer exec it w = bindR (tm_get (snd it) w) (\<lambda>t. exec (tm_callback t) w)"

definition tq_handleRead ::
  "(functor_t \<Rightarrow> 'z timerw_scheme \<Rightarrow> 'z timerw_scheme res) \<Rightarrow> nat \<Rightarrow> 'z timerw_scheme \<Rightarrow>
   'z timerw_scheme res" where
  "tq_handleRead exec a w = bindR (tq_get a w) (\<lambda>q. tq_loop_thread q w
     (let (now, w1) = ts_now w;
          w2 = readTimerfd (tq_timerfd q) w1
      in bindR (getExpired a now w2) (\<lambda>(expired, w3). bindR (tq_get a w3) (\<lambda>q3.
           bindR (foldR (run_timer exec) expired (tq_put a (q3\<lparr>tq_doing := True, tq_cancel := []\<rparr>) w3)) (\<lambda>w4.
           bindR (tq_get a w4) (\<lambda>q4.
             reset_expired a expired now (tq_put a (q4\<lparr>tq_doing := False\<rparr>) w4)))))))"

section \<open>Consistency of the two sets\<close>

definition active_id :: "'z timerw_scheme \<Rightarrow> timestamp \<times> nat \<Rightarrow> nat \<times> int" where
  "active_id w e = (snd e, tm_sequence (the (timers w (snd e))))"

lemma active_id_put [simp]: "active_id (tq_put a q w) = active_id w"
  by (simp add: fun_eq_iff active_id_def tq_put_def)

text \<open>Every entry is a living timer with its own address and the expiration it is filed under.\<close>

definition entries_ok :: "'z timerw_scheme \<Rightarrow> (timestamp \<times> nat) list \<Rightarrow> bool" where
  "entries_ok w es \<longleftrightarrow> distinct (map snd es) \<and>
     (\<forall>e \<in> set es. snd e < UINTPTR_MAX \<and>
        in_int64 (fst e) \<and> (\<exists>t. timers w (snd e) = Some t \<and> tm_expiration t = fst e))"

definition tq_ok :: "timer_queue \<Rightarrow> 'z timerw_scheme \<Rightarrow> bool" where
  "tq_ok q w \<longleftrightarrow> sorted (tq_timers q) \<and> entries_ok w (tq_timers q) \<and> sorted (tq_active q) \<and>
     distinct (tq_active q) \<and> set (tq_active q) = active_id w ` set (tq_timers q)"

lemma tq_okD:
  assumes "tq_ok q w"
  shows "sorted (tq_timers q)" "entries_ok w (tq_timers q)" "sorted (tq_active q)"
    "distinct (tq_active q)" "set (tq_active q) = active_id w ` set (tq_timers q)"
  using assms by (auto simp: tq_ok_def)

lemma tq_fields [simp]:
  "tqs (tq_put a q w) = (tqs w)(a \<mapsto> q)" "timers (tq_put a q w) = timers w"
  "loops (tq_put a q w) = loops w" "isInLoopThread l (tq_put a q w) = isInLoopThread l w"
  "kernel (tq_put a q w) = kernel w" "sysLog (tq_put a q w) = sysLog w"
  "tqs (tm_put p t w) = tqs w" "timers (tm_put p t w) = (timers w)(p := t)"
  "loops (tm_put p t w) = loops w" "isInLoopThread l (tm_put p t w) = isInLoopThread l w"
  "kernel (tm_put p t w) = kernel w" "sysLog (tm_put p t w) = sysLog w"
  "tqs (snd (sys call w)) = tqs w" "timers (snd (sys call w)) = timers w"
  by (simp_all add: tq_put_def tm_put_def sys_def isInLoopThread_def)

lemma now_timerw [simp]:
  "tqs (snd (ts_now w)) = tqs w" "timers (snd (ts_now w)) = timers w" "loops (snd (ts_now w)) = loops w"
  "isInLoopThread l (snd (ts_now w)) = isInLoopThread l w"
  by (simp_all add: ts_now_def sys_def isInLoopThread_def)

lemma put_put [simp]: "tq_put a q' (tq_put a q w) = tq_put a q' w"
  by (simp add: tq_put_def)

lemma tq_get_Some [simp]: "tqs w a = Some q \<Longrightarrow> tq_get a w = Inr q"
  by (simp add: tq_get_def)

lemma tm_get_Some [simp]: "timers w p = Some t \<Longrightarrow> tm_get p w = Inr t"
  by (simp add: tm_get_def)

lemma tq_thread_here [simp]:
  "loops w (tq_loop q) \<noteq> None \<Longrightarrow> isInLoopThread (tq_loop q) w \<Longrightarrow> tq_loop_thread q w k = k"
  by (auto simp: tq_loop_thread_def inLoopThread_def)

lemma inj_active: "entries_ok w es \<Longrightarrow> inj_on (active_id w) (set es)"
proof (rule inj_onI)
  fix x y assume "entries_ok w es" and xy: "x \<in> set es" "y \<in> set es" "active_id w x = active_id w y"
  then have "inj_on snd (set es)" by (simp add: entries_ok_def distinct_map)
  with xy show "x = y" by (simp add: active_id_def inj_on_eq_iff)
qed

lemma tq_lengths: "tq_ok q w \<Longrightarrow> length (tq_active q) = length (tq_timers q)"
proof -
  assume ok: "tq_ok q w"
  note D = tq_okD [OF ok]
  have "distinct (tq_timers q)" using D(2) by (auto simp: entries_ok_def distinct_map)
  then have "length (tq_timers q) = card (set (tq_timers q))" by (simp add: distinct_card)
  also have "\<dots> = card (set (tq_active q))" using card_image [OF inj_active [OF D(2)]] D(5) by simp
  also have "\<dots> = length (tq_active q)" using D(4) by (simp add: distinct_card)
  finally show ?thesis by simp
qed

lemma fst_mono_pair: "e \<le> x \<Longrightarrow> fst e \<le> fst x" for e x :: "timestamp \<times> nat"
  by (cases e, cases x) (simp only: less_eq_prod_simp fst_conv, linarith)

lemma first_entry: "sorted (e # es) \<Longrightarrow> x \<in> set (e # es) \<Longrightarrow> fst e \<le> fst x"
  for e x :: "timestamp \<times> nat"
  using fst_mono_pair [of e x] by auto

section \<open>Adding a timer\<close>

definition with_timer :: "timestamp \<Rightarrow> nat \<Rightarrow> int \<Rightarrow> timer_queue \<Rightarrow> timer_queue" where
  "with_timer e p s q = q\<lparr>tq_timers := insort (e, p) (tq_timers q), tq_active := insort (p, s) (tq_active q)\<rparr>"

lemma tq_ok_with_timer:
  assumes ok: "tq_ok q w" and p: "timers w p = Some t" "p < UINTPTR_MAX" "p \<notin> snd ` set (tq_timers q)"
    and e: "in_int64 (tm_expiration t)"
  shows "tq_ok (with_timer (tm_expiration t) p (tm_sequence t) q) w"
proof -
  note D = tq_okD [OF ok]
  have "entries_ok w (insort (tm_expiration t, p) (tq_timers q))"
    using D(2) p e by (force simp: entries_ok_def set_insort_key distinct_map distinct_insort inj_on_def)
  moreover have "(p, tm_sequence t) \<notin> set (tq_active q)" using D(5) p(3) by (force simp: active_id_def)
  ultimately show ?thesis
    using D p by (simp add: tq_ok_def with_timer_def sorted_insort set_insort_key distinct_insort active_id_def)
qed

lemma tq_insert_ok:
  assumes a: "tqs w a = Some q" and ok: "tq_ok q w"
    and l: "loops w (tq_loop q) \<noteq> None" "isInLoopThread (tq_loop q) w"
    and p: "timers w p = Some t" "p \<notin> snd ` set (tq_timers q)"
  shows "tq_insert a p w = Inr (\<forall>e \<in> set (tq_timers q). tm_expiration t < fst e,
    tq_put a (with_timer (tm_expiration t) p (tm_sequence t) q) w)"
proof -
  note D = tq_okD [OF ok]
  have fresh: "(tm_expiration t, p) \<notin> set (tq_timers q)" "(p, tm_sequence t) \<notin> set (tq_active q)"
    using p(2) D(5) by (force simp: active_id_def)+
  have "(tq_timers q = [] \<or> ts_less (tm_expiration t) (fst (case tq_timers q of [] \<Rightarrow> tq_end q | e # _ \<Rightarrow> e)))
      = (\<forall>e \<in> set (tq_timers q). tm_expiration t < fst e)"
    using first_entry D(1) by (cases "tq_timers q") (fastforce simp: ts_less_def)+
  then show ?thesis
    using a l p(1) fresh tq_lengths [OF ok]
    by (simp add: tq_insert_def set_add_def Let_def with_timer_def)
qed

section \<open>Taking the expired timers out\<close>

lemma entries_ok_sub: "entries_ok w es \<Longrightarrow> entries_ok w (filter P es)"
  by (auto simp: entries_ok_def distinct_map_filter)

lemma erase_all:
  assumes "tqs w a = Some q" and "distinct (map snd es)" and "distinct (tq_active q)"
    and "active_id w ` set es \<subseteq> set (tq_active q)" and "\<forall>e \<in> set es. timers w (snd e) \<noteq> None"
  shows "foldR (erase_active a) es w =
    Inr (tq_put a (q\<lparr>tq_active := filter (\<lambda>x. x \<notin> active_id w ` set es) (tq_active q)\<rparr>) w)"
  using assms
proof (induction es arbitrary: w q)
  case Nil
  then show ?case by (simp add: tq_put_def fun_upd_idem)
next
  case (Cons e es)
  let ?q = "q\<lparr>tq_active := remove1 (active_id w e) (tq_active q)\<rparr>"
  let ?w = "tq_put a ?q w"
  from Cons.prems obtain t where t: "timers w (snd e) = Some t" by auto
  have step: "erase_active a e w = Inr ?w"
    using Cons.prems(1,4) t by (simp add: erase_active_def active_id_def Let_def)
  have other: "active_id w x \<noteq> active_id w e" if "x \<in> set es" for x
  proof -
    have "snd x \<noteq> snd e" using Cons.prems(2) that by (metis distinct.simps(2) image_eqI list.set_map list.simps(9))
    then show ?thesis by (simp add: active_id_def)
  qed
  have "active_id w ` set es \<subseteq> set (remove1 (active_id w e) (tq_active q))"
  proof
    fix y assume "y \<in> active_id w ` set es"
    then obtain x where x: "x \<in> set es" "y = active_id w x" by blast
    then have "y \<in> set (tq_active q)" using Cons.prems(4) by auto
    with x other [OF x(1)] show "y \<in> set (remove1 (active_id w e) (tq_active q))" by simp
  qed
  then have "foldR (erase_active a) es ?w =
      Inr (tq_put a (?q\<lparr>tq_active := filter (\<lambda>x. x \<notin> active_id ?w ` set es) (tq_active ?q)\<rparr>) ?w)"
    using Cons.prems(2,3,5) by (intro Cons.IH) simp_all
  then show ?case
    using Cons.prems(3) by (simp add: step distinct_remove1_removeAll removeAll_filter_not_eq
        eq_commute [of "active_id w e"])
qed

lemma sorted_split:
  fixes es :: "(timestamp \<times> nat) list"
  assumes "sorted es" and "\<forall>e \<in> set es. snd e < UINTPTR_MAX"
  shows "takeWhile (\<lambda>e. e < (now, UINTPTR_MAX)) es = filter (\<lambda>e. fst e \<le> now) es"
    and "dropWhile (\<lambda>e. e < (now, UINTPTR_MAX)) es = filter (\<lambda>e. now < fst e) es"
proof -
  have eq: "e < (now, UINTPTR_MAX) \<longleftrightarrow> fst e \<le> now" if "e \<in> set es" for e
    using assms(2) that by (cases e) auto
  have tw: "takeWhile (\<lambda>e. e < (now, UINTPTR_MAX)) es = takeWhile (\<lambda>e. fst e \<le> now) es"
    and dw: "dropWhile (\<lambda>e. e < (now, UINTPTR_MAX)) es = dropWhile (\<lambda>e. fst e \<le> now) es"
    by (rule takeWhile_cong [OF refl], rule eq, assumption, rule dropWhile_cong [OF refl], rule eq)
  have "takeWhile (\<lambda>e. fst e \<le> now) es = filter (\<lambda>e. fst e \<le> now) es \<and>
      dropWhile (\<lambda>e. fst e \<le> now) es = filter (\<lambda>e. now < fst e) es"
    using assms(1)
  proof (induction es)
    case (Cons e es)
    then show ?case
    proof (cases "fst e \<le> now")
      case False
      have later: "now < fst x" if "x \<in> set (e # es)" for x
        using first_entry [OF Cons.prems that] False by linarith
      have none: "filter (\<lambda>e. fst e \<le> now) (e # es) = []"
        unfolding filter_empty_conv using later by (meson linorder_not_less)
      have all: "filter (\<lambda>e. now < fst e) (e # es) = e # es"
        by (rule filter_True) (use later in blast)
      from False show ?thesis unfolding none all by simp
    next
      case True
      then have "\<not> now < fst e" by simp
      with True Cons.IH Cons.prems show ?thesis by (simp del: less_eq_prod_simp)
    qed
  qed simp
  then show "takeWhile (\<lambda>e. e < (now, UINTPTR_MAX)) es = filter (\<lambda>e. fst e \<le> now) es"
    "dropWhile (\<lambda>e. e < (now, UINTPTR_MAX)) es = filter (\<lambda>e. now < fst e) es"
    by (simp_all add: tw dw)
qed

definition expired_entries :: "timestamp \<Rightarrow> timer_queue \<Rightarrow> (timestamp \<times> nat) list" where
  "expired_entries now q = filter (\<lambda>e. fst e \<le> now) (tq_timers q)"

definition without_expired :: "timestamp \<Rightarrow> timer_queue \<Rightarrow> 'z timerw_scheme \<Rightarrow> timer_queue" where
  "without_expired now q w = q\<lparr>tq_timers := filter (\<lambda>e. now < fst e) (tq_timers q),
     tq_active := filter (\<lambda>x. x \<notin> active_id w ` set (expired_entries now q)) (tq_active q)\<rparr>"

lemma tq_ok_without_expired:
  assumes "tq_ok q w"
  shows "tq_ok (without_expired now q w) w"
proof -
  note D = tq_okD [OF assms]
  have inj: "inj_on (active_id w) (set (tq_timers q))" by (rule inj_active [OF D(2)])
  have "set (filter (\<lambda>x. x \<notin> active_id w ` set (expired_entries now q)) (tq_active q)) =
      active_id w ` set (filter (\<lambda>e. now < fst e) (tq_timers q))"
  proof -
    have "set (filter (\<lambda>x. x \<notin> active_id w ` set (expired_entries now q)) (tq_active q)) =
        active_id w ` set (tq_timers q) - active_id w ` set (expired_entries now q)"
      using D(5) by auto
    also have "\<dots> = active_id w ` (set (tq_timers q) - set (expired_entries now q))"
      using inj_on_image_set_diff [OF inj] by (metis Diff_subset expired_entries_def filter_is_subset)
    also have "set (tq_timers q) - set (expired_entries now q) = set (filter (\<lambda>e. now < fst e) (tq_timers q))"
      by (auto simp: expired_entries_def)
    finally show ?thesis .
  qed
  then show ?thesis
    using D by (simp add: tq_ok_def without_expired_def sorted_wrt_filter entries_ok_sub)
qed

lemma getExpired_ok:
  assumes a: "tqs w a = Some q" and ok: "tq_ok q w"
  shows "getExpired a now w = Inr (expired_entries now q, tq_put a (without_expired now q w) w)"
proof -
  note D = tq_okD [OF ok]
  have split: "takeWhile (\<lambda>e. e < (now, UINTPTR_MAX)) (tq_timers q) = expired_entries now q"
    "dropWhile (\<lambda>e. e < (now, UINTPTR_MAX)) (tq_timers q) = filter (\<lambda>e. now < fst e) (tq_timers q)"
    using sorted_split [OF D(1)] D(2) by (auto simp: expired_entries_def entries_ok_def)
  let ?q = "q\<lparr>tq_timers := filter (\<lambda>e. now < fst e) (tq_timers q)\<rparr>"
  have erase: "foldR (erase_active a) (expired_entries now q) (tq_put a ?q w) =
      Inr (tq_put a (without_expired now q w) w)"
  proof -
    have sub: "set (expired_entries now q) \<subseteq> set (tq_timers q)" by (auto simp: expired_entries_def)
    have "distinct (map snd (expired_entries now q))" "\<forall>e \<in> set (expired_entries now q). timers w (snd e) \<noteq> None"
      using entries_ok_sub [OF D(2)] by (fastforce simp: expired_entries_def entries_ok_def)+
    then have "foldR (erase_active a) (expired_entries now q) (tq_put a ?q w) = Inr (tq_put a
        (?q\<lparr>tq_active := filter (\<lambda>x. x \<notin> active_id (tq_put a ?q w) ` set (expired_entries now q)) (tq_active ?q)\<rparr>)
        (tq_put a ?q w))"
      using D(4,5) sub by (intro erase_all) (simp_all add: image_mono)
    then show ?thesis by (simp add: without_expired_def)
  qed
  have "filter (\<lambda>e. now < fst e) (tq_timers q) = [] \<or>
      ts_less now (fst (case filter (\<lambda>e. now < fst e) (tq_timers q) of [] \<Rightarrow> tq_end q | e # _ \<Rightarrow> e))"
  proof (cases "filter (\<lambda>e. now < fst e) (tq_timers q)")
    case (Cons e es)
    then have "now < fst e" using Cons_eq_filterD [OF Cons [symmetric]] by blast
    with Cons show ?thesis by (simp add: ts_less_def)
  qed simp
  with a erase tq_lengths [OF ok] tq_lengths [OF tq_ok_without_expired [OF ok, of now]]
  show ?thesis by (simp add: getExpired_def split Let_def del: dropWhile_eq_Nil_conv)
qed

section \<open>Cancelling\<close>

definition without_timer :: "nat \<Rightarrow> timer_queue \<Rightarrow> timer_queue" where
  "without_timer p q = q\<lparr>tq_timers := filter (\<lambda>e. snd e \<noteq> p) (tq_timers q),
     tq_active := filter (\<lambda>x. fst x \<noteq> p) (tq_active q)\<rparr>"

lemma remove1_only:
  "distinct xs \<Longrightarrow> x \<in> set xs \<Longrightarrow> (\<And>y. y \<in> set xs \<Longrightarrow> f y = f x \<Longrightarrow> y = x) \<Longrightarrow>
   remove1 x xs = filter (\<lambda>y. f y \<noteq> f x) xs"
  by (auto simp: distinct_remove1_removeAll removeAll_filter_not_eq intro!: filter_cong)

lemma tq_ok_without_timer:
  assumes "tq_ok q w"
  shows "tq_ok (without_timer p q) (tm_put p None w)"
proof -
  note D = tq_okD [OF assms]
  have "set (filter (\<lambda>x. fst x \<noteq> p) (tq_active q)) =
      active_id (tm_put p None w) ` set (filter (\<lambda>e. snd e \<noteq> p) (tq_timers q))"
    using D(5) by (force simp: active_id_def)
  moreover have "entries_ok (tm_put p None w) (filter (\<lambda>e. snd e \<noteq> p) (tq_timers q))"
    using D(2) by (auto simp: entries_ok_def distinct_map_filter)
  ultimately show ?thesis using D by (simp add: tq_ok_def without_timer_def sorted_wrt_filter)
qed

lemma cancelInLoop_active:
  assumes a: "tqs w a = Some q" and ok: "tq_ok q w"
    and l: "loops w (tq_loop q) \<noteq> None" "isInLoopThread (tq_loop q) w"
    and id: "(p, s) \<in> set (tq_active q)"
  shows "cancelInLoop a (p, s) w = Inr (tq_put a (without_timer p q) (tm_put p None w))"
proof -
  note D = tq_okD [OF ok]
  from id D(5) obtain e where e: "e \<in> set (tq_timers q)" "snd e = p" "s = tm_sequence (the (timers w p))"
    by (auto simp: active_id_def)
  then obtain t where t: "timers w p = Some t" "tm_expiration t = fst e" using D(2) by (auto simp: entries_ok_def)
  have dt: "distinct (tq_timers q)" "inj_on snd (set (tq_timers q))"
    using D(2) by (auto simp: entries_ok_def distinct_map)
  have "(tm_expiration t, p) = e" using t e by (cases e) simp
  moreover have "remove1 e (tq_timers q) = filter (\<lambda>y. snd y \<noteq> snd e) (tq_timers q)"
    by (rule remove1_only [OF dt(1) e(1)]) (use dt(2) e(1) in \<open>simp add: inj_on_eq_iff\<close>)
  moreover have "remove1 (p, s) (tq_active q) = filter (\<lambda>y. fst y \<noteq> fst (p, s)) (tq_active q)"
  proof (rule remove1_only [OF D(4) id])
    fix y assume y: "y \<in> set (tq_active q)" "fst y = fst (p, s)"
    then obtain x where "y = active_id w x" using D(5) by auto
    with y(2) e(3) show "y = (p, s)" by (simp add: active_id_def)
  qed
  moreover have "length (filter (\<lambda>y. snd y \<noteq> p) (tq_timers q)) = length (filter (\<lambda>y. fst y \<noteq> p) (tq_active q))"
    using tq_lengths [OF tq_ok_without_timer [OF ok, of p]] by (simp add: without_timer_def)
  ultimately show ?thesis
    using a l id e(1,2) t(1) tq_lengths [OF ok] by (simp add: cancelInLoop_def Let_def without_timer_def)
qed

text \<open>
  A timer that is not active any more (it ran and was deleted, or it is the one whose callback
  runs): the code reads the expiration of whatever the end of the set points to.
\<close>

lemma cancelInLoop_inactive:
  assumes a: "tqs w a = Some q" and ok: "tq_ok q w"
    and l: "loops w (tq_loop q) \<noteq> None" "isInLoopThread (tq_loop q) w"
    and id: "timerId \<notin> set (tq_active q)" and dangling: "timers w (fst (tq_end_active q)) = None"
  shows "cancelInLoop a timerId w = Inl UndefinedBehaviour"
  using assms tq_lengths [OF ok] by (simp add: cancelInLoop_def Let_def tm_get_def)

section \<open>Arming the timer descriptor\<close>

definition clock :: "'z timerw_scheme \<Rightarrow> timestamp" where
  "clock w = fst (ts_now w)"

definition armed :: "int \<Rightarrow> timestamp \<Rightarrow> 'z timerw_scheme \<Rightarrow> 'z timerw_scheme" where
  "armed fd expiry w = snd (sys (SysTimerfdSettime fd
     (cdiv (expiry - clock w) kMicroSecondPerSecond)
     (crem (expiry - clock w) kMicroSecondPerSecond * 1000)) (snd (ts_now w)))"

lemma resetTimerfd_eq:
  "in_int64 (expiry - clock w) \<Longrightarrow> resetTimerfd fd expiry w = Inr (armed fd expiry w)"
  by (simp add: resetTimerfd_def howLongToExpiration_def armed_def clock_def split_beta Let_def)

lemma armed_fields [simp]:
  "tqs (armed fd t w) = tqs w" "timers (armed fd t w) = timers w" "loops (armed fd t w) = loops w"
  "isInLoopThread l (armed fd t w) = isInLoopThread l w" "kernel (armed fd t w) = kernel w"
  by (simp_all add: armed_def)

text \<open>
  The delay written to the descriptor. For an expiration in the future it is the exact
  distance; for one that has come it is zero, which disarms the descriptor.
\<close>

lemma delay_future:
  assumes "now < expiry" and "in_int64 (expiry - now)"
  shows "\<exists>s n. howLongToExpiration now expiry = Inr (s, n) \<and> 0 \<le> s \<and> 0 \<le> n \<and> n < 10 ^ 9 \<and>
    s * 10 ^ 9 + n = (expiry - now) * 1000 \<and> (s, n) \<noteq> (0, 0)"
proof -
  define d where "d = expiry - now"
  have d: "0 < d" using assms(1) by (simp add: d_def)
  have "howLongToExpiration now expiry = Inr (d div 1000000, d mod 1000000 * 1000)"
    using assms(2) d by (simp add: howLongToExpiration_def d_def [symmetric] kMicroSecondPerSecond_def
        cdiv_nonneg crem_nonneg)
  moreover have "d = 1000000 * (d div 1000000) + d mod 1000000" by simp
  moreover have "0 \<le> d div 1000000" "0 \<le> d mod 1000000" "d mod 1000000 < 1000000"
    using d by (simp_all add: pos_imp_zdiv_nonneg_iff)
  moreover have "(d div 1000000, d mod 1000000 * 1000) \<noteq> (0, 0)"
    using d div_mult_mod_eq [of d 1000000] by auto
  moreover have "0 \<le> d mod 1000000 * 1000 \<and> d mod 1000000 * 1000 < 10 ^ 9 \<and>
      d div 1000000 * 10 ^ 9 + d mod 1000000 * 1000 = d * 1000"
    using calculation(2,4,5) by (simp, linarith)
  ultimately show ?thesis unfolding d_def [symmetric] by blast
qed

lemma delay_now: "howLongToExpiration now now = Inr (0, 0)"
  by (simp add: howLongToExpiration_def in_int64_def cdiv_def crem_def)

section \<open>Running the expired timers\<close>

lemma tq_ok_other:
  assumes "tq_ok q w" and "p \<notin> snd ` set (tq_timers q)"
  shows "tq_ok q (tm_put p t w)"
proof -
  have "active_id (tm_put p t w) ` set (tq_timers q) = active_id w ` set (tq_timers q)"
    using assms(2) by (intro image_cong refl) (force simp: active_id_def)
  moreover have "entries_ok (tm_put p t w) (tq_timers q)"
    using assms by (force simp: tq_ok_def entries_ok_def)
  ultimately show ?thesis using assms(1) by (simp add: tq_ok_def)
qed

text \<open>What becomes of a timer that has run, and of the queue.\<close>

definition next_expiration :: "timestamp \<Rightarrow> timer \<Rightarrow> timestamp" where
  "next_expiration now t = (case addTime now (tm_interval t) of Inl _ \<Rightarrow> ts_invalid | Inr e \<Rightarrow> e)"

lemma next_expiration_int64:
  "\<exists>x. addTime now (tm_interval t) = Inr x \<Longrightarrow> in_int64 (next_expiration now t)"
  by (auto simp: next_expiration_def addTime_def Let_def split: if_splits)

definition after_run :: "timestamp \<Rightarrow> timer \<Rightarrow> timer option" where
  "after_run now t = (if tm_repeat t then Some (t\<lparr>tm_expiration := next_expiration now t\<rparr>) else None)"

definition rearmed :: "timestamp \<Rightarrow> 'z timerw_scheme \<Rightarrow> (timestamp \<times> nat) list \<Rightarrow> (timestamp \<times> nat) set" where
  "rearmed now w es = {(next_expiration now t, p) | t p. p \<in> snd ` set es \<and> timers w p = Some t \<and> tm_repeat t}"

lemma rearmed_Cons: "rearmed now w (e # es) = rearmed now w [e] \<union> rearmed now w es"
  unfolding rearmed_def by auto

lemma rearmed_single: "rearmed now w [(e, p)] = (case timers w p of
    None \<Rightarrow> {} | Some t \<Rightarrow> if tm_repeat t then {(next_expiration now t, p)} else {})"
  by (auto simp: rearmed_def split: option.splits)

lemma rearmed_cong:
  "(\<And>p. p \<in> snd ` set es \<Longrightarrow> timers v p = timers w p) \<Longrightarrow> rearmed now v es = rearmed now w es"
  unfolding rearmed_def by (intro Collect_cong) metis

text \<open>The expired timers are out of the queue, alive, and their next expiration can be computed.\<close>

definition detached :: "timestamp \<Rightarrow> nat \<Rightarrow> (timestamp \<times> nat) list \<Rightarrow> 'z timerw_scheme \<Rightarrow> bool" where
  "detached now a es w \<longleftrightarrow> (\<exists>q. tqs w a = Some q \<and> tq_ok q w \<and> tq_cancel q = [] \<and>
     loops w (tq_loop q) \<noteq> None \<and> isInLoopThread (tq_loop q) w \<and> distinct (map snd es) \<and>
     (\<forall>e \<in> set es. snd e < UINTPTR_MAX \<and> snd e \<notin> snd ` set (tq_timers q) \<and>
        (\<exists>t. timers w (snd e) = Some t \<and> (tm_repeat t \<longrightarrow> (\<exists>x. addTime now (tm_interval t) = Inr x)))))"

lemma reset_one_ok:
  assumes a: "tqs w a = Some q" "tq_ok q w" "tq_cancel q = []"
    and l: "loops w (tq_loop q) \<noteq> None" "isInLoopThread (tq_loop q) w"
    and p: "timers w p = Some t" "p < UINTPTR_MAX" "p \<notin> snd ` set (tq_timers q)"
      "tm_repeat t \<longrightarrow> (\<exists>x. addTime now (tm_interval t) = Inr x)"
  shows "reset_one a now (e, p) w = Inr (if tm_repeat t
    then tq_put a (with_timer (next_expiration now t) p (tm_sequence t) q) (tm_put p (after_run now t) w)
    else tm_put p (after_run now t) w)"
proof (cases "tm_repeat t")
  case True
  then obtain x where x: "addTime now (tm_interval t) = Inr x" using p(4) by blast
  let ?t = "t\<lparr>tm_expiration := x\<rparr>"
  let ?w = "tm_put p (Some ?t) w"
  have "restart now p w = Inr ?w" using True x p(1) by (simp add: restart_def)
  moreover have "tq_ok q ?w" by (rule tq_ok_other [OF a(2) p(3)])
  then have "tq_insert a p ?w = Inr (\<forall>e \<in> set (tq_timers q). x < fst e, tq_put a (with_timer x p (tm_sequence t) q) ?w)"
    using tq_insert_ok [of ?w a q p ?t] a l p by simp
  ultimately show ?thesis
    using True a p(1) x by (simp add: reset_one_def after_run_def next_expiration_def)
qed (use a p(1) in \<open>simp add: reset_one_def after_run_def\<close>)

lemma reset_loop:
  assumes "detached now a es w" and "tqs w a = Some q"
  shows "\<exists>w' q'. foldR (reset_one a now) es w = Inr w' \<and> tqs w' a = Some q' \<and> tq_ok q' w' \<and>
    tq_timerfd q' = tq_timerfd q \<and> set (tq_timers q') = set (tq_timers q) \<union> rearmed now w es \<and>
    (\<forall>p. timers w' p = (if p \<in> snd ` set es then Option.bind (timers w p) (after_run now) else timers w p)) \<and>
    kernel w' = kernel w \<and> sysLog w' = sysLog w"
  using assms
proof (induction es arbitrary: w q)
  case Nil
  then show ?case by (auto simp: detached_def rearmed_def)
next
  case (Cons e es)
  obtain x p where e: "e = (x, p)" by (cases e)
  from Cons.prems have q: "tq_ok q w" "tq_cancel q = []" "loops w (tq_loop q) \<noteq> None"
    "isInLoopThread (tq_loop q) w" "distinct (map snd es)" "p \<notin> snd ` set es" "p < UINTPTR_MAX"
    "p \<notin> snd ` set (tq_timers q)" by (auto simp: detached_def e)
  from Cons.prems obtain t where t: "timers w p = Some t"
    "tm_repeat t \<longrightarrow> (\<exists>x. addTime now (tm_interval t) = Inr x)" by (auto simp: detached_def e)
  define u where "u = tm_put p (after_run now t) w"
  define q1 where "q1 = (if tm_repeat t then with_timer (next_expiration now t) p (tm_sequence t) q else q)"
  define w1 where "w1 = tq_put a q1 u"
  have "tq_put a q (tm_put p s w) = tm_put p s w" for s
    using Cons.prems(2) by (simp add: tq_put_def tm_put_def fun_upd_idem)
  then have step: "reset_one a now e w = Inr w1"
    using reset_one_ok [OF Cons.prems(2) q(1-4) t(1) q(7,8) t(2), of x]
    by (simp add: e w1_def u_def q1_def)
  have "tq_ok q u" using tq_ok_other [OF q(1,8)] by (simp add: u_def)
  then have "tq_ok q1 u"
    using tq_ok_with_timer [of q u p "t\<lparr>tm_expiration := next_expiration now t\<rparr>"] q(7,8)
      next_expiration_int64 [OF t(2) [rule_format]]
    by (cases "tm_repeat t") (simp_all add: q1_def u_def after_run_def)
  then have ok1: "tq_ok q1 w1" by (simp add: w1_def tq_ok_def entries_ok_def)
  have new: "set (tq_timers q1) = set (tq_timers q) \<union> rearmed now w [e]"
    using t(1) by (auto simp: q1_def with_timer_def set_insort_key rearmed_def e)
  have keep: "timers w1 s = timers w s" if "s \<noteq> p" for s using that by (simp add: w1_def u_def)
  have q1: "tq_loop q1 = tq_loop q" "tq_cancel q1 = []" "tq_timerfd q1 = tq_timerfd q"
    using q(2) by (simp_all add: q1_def with_timer_def)
  have "detached now a es w1"
    unfolding detached_def
  proof (intro exI [of _ q1] conjI ballI)
    fix f assume f: "f \<in> set es"
    then have "snd f \<noteq> p" using q(6) by force
    moreover have "snd f \<notin> snd ` set (tq_timers q1)"
    proof
      assume "snd f \<in> snd ` set (tq_timers q1)"
      then have "snd f \<in> snd ` set (tq_timers q) \<or> snd f = p" by (auto simp: new rearmed_def e)
      with \<open>snd f \<noteq> p\<close> Cons.prems f show False by (auto simp: detached_def)
    qed
    ultimately show "snd f < UINTPTR_MAX" "snd f \<notin> snd ` set (tq_timers q1)"
      "\<exists>t. timers w1 (snd f) = Some t \<and> (tm_repeat t \<longrightarrow> (\<exists>x. addTime now (tm_interval t) = Inr x))"
      using Cons.prems f keep by (auto simp: detached_def)
  qed (use ok1 q q1 in \<open>simp_all add: w1_def u_def\<close>)
  from Cons.IH [OF this, of q1] obtain w' q' where r: "foldR (reset_one a now) es w1 = Inr w'"
    "tqs w' a = Some q'" "tq_ok q' w'" "tq_timerfd q' = tq_timerfd q1"
    "set (tq_timers q') = set (tq_timers q1) \<union> rearmed now w1 es"
    "\<forall>p. timers w' p = (if p \<in> snd ` set es then Option.bind (timers w1 p) (after_run now) else timers w1 p)"
    "kernel w' = kernel w1" "sysLog w' = sysLog w1" by (auto simp: w1_def)
  have "rearmed now w1 es = rearmed now w es"
    by (rule rearmed_cong) (use keep q(6) in metis)
  then have "set (tq_timers q') = set (tq_timers q) \<union> rearmed now w (e # es)"
    using r(5) new rearmed_Cons [of now w e es] by simp blast
  moreover have "timers w' s = (if s \<in> snd ` set (e # es) then Option.bind (timers w s) (after_run now) else timers w s)" for s
  proof (cases "s = p")
    case True
    then show ?thesis using r(6) q(6) t(1) by (simp add: e w1_def u_def)
  next
    case False
    then show ?thesis using r(6) keep [OF False] by (simp add: e)
  qed
  moreover have "kernel w' = kernel w" "sysLog w' = sysLog w" using r(7,8) by (simp_all add: w1_def u_def)
  ultimately show ?case using step r(1-4) q1(3) by auto
qed

text \<open>The clock is not before 1970, so a distance to a valid time does not overflow.\<close>

definition sane_clock :: "(syscall list \<Rightarrow> syscall \<Rightarrow> kres) \<Rightarrow> bool" where
  "sane_clock k \<longleftrightarrow> (\<forall>calls. 0 \<le> ts_of_timeval (kfst (k calls SysGettimeofday)) (ksnd (k calls SysGettimeofday)))"

lemma clock_nonneg: "sane_clock (kernel w) \<Longrightarrow> 0 \<le> clock w"
  by (simp add: sane_clock_def clock_def ts_now_def sys_def)

lemma distance_int64: "in_int64 t \<Longrightarrow> 0 \<le> t \<Longrightarrow> sane_clock (kernel w) \<Longrightarrow> in_int64 (t - clock w)"
proof -
  assume "in_int64 t" "0 \<le> t" "sane_clock (kernel w)"
  moreover have "clock w < 2 ^ 63"
    unfolding clock_def ts_now_def sys_def Let_def prod.case fst_conv ts_of_timeval_def int64_def
    by (rule order_less_le_trans [OF diff_strict_right_mono [OF pos_mod_bound]]) simp_all
  ultimately show ?thesis using clock_nonneg [of w] by (simp add: in_int64_def)
qed

definition first_expiration :: "timer_queue \<Rightarrow> timestamp" where
  "first_expiration q = (case tq_timers q of [] \<Rightarrow> ts_invalid | e # _ \<Rightarrow> fst e)"

definition rearm_for :: "timer_queue \<Rightarrow> 'z timerw_scheme \<Rightarrow> 'z timerw_scheme" where
  "rearm_for q w = (if ts_valid (first_expiration q) then armed (tq_timerfd q) (first_expiration q) w else w)"

lemma rearm_for_fields [simp]: "tqs (rearm_for q w) = tqs w" "timers (rearm_for q w) = timers w"
  by (simp_all add: rearm_for_def)

lemma reset_expired_ok:
  assumes det: "detached now a es w" and q: "tqs w a = Some q" and clk: "sane_clock (kernel w)"
  shows "\<exists>v q'. reset_expired a es now w = Inr (rearm_for q' v) \<and> tqs v a = Some q' \<and> tq_ok q' v \<and>
    set (tq_timers q') = set (tq_timers q) \<union> rearmed now w es \<and>
    (\<forall>p. timers v p = (if p \<in> snd ` set es then Option.bind (timers w p) (after_run now) else timers w p))"
proof -
  from reset_loop [OF det q] obtain v q' where r: "foldR (reset_one a now) es w = Inr v"
    "tqs v a = Some q'" "tq_ok q' v" "set (tq_timers q') = set (tq_timers q) \<union> rearmed now w es"
    "\<forall>p. timers v p = (if p \<in> snd ` set es then Option.bind (timers w p) (after_run now) else timers w p)"
    "kernel v = kernel w" by blast
  have "resetTimerfd (tq_timerfd q') (first_expiration q') v = Inr (armed (tq_timerfd q') (first_expiration q') v)"
    if "ts_valid (first_expiration q')"
  proof (rule resetTimerfd_eq, rule distance_int64)
    show "in_int64 (first_expiration q')"
      using tq_okD(2) [OF r(3)] that
      by (cases "tq_timers q'") (auto simp: first_expiration_def entries_ok_def ts_valid_def ts_invalid_def)
  qed (use that clk r(6) in \<open>simp_all add: ts_valid_def\<close>)
  then have "reset_expired a es now w = Inr (rearm_for q' v)"
    using r(1,2) by (simp add: reset_expired_def rearm_for_def first_expiration_def Let_def)
  with r show ?thesis by blast
qed

lemma addTimerInLoop_ok:
  assumes a: "tqs w a = Some q" "tq_ok q w" and l: "loops w (tq_loop q) \<noteq> None" "isInLoopThread (tq_loop q) w"
    and p: "timers w p = Some t" "p < UINTPTR_MAX" "p \<notin> snd ` set (tq_timers q)"
      "in_int64 (tm_expiration t)" "0 \<le> tm_expiration t"
    and clk: "sane_clock (kernel w)"
  defines "q' \<equiv> with_timer (tm_expiration t) p (tm_sequence t) q"
  shows "addTimerInLoop a p w = Inr (if \<forall>e \<in> set (tq_timers q). tm_expiration t < fst e
      then armed (tq_timerfd q) (tm_expiration t) (tq_put a q' w) else tq_put a q' w)" and "tq_ok q' w"
proof -
  show "tq_ok q' w" unfolding q'_def by (rule tq_ok_with_timer [OF a(2) p(1-4)])
  have "resetTimerfd (tq_timerfd q) (tm_expiration t) (tq_put a q' w) =
      Inr (armed (tq_timerfd q) (tm_expiration t) (tq_put a q' w))"
    using p clk by (intro resetTimerfd_eq distance_int64) simp_all
  then show "addTimerInLoop a p w = Inr (if \<forall>e \<in> set (tq_timers q). tm_expiration t < fst e
      then armed (tq_timerfd q) (tm_expiration t) (tq_put a q' w) else tq_put a q' w)"
    using tq_insert_ok [OF a l p(1,3)] a l p(1)
    by (simp add: addTimerInLoop_def q'_def [symmetric])
qed

text \<open>
  Callbacks may do anything that leaves the expired timers alone and the queue consistent:
  adding timers is allowed.
\<close>

definition holding ::
  "timestamp \<Rightarrow> nat \<Rightarrow> (timestamp \<times> nat) list \<Rightarrow> 'z timerw_scheme \<Rightarrow> 'z timerw_scheme \<Rightarrow> bool" where
  "holding now a es w v \<longleftrightarrow> detached now a es v \<and> sane_clock (kernel v) \<and> (\<forall>e \<in> set es. timers v (snd e) = timers w (snd e))"

definition gentle ::
  "(functor_t \<Rightarrow> 'z timerw_scheme \<Rightarrow> 'z timerw_scheme res) \<Rightarrow> timestamp \<Rightarrow> nat \<Rightarrow>
   (timestamp \<times> nat) list \<Rightarrow> 'z timerw_scheme \<Rightarrow> bool" where
  "gentle exec now a es w \<longleftrightarrow>
     (\<forall>fn v. holding now a es w v \<longrightarrow> (\<exists>v'. exec fn v = Inr v' \<and> holding now a es w v'))"

definition callback_of :: "'z timerw_scheme \<Rightarrow> timestamp \<times> nat \<Rightarrow> functor_t" where
  "callback_of w e = tm_callback (the (timers w (snd e)))"

lemma run_timers_ok:
  assumes "gentle exec now a es w" and "holding now a es w v" and "set fs \<subseteq> set es"
  shows "\<exists>v'. foldR (run_timer exec) fs v = Inr v' \<and> foldR exec (map (callback_of w) fs) v = Inr v' \<and>
    holding now a es w v'"
  using assms(2,3)
proof (induction fs arbitrary: v)
  case (Cons f fs)
  from Cons.prems obtain t where t: "timers v (snd f) = Some t" "timers w (snd f) = Some t"
    by (force simp: holding_def detached_def)
  from assms(1) Cons.prems(1) obtain u where u: "exec (tm_callback t) v = Inr u" "holding now a es w u"
    unfolding gentle_def by blast
  from Cons.IH [OF u(2)] Cons.prems(2) show ?case
    using u(1) t by (simp add: run_timer_def callback_of_def)
qed simp

text \<open>
  One expiry of the descriptor: the callbacks of exactly the expired timers run, in the order of
  expiration; the one-shot timers are freed, the repeating ones go back \<open>interval\<close> later; and the
  descriptor is set for the earliest timer of the queue.
\<close>

definition running :: "nat \<Rightarrow> timer_queue \<Rightarrow> 'z timerw_scheme \<Rightarrow> 'z timerw_scheme" where
  "running a q w = (let w2 = readTimerfd (tq_timerfd q) (snd (ts_now w))
     in tq_put a ((without_expired (clock w) q w)\<lparr>tq_doing := True, tq_cancel := []\<rparr>) w2)"

lemma running_fields [simp]:
  "timers (running a q w) = timers w" "loops (running a q w) = loops w" "kernel (running a q w) = kernel w"
  "isInLoopThread l (running a q w) = isInLoopThread l w"
  "tqs (running a q w) = (tqs w)(a \<mapsto> (without_expired (clock w) q w)\<lparr>tq_doing := True, tq_cancel := []\<rparr>)"
  by (simp_all add: running_def readTimerfd_def)

lemma tq_ok_flags [simp]:
  "tq_ok (q\<lparr>tq_doing := b\<rparr>) w = tq_ok q w" "tq_ok (q\<lparr>tq_cancel := c\<rparr>) w = tq_ok q w"
  by (simp_all add: tq_ok_def)

lemma tq_ok_timers: "timers v = timers w \<Longrightarrow> tq_ok q v = tq_ok q w"
  by (simp add: tq_ok_def entries_ok_def active_id_def [abs_def])

lemma detached_doing:
  "detached now a es v \<Longrightarrow> tqs v a = Some q \<Longrightarrow> detached now a es (tq_put a (q\<lparr>tq_doing := b\<rparr>) v)"
  using tq_ok_timers [of "tq_put a (q\<lparr>tq_doing := b\<rparr>) v" v] by (simp add: detached_def)

lemma tq_handleRead_ok:
  assumes a: "tqs w a = Some q" "tq_ok q w" and l: "loops w (tq_loop q) \<noteq> None" "isInLoopThread (tq_loop q) w"
    and exec: "gentle exec (clock w) a (expired_entries (clock w) q) (running a q w)"
    and start: "holding (clock w) a (expired_entries (clock w) q) (running a q w) (running a q w)"
  shows "\<exists>v qv u q'. foldR exec (map (callback_of w) (expired_entries (clock w) q)) (running a q w) = Inr v \<and>
    tqs v a = Some qv \<and> tq_handleRead exec a w = Inr (rearm_for q' u) \<and> tqs u a = Some q' \<and> tq_ok q' u \<and>
    set (tq_timers q') = set (tq_timers qv) \<union> rearmed (clock w) w (expired_entries (clock w) q) \<and>
    (\<forall>e \<in> set (expired_entries (clock w) q). timers u (snd e) = Option.bind (timers w (snd e)) (after_run (clock w)))"
proof -
  let ?now = "clock w" and ?es = "expired_entries (clock w) q"
  define w2 where "w2 = readTimerfd (tq_timerfd q) (snd (ts_now w))"
  have w2: "tqs w2 = tqs w" "timers w2 = timers w" by (simp_all add: w2_def readTimerfd_def)
  have "tq_ok q w2" using a(2) tq_ok_timers [OF w2(2)] by simp
  then have get: "getExpired a ?now w2 = Inr (?es, tq_put a (without_expired ?now q w2) w2)"
    using getExpired_ok [of w2 a q] a(1) w2(1) by simp
  have same: "without_expired ?now q w2 = without_expired ?now q w"
    using w2(2) by (simp add: without_expired_def active_id_def [abs_def])
  have cb: "callback_of (running a q w) = callback_of w" by (simp add: fun_eq_iff callback_of_def)
  obtain v where v: "foldR (run_timer exec) ?es (running a q w) = Inr v"
    "foldR exec (map (callback_of w) ?es) (running a q w) = Inr v" "holding ?now a ?es (running a q w) v"
    using run_timers_ok [OF exec start order_refl] by (auto simp: cb)
  then obtain qv where qv: "tqs v a = Some qv" by (auto simp: holding_def detached_def)
  let ?v = "tq_put a (qv\<lparr>tq_doing := False\<rparr>) v"
  have "detached ?now a ?es ?v"
    using v(3) detached_doing [OF _ qv] by (simp add: holding_def)
  from reset_expired_ok [OF this, of "qv\<lparr>tq_doing := False\<rparr>"] v(3) obtain u q' where
    r: "reset_expired a ?es ?now ?v = Inr (rearm_for q' u)" "tqs u a = Some q'" "tq_ok q' u"
    "set (tq_timers q') = set (tq_timers qv) \<union> rearmed ?now ?v ?es"
    "\<forall>p. timers u p = (if p \<in> snd ` set ?es then Option.bind (timers v p) (after_run ?now) else timers v p)"
    by (auto simp: holding_def)
  have alike: "timers v (snd e) = timers w (snd e)" if "e \<in> set ?es" for e
    using v(3) that by (simp add: holding_def)
  have "rearmed ?now ?v ?es = rearmed ?now w ?es"
    by (rule rearmed_cong) (use alike in \<open>elim imageE, simp\<close>)
  moreover have "tq_handleRead exec a w = Inr (rearm_for q' u)"
    using a(1) l get v(1) qv r(1)
    by (simp add: tq_handleRead_def split_beta clock_def [symmetric] w2_def [symmetric] same Let_def)
      (simp add: running_def w2_def Let_def)
  moreover have "\<forall>e \<in> set ?es. timers u (snd e) = Option.bind (timers w (snd e)) (after_run ?now)"
    using r(5) alike by simp
  ultimately show ?thesis
    using v(2) qv r(2-4) by (intro exI [of _ v] exI [of _ qv] exI [of _ u] exI [of _ q'] conjI) simp_all
qed

section \<open>Properties\<close>

text \<open>
  A queue at address 3 of the loop at address 0, at the time 150: a one-shot timer due at 100, a
  repeating one due at 120, one due at 900, and a new timer not yet in the queue.
\<close>

definition example_timer :: "nat \<Rightarrow> timer option" where
  "example_timer = [
     50 \<mapsto> \<lparr>tm_callback = FnUser 1, tm_expiration = 100, tm_repeat = False, tm_interval = 0, tm_sequence = 1\<rparr>,
     51 \<mapsto> \<lparr>tm_callback = FnUser 2, tm_expiration = 120, tm_repeat = True, tm_interval = 1, tm_sequence = 2\<rparr>,
     52 \<mapsto> \<lparr>tm_callback = FnUser 3, tm_expiration = 900, tm_repeat = False, tm_interval = 0, tm_sequence = 3\<rparr>,
     53 \<mapsto> \<lparr>tm_callback = FnUser 4, tm_expiration = 60, tm_repeat = False, tm_interval = 0, tm_sequence = 4\<rparr>]"

definition example_queue :: timer_queue where
  "example_queue = \<lparr>tq_loop = 0, tq_timerfd = 6, tq_channel = 2,
     tq_timers = [(100, 50), (120, 51), (900, 52)], tq_active = [(50, 1), (51, 2), (52, 3)],
     tq_doing = False, tq_cancel = [], tq_end = (0, 0), tq_end_active = (0, 0)\<rparr>"

definition example_timerw :: timerw where
  "example_timerw = \<lparr>kernel = (\<lambda>_ _. (ret 0)\<lparr>ksnd := 150\<rparr>), sysLog = [], curTid = 1, threadOf = (\<lambda>_. 1),
     chans = (\<lambda>_. None), loops = [0 \<mapsto> example_eventloop []], threadLoop = [1 \<mapsto> 0],
     tqs = [3 \<mapsto> example_queue], timers = example_timer, numCreated = 4\<rparr>"

lemma example_timerw_fields [simp]:
  "tqs example_timerw = [3 \<mapsto> example_queue]" "timers example_timerw = example_timer"
  "loops example_timerw = [0 \<mapsto> example_eventloop []]" "isInLoopThread l example_timerw"
  "sysLog example_timerw = []" "tq_loop example_queue = 0" "tq_timerfd example_queue = 6"
  "tq_timers example_queue = [(100, 50), (120, 51), (900, 52)]"
  "tq_active example_queue = [(50, 1), (51, 2), (52, 3)]" "tq_end_active example_queue = (0, 0)"
  by (simp_all add: example_timerw_def isInLoopThread_def example_queue_def)

lemma example_clock: "sane_clock (kernel example_timerw)" "clock example_timerw = 150"
  by (simp_all add: example_timerw_def sane_clock_def clock_def ts_now_def sys_def ts_of_timeval_def
      int64_def kMicroSecondPerSecond_def ret_def)

lemma example_tq_ok: "tq_ok example_queue example_timerw"
  by (auto simp: tq_ok_def example_queue_def entries_ok_def active_id_def example_timer_def
      UINTPTR_MAX_def in_int64_def)

text \<open>C12: \<open>addTimerInLoop\<close> of a timer that is not queued: both sets get it and stay consistent, and
  the timer descriptor is set to its expiration exactly when it is earlier than every other.\<close>

theorem timer_added:
  assumes "tqs w a = Some q" and "tq_ok q w" and "loops w (tq_loop q) \<noteq> None"
    and "isInLoopThread (tq_loop q) w" and "timers w p = Some t" and "p < UINTPTR_MAX"
    and "p \<notin> snd ` set (tq_timers q)" and "in_int64 (tm_expiration t)" and "0 \<le> tm_expiration t"
    and "sane_clock (kernel w)"
  shows "\<exists>q' w'. addTimerInLoop a p w = Inr w' \<and> tqs w' a = Some q' \<and> tq_ok q' w' \<and>
    set (tq_timers q') = insert (tm_expiration t, p) (set (tq_timers q)) \<and>
    w' = (if \<forall>e \<in> set (tq_timers q). tm_expiration t < fst e
      then armed (tq_timerfd q) (tm_expiration t) (tq_put a q' w) else tq_put a q' w)"
proof -
  let ?q = "with_timer (tm_expiration t) p (tm_sequence t) q"
  note r = addTimerInLoop_ok [OF assms]
  let ?w = "if \<forall>e \<in> set (tq_timers q). tm_expiration t < fst e
    then armed (tq_timerfd q) (tm_expiration t) (tq_put a ?q w) else tq_put a ?q w"
  have "timers ?w = timers w" "tqs ?w a = Some ?q" by (simp_all split: if_splits)
  with r tq_ok_timers [of ?w w] show ?thesis
    by (intro exI [of _ ?q] exI [of _ ?w]) (simp add: with_timer_def set_insort_key)
qed

theorem timer_added_witness:
  "\<exists>q' w'. addTimerInLoop 3 53 example_timerw = Inr w' \<and> tqs w' 3 = Some q' \<and>
     set (tq_timers q') = {(60, 53), (100, 50), (120, 51), (900, 52)} \<and>
     w' = armed 6 60 (tq_put 3 q' example_timerw)"
proof -
  obtain t where t: "timers example_timerw 53 = Some t" "tm_expiration t = 60" by (simp add: example_timer_def)
  with timer_added [of example_timerw 3 example_queue 53 t] example_tq_ok example_clock(1) show ?thesis
    by (auto simp: UINTPTR_MAX_def in_int64_def)
qed

text \<open>C3: when the timer descriptor is ready, the callbacks of exactly the timers whose time has
  come run, in the order of expiration. Afterwards the one-shot timers among them are freed, the
  repeating ones are queued again one interval after now, all others (and what the callbacks
  added) are still queued, both sets agree, and the descriptor is set for the earliest timer.\<close>

theorem timer_expiry:
  assumes "tqs w a = Some q" and "tq_ok q w" and "loops w (tq_loop q) \<noteq> None" and "isInLoopThread (tq_loop q) w"
    and "gentle exec (clock w) a (expired_entries (clock w) q) (running a q w)"
    and "holding (clock w) a (expired_entries (clock w) q) (running a q w) (running a q w)"
  shows "\<exists>v qv u q'. foldR exec (map (callback_of w) (expired_entries (clock w) q)) (running a q w) = Inr v \<and>
    tqs v a = Some qv \<and> tq_handleRead exec a w = Inr (rearm_for q' u) \<and> tqs u a = Some q' \<and> tq_ok q' u \<and>
    set (tq_timers q') = set (tq_timers qv) \<union> rearmed (clock w) w (expired_entries (clock w) q) \<and>
    (\<forall>e \<in> set (expired_entries (clock w) q). timers u (snd e) = Option.bind (timers w (snd e)) (after_run (clock w)))"
  by (rule tq_handleRead_ok [OF assms])

lemma example_expired: "expired_entries 150 example_queue = [(100, 50), (120, 51)]"
  by (simp add: expired_entries_def)

lemma second_later: "addTime 150 1 = Inr 1000150"
  using addTime_exact [of 1 1000000 150] by (simp add: kMicroSecondPerSecond_def)

lemma example_holding:
  "holding 150 3 [(100, 50), (120, 51)] (running 3 example_queue example_timerw) (running 3 example_queue example_timerw)"
proof -
  have "tq_ok (without_expired 150 example_queue example_timerw) (running 3 example_queue example_timerw)"
    using tq_ok_without_expired [OF example_tq_ok] tq_ok_timers [of "running 3 example_queue example_timerw" example_timerw]
    by simp
  then show ?thesis
    using second_later
    by (simp add: holding_def detached_def example_clock without_expired_def UINTPTR_MAX_def example_timer_def)
qed

theorem timer_expiry_witness:
  "\<exists>u q'. tq_handleRead (\<lambda>_. Inr) 3 example_timerw = Inr (rearm_for q' u) \<and>
     set (tq_timers q') = {(900, 52), (1000150, 51)} \<and> timers u 50 = None"
proof -
  have "gentle (\<lambda>_. Inr) 150 3 [(100, 50), (120, 51)] (running 3 example_queue example_timerw)"
    by (simp add: gentle_def)
  with timer_expiry [of example_timerw 3 example_queue "\<lambda>_. Inr"] example_tq_ok example_holding
  obtain v qv u q' where r: "running 3 example_queue example_timerw = v" "tqs v 3 = Some qv"
    "tq_handleRead (\<lambda>_. Inr) 3 example_timerw = Inr (rearm_for q' u)"
    "set (tq_timers q') = set (tq_timers qv) \<union> rearmed 150 example_timerw [(100, 50), (120, 51)]"
    "timers u 50 = Option.bind (timers example_timerw 50) (after_run 150)"
    by (auto simp: example_clock example_expired)
  have "rearmed 150 example_timerw [(100, 50), (120, 51)] = {(1000150, 51)}"
    by (subst rearmed_Cons) (simp add: rearmed_single example_timer_def next_expiration_def second_later)
  moreover have "set (tq_timers qv) = {(900, 52)}"
    using r(1,2) by (auto simp: without_expired_def example_clock)
  moreover have "timers u 50 = None" using r(5) by (simp add: example_timer_def after_run_def)
  ultimately show ?thesis
    using r(3,4) by (intro exI [of _ u] exI [of _ q']) (simp add: insert_commute)
qed

text \<open>C13: \<open>cancelInLoop\<close> of a queued timer takes it out of both sets and frees it, whatever its
  position; every other timer stays.\<close>

theorem timer_cancelled:
  assumes "tqs w a = Some q" and "tq_ok q w" and "loops w (tq_loop q) \<noteq> None"
    and "isInLoopThread (tq_loop q) w" and "(p, s) \<in> set (tq_active q)"
  shows "\<exists>w' q'. cancelInLoop a (p, s) w = Inr w' \<and> tqs w' a = Some q' \<and> tq_ok q' w' \<and>
    set (tq_timers q') = {e \<in> set (tq_timers q). snd e \<noteq> p} \<and> timers w' = (timers w)(p := None)"
proof -
  let ?w = "tq_put a (without_timer p q) (tm_put p None w)"
  have "tq_ok (without_timer p q) ?w"
    using tq_ok_without_timer [OF assms(2), of p] tq_ok_timers [of ?w "tm_put p None w"] by simp
  with cancelInLoop_active [OF assms] show ?thesis by (auto simp: without_timer_def)
qed

theorem timer_cancelled_witness:
  "\<exists>w' q'. cancelInLoop 3 (51, 2) example_timerw = Inr w' \<and> tqs w' 3 = Some q' \<and>
     set (tq_timers q') = {(100, 50), (900, 52)} \<and> timers w' 51 = None"
proof -
  have "(51, 2) \<in> set (tq_active example_queue)" by simp
  with timer_cancelled [of example_timerw 3 example_queue 51 2] example_tq_ok
  obtain w' q' where "cancelInLoop 3 (51, 2) example_timerw = Inr w'" "tqs w' 3 = Some q'"
    "set (tq_timers q') = {e \<in> set (tq_timers example_queue). snd e \<noteq> 51}" "timers w' = example_timer(51 := None)"
    by auto
  moreover have "{e \<in> set (tq_timers example_queue). snd e \<noteq> 51} = {(100, 50), (900, 52)}" by auto
  ultimately show ?thesis by simp
qed

text \<open>C14: \<open>cancelInLoop\<close> of a timer that is not queued (it has run, or its own callback cancels it)
  dereferences the pointer found at the end of the set before it looks whether the timer was
  found: unless that happens to be a living timer the behaviour is undefined.\<close>

theorem cancel_of_inactive_timer:
  assumes "tqs w a = Some q" and "tq_ok q w" and "loops w (tq_loop q) \<noteq> None"
    and "isInLoopThread (tq_loop q) w" and "timerId \<notin> set (tq_active q)"
    and "timers w (fst (tq_end_active q)) = None"
  shows "cancelInLoop a timerId w = Inl UndefinedBehaviour"
  by (rule cancelInLoop_inactive [OF assms])

theorem cancel_of_inactive_timer_witness:
  "cancelInLoop 3 (53, 4) example_timerw = Inl UndefinedBehaviour"
  by (rule cancel_of_inactive_timer [OF _ example_tq_ok]) (simp_all add: example_timer_def)

text \<open>C39: the delay written to the timer descriptor for a time in the future is the exact distance
  in nanoseconds, normalised and not zero; for a time that is now it is zero, which disarms the
  descriptor instead of firing it.\<close>

theorem timer_delay:
  assumes "now \<le> expiry" and "in_int64 (expiry - now)"
  shows "\<exists>s n. howLongToExpiration now expiry = Inr (s, n) \<and> 0 \<le> s \<and> 0 \<le> n \<and> n < 10 ^ 9 \<and>
    s * 10 ^ 9 + n = (expiry - now) * 1000 \<and> ((s, n) = (0, 0) \<longleftrightarrow> expiry = now)"
proof (cases "expiry = now")
  case True
  then show ?thesis using delay_now [of now] by simp
next
  case False
  then have "now < expiry" using assms(1) by simp
  from delay_future [OF this assms(2)] show ?thesis using False by blast
qed

theorem timer_delay_witness:
  "\<exists>s n. howLongToExpiration 150 1000150 = Inr (s, n) \<and> s * 10 ^ 9 + n = 10 ^ 9"
  using timer_delay [of 150 1000150] by (auto simp: in_int64_def)

end
