(* ===== verification/Printf.thy ===== *)
theory Printf
  imports Prelude
begin

text \<open>
  The C library's printing of numbers as the sources use it: the conversions \<open>%d\<close>, \<open>%4d\<close> and
  \<open>%06d\<close> of \<open>snprintf\<close>, and facts about decimal text.
\<close>

section \<open>Numbers as text\<close>

text \<open>Decimal text, as \<open>%u\<close> and \<open>%d\<close> print it.\<close>

definition digit_char :: "nat \<Rightarrow> char" where
  "digit_char d = char_of (48 + d)"

fun decimal :: "nat \<Rightarrow> string" where
  "decimal n = (if n < 10 then [digit_char n] else decimal (n div 10) @ [digit_char (n mod 10)])"

declare decimal.simps [simp del]

definition decimal_int :: "int \<Rightarrow> string" where
  "decimal_int i = (if i < 0 then CHR ''-'' # decimal (nat (- i)) else decimal (nat i))"

text \<open>A minimal width, filled with blanks or, after the sign, with zeros.\<close>

definition space_pad :: "nat \<Rightarrow> int \<Rightarrow> string" where
  "space_pad n i = replicate (n - length (decimal_int i)) CHR '' '' @ decimal_int i"

definition zero_pad :: "nat \<Rightarrow> int \<Rightarrow> string" where
  "zero_pad n i = (if i < 0 then CHR ''-'' # replicate (n - 1 - length (decimal (nat (- i)))) CHR ''0'' @ decimal (nat (- i))
     else replicate (n - length (decimal (nat i))) CHR ''0'' @ decimal (nat i))"

text \<open>\<open>snprintf\<close> into an array of \<open>n\<close> bytes keeps what fits before the terminating zero.\<close>

definition snprintf :: "nat \<Rightarrow> string \<Rightarrow> string" where
  "snprintf n s = take (n - 1) s"

definition is_digit :: "char \<Rightarrow> bool" where
  "is_digit c \<longleftrightarrow> 48 \<le> (of_char c :: nat) \<and> (of_char c :: nat) \<le> 57"

definition digit_val :: "char \<Rightarrow> nat" where
  "digit_val c = of_char c - 48"

section \<open>Decimal text\<close>

lemma of_digit_char: "d < 10 \<Longrightarrow> (of_char (digit_char d) :: nat) = 48 + d"
  by (simp add: digit_char_def)

lemma digit_val_char [simp]: "d < 10 \<Longrightarrow> digit_val (digit_char d) = d"
  by (simp add: digit_val_def of_digit_char)

lemma is_digit_char [simp]: "d < 10 \<Longrightarrow> is_digit (digit_char d)"
  by (simp add: is_digit_def of_digit_char)

lemma decimal_digits: "list_all is_digit (decimal n)"
  by (induction n rule: decimal.induct) (subst decimal.simps, simp)

lemma decimal_value: "foldl (\<lambda>n c. 10 * n + digit_val c) 0 (decimal n) = n"
proof (induction n rule: decimal.induct)
  case (1 n)
  show ?case
  proof (cases "n < 10")
    case False
    with 1 have "foldl (\<lambda>n c. 10 * n + digit_val c) 0 (decimal (n div 10)) = n div 10" by simp
    with False show ?thesis by (subst decimal.simps) simp
  qed (subst decimal.simps, simp)
qed

lemma decimal_nonempty [simp]: "decimal n \<noteq> []"
  by (subst decimal.simps) simp

lemma decimal_inj: "decimal m = decimal n \<Longrightarrow> m = n"
  by (metis decimal_value)

lemma decimal_no_zero: "10 \<le> n \<Longrightarrow> hd (decimal n) \<noteq> CHR ''0''"
proof (induction n rule: decimal.induct)
  case (1 n)
  have eq: "decimal n = decimal (n div 10) @ [digit_char (n mod 10)]"
    using "1.prems" by (subst decimal.simps) simp
  show ?case
  proof (cases "n div 10 < 10")
    case True
    then have "decimal (n div 10) = [digit_char (n div 10)]" by (subst decimal.simps) simp
    moreover have "n div 10 \<noteq> 0" using "1.prems" by simp
    then have "(of_char (digit_char (n div 10)) :: nat) \<noteq> of_char CHR ''0''"
      using of_digit_char [OF True] by simp
    ultimately show ?thesis by (auto simp: eq)
  next
    case False
    with 1 have "hd (decimal (n div 10)) \<noteq> CHR ''0''" by simp
    then show ?thesis by (simp add: eq)
  qed
qed

lemma decimal_longer: "length (decimal m) \<le> length (decimal n)" if "m \<le> n"
  using that
proof (induction n arbitrary: m rule: decimal.induct)
  case (1 n)
  show ?case
  proof (cases "m < 10")
    case True
    have "1 \<le> length (decimal n)" by (cases "decimal n") auto
    with True show ?thesis by (subst decimal.simps) simp
  next
    case False
    then have "\<not> n < 10" "m div 10 \<le> n div 10" using 1(2) by (auto intro: div_le_mono)
    with 1(1) have "length (decimal (m div 10)) \<le> length (decimal (n div 10))" by blast
    with False \<open>\<not> n < 10\<close> show ?thesis
      by (subst decimal.simps [of m], subst decimal.simps [of n]) simp
  qed
qed

lemma decimal_digit: "n < 10 \<Longrightarrow> decimal n = [digit_char n]"
  by (subst decimal.simps) simp

lemma digit_one: "digit_char (Suc 0) = CHR ''1''"
  by code_simp

lemma length_decimal: "10 ^ k \<le> n \<Longrightarrow> n < 10 ^ Suc k \<Longrightarrow> length (decimal n) = Suc k"
proof (induction k arbitrary: n)
  case 0
  then show ?case by (simp add: decimal_digit)
next
  case (Suc k)
  have "10 ^ k \<le> n div 10" using Suc.prems(1) by (simp add: less_eq_div_iff_mult_less_eq mult.commute)
  moreover have "n div 10 < 10 ^ Suc k" using Suc.prems(2) by (simp add: less_mult_imp_div_less mult.commute)
  moreover have "(1 :: nat) \<le> 10 ^ k" by simp
  then have "10 \<le> n" using Suc.prems(1) unfolding power_Suc by linarith
  then have "decimal n = decimal (n div 10) @ [digit_char (n mod 10)]" by (subst decimal.simps) simp
  ultimately show ?case using Suc.IH by simp
qed

text \<open>Numbers with a fixed number of digits.\<close>

fun digits :: "nat \<Rightarrow> nat \<Rightarrow> string" where
  "digits 0 n = []"
| "digits (Suc k) n = digits k (n div 10) @ [digit_char (n mod 10)]"

lemma length_digits [simp]: "length (digits k n) = k"
  by (induction k arbitrary: n) simp_all

lemma digits_zero: "digits k 0 = replicate k (digit_char 0)"
  by (induction k) (simp_all add: replicate_append_same)

lemma digits_decimal:
  assumes "n < 10 ^ Suc k"
  shows "replicate (Suc k - length (decimal n)) (digit_char 0) @ decimal n = digits (Suc k) n"
  using assms
proof (induction k arbitrary: n)
  case 0
  then show ?case by (simp add: decimal_digit)
next
  case (Suc k)
  show ?case
  proof (cases "n < 10")
    case True
    then show ?thesis using digits_zero [of "Suc k"] by (simp add: decimal_digit del: digits.simps(2)) (simp add: replicate_append_same)
  next
    case False
    then have d: "decimal n = decimal (n div 10) @ [digit_char (n mod 10)]" by (subst decimal.simps) simp
    have "n div 10 < 10 ^ Suc k" using Suc.prems by (simp add: less_mult_imp_div_less mult.commute)
    from Suc.IH [OF this] show ?thesis by (simp add: d del: digits.simps(2)) (simp add: digits.simps(2) [of "Suc k"])
  qed
qed

definition decimal_value :: "string \<Rightarrow> nat" where
  "decimal_value s = foldl (\<lambda>n c. 10 * n + digit_val c) 0 s"

lemma decimal_value_decimal [simp]: "decimal_value (decimal n) = n"
  by (simp add: decimal_value_def decimal_value)

lemma decimal_value_digits: "decimal_value (digits k n) = n mod 10 ^ k"
proof (induction k arbitrary: n)
  case (Suc k)
  then show ?case using mod_mult2_eq [of n 10 "10 ^ k"] by (simp add: decimal_value_def)
qed (simp add: decimal_value_def)

lemma digits_digits: "list_all is_digit (digits k n)"
  by (induction k arbitrary: n) simp_all

lemma digit_char_values:
  "digit_char 0 = CHR ''0''" "digit_char (Suc 0) = CHR ''1''" "digit_char 2 = CHR ''2''" "digit_char 3 = CHR ''3''"
  "digit_char 4 = CHR ''4''" "digit_char 5 = CHR ''5''" "digit_char 6 = CHR ''6''" "digit_char 7 = CHR ''7''"
  "digit_char 8 = CHR ''8''" "digit_char 9 = CHR ''9''"
  by code_simp+

lemma digit_char_zero: "digit_char 0 = CHR ''0''"
  by code_simp

lemma zero_pad_digits: "n < 10 ^ Suc k \<Longrightarrow> zero_pad (Suc k) (int n) = digits (Suc k) n"
  using digits_decimal [of n k] by (simp add: zero_pad_def digit_char_zero)

end
