(* ===== verification/Socket_Ops.thy ===== *)
theory Socket_Ops
  imports Kernel Printf "HOL-Library.Word"
begin

unbundle bit_operations_syntax

text \<open>
  \<^verbatim>\<open>net/SocketOpts.h\<close>, \<^verbatim>\<open>net/SocketOpts.cc\<close>, \<^verbatim>\<open>net/Socket.cc\<close> and
  \<^verbatim>\<open>net/InetAddress.cc\<close>: the wrappers of the socket calls with their error handling, IPv4
  addresses in network byte order, and their textual form. Both parts of an address are kept as
  the words in memory of a little-endian machine, as \<open>sockaddr_in\<close> holds them.
\<close>

section \<open>Byte order\<close>

definition hostToNetwork16 :: "16 word \<Rightarrow> 16 word" where
  "hostToNetwork16 x = push_bit 8 x OR drop_bit 8 x"

definition networkToHost16 :: "16 word \<Rightarrow> 16 word" where
  "networkToHost16 x = push_bit 8 x OR drop_bit 8 x"

definition hostToNetwork32 :: "32 word \<Rightarrow> 32 word" where
  "hostToNetwork32 x =
     push_bit 24 x OR push_bit 16 (take_bit 8 (drop_bit 8 x)) OR
     push_bit 8 (take_bit 8 (drop_bit 16 x)) OR drop_bit 24 x"

definition networkToHost32 :: "32 word \<Rightarrow> 32 word" where
  "networkToHost32 x = hostToNetwork32 x"

section \<open>Addresses\<close>

record inet_address =
  sin_port :: "16 word"
  sin_addr :: "32 word"

definition zero_address :: inet_address where
  "zero_address = \<lparr>sin_port = 0, sin_addr = 0\<rparr>"

definition INADDR_ANY :: "32 word" where "INADDR_ANY = 0"

definition inet_any :: "16 word \<Rightarrow> inet_address" where
  "inet_any port = zero_address\<lparr>sin_addr := hostToNetwork32 INADDR_ANY, sin_port := hostToNetwork16 port\<rparr>"

definition addr_byte :: "nat \<Rightarrow> 32 word \<Rightarrow> nat" where
  "addr_byte i a = unat (drop_bit (8 * i) a) mod 256"

text \<open>\<open>inet_ntop\<close> and \<open>inet_pton\<close> of the C library, for IPv4.\<close>

definition inet_ntop :: "32 word \<Rightarrow> string" where
  "inet_ntop a = decimal (addr_byte 0 a) @ ''.'' @ decimal (addr_byte 1 a) @ ''.'' @
     decimal (addr_byte 2 a) @ ''.'' @ decimal (addr_byte 3 a)"

text \<open>One octet: a number up to 255 without a leading zero.\<close>

definition parse_octet :: "string \<Rightarrow> nat option" where
  "parse_octet s =
     (let v = foldl (\<lambda>n c. 10 * n + digit_val c) 0 s
      in if s \<noteq> [] \<and> list_all is_digit s \<and> (length s = 1 \<or> hd s \<noteq> CHR ''0'') \<and> v \<le> 255
         then Some v else None)"

fun split_at_char :: "char \<Rightarrow> string \<Rightarrow> string list" where
  "split_at_char d [] = [[]]"
| "split_at_char d (c # s) =
     (if c = d then [] # split_at_char d s
      else case split_at_char d s of [] \<Rightarrow> [[c]] | w # ws \<Rightarrow> (c # w) # ws)"

definition inet_pton :: "string \<Rightarrow> 32 word option" where
  "inet_pton s =
     (case map parse_octet (split_at_char CHR ''.'' s) of
        [Some a, Some b, Some c, Some d] \<Rightarrow>
          Some (of_nat (a + 256 * b + 65536 * c + 16777216 * d))
      | _ \<Rightarrow> None)"

definition toHostPort :: "nat \<Rightarrow> inet_address \<Rightarrow> string" where
  "toHostPort n a = snprintf n (inet_ntop (sin_addr a) @ '':'' @ decimal (unat (networkToHost16 (sin_port a))))"

definition inet_toHostPort :: "inet_address \<Rightarrow> string" where
  "inet_toHostPort a = toHostPort 32 a"

text \<open>An address that does not parse is reported and left as it was.\<close>

definition fromHostPort :: "string \<Rightarrow> 16 word \<Rightarrow> inet_address \<Rightarrow> inet_address" where
  "fromHostPort ip port addr =
     (let addr' = addr\<lparr>sin_port := hostToNetwork16 port\<rparr>
      in case inet_pton ip of None \<Rightarrow> addr' | Some a \<Rightarrow> addr'\<lparr>sin_addr := a\<rparr>)"

definition inet_from :: "string \<Rightarrow> 16 word \<Rightarrow> inet_address" where
  "inet_from ip port = fromHostPort ip port zero_address"

section \<open>Socket calls\<close>

definition EINTR :: int where "EINTR = 4"
definition EBADF :: int where "EBADF = 9"
definition EAGAIN :: int where "EAGAIN = 11"
definition EACCES :: int where "EACCES = 13"
definition EPERM :: int where "EPERM = 1"
definition EPROTO :: int where "EPROTO = 71"
definition EADDRINUSE :: int where "EADDRINUSE = 98"
definition EADDRNOTAVAIL :: int where "EADDRNOTAVAIL = 99"
definition ENETUNREACH :: int where "ENETUNREACH = 101"
definition ECONNABORTED :: int where "ECONNABORTED = 103"
definition EISCONN :: int where "EISCONN = 106"
definition ECONNREFUSED :: int where "ECONNREFUSED = 111"
definition EINPROGRESS :: int where "EINPROGRESS = 115"
definition O_NONBLOCK :: int where "O_NONBLOCK = 0x800"
definition FD_CLOEXEC :: int where "FD_CLOEXEC = 1"

lemmas errno_defs = EINTR_def EBADF_def EAGAIN_def EACCES_def EPERM_def EPROTO_def EADDRINUSE_def
  EADDRNOTAVAIL_def ENETUNREACH_def ECONNABORTED_def EISCONN_def ECONNREFUSED_def EINPROGRESS_def

definition setNonBlockAndCloseOnExec :: "int \<Rightarrow> 'z kworld_scheme \<Rightarrow> 'z kworld_scheme" where
  "setNonBlockAndCloseOnExec fd w =
     (let (r, w1) = sys (SysFcntlGetfl fd) w;
          w2 = snd (sys (SysFcntlSetfl fd (kret r OR O_NONBLOCK)) w1);
          (r', w3) = sys (SysFcntlGetfd fd) w2
      in snd (sys (SysFcntlSetfd fd (kret r' OR FD_CLOEXEC)) w3))"

definition createNonblockingOrDie :: "'z kworld_scheme \<Rightarrow> (int \<times> 'z kworld_scheme) res" where
  "createNonblockingOrDie w =
     (let (r, w1) = sys SysSocket w
      in if kret r < 0 then Inl FatalLog else Inr (kret r, setNonBlockAndCloseOnExec (kret r) w1))"

definition sk_connect :: "int \<Rightarrow> inet_address \<Rightarrow> 'z kworld_scheme \<Rightarrow> kres \<times> 'z kworld_scheme" where
  "sk_connect fd a w = sys (SysConnect fd (sin_port a) (sin_addr a)) w"

definition bindOrDie :: "int \<Rightarrow> inet_address \<Rightarrow> 'z kworld_scheme \<Rightarrow> 'z kworld_scheme res" where
  "bindOrDie fd a w =
     (let (r, w1) = sys (SysBind fd (sin_port a) (sin_addr a)) w
      in if kret r < 0 then Inl FatalLog else Inr w1)"

definition listenOrDie :: "int \<Rightarrow> 'z kworld_scheme \<Rightarrow> 'z kworld_scheme res" where
  "listenOrDie fd w = (let (r, w1) = sys (SysListen fd) w in if kret r < 0 then Inl FatalLog else Inr w1)"

definition accept_transient :: "int set" where
  "accept_transient = {EAGAIN, ECONNABORTED, EINTR, EPROTO, EPERM}"

definition sk_accept :: "int \<Rightarrow> 'z kworld_scheme \<Rightarrow> (int \<times> inet_address \<times> 'z kworld_scheme) res" where
  "sk_accept fd w =
     (let (r, w1) = sys (SysAccept fd) w
      in if kret r < 0
         then if kerrno r \<in> accept_transient then Inr (kret r, zero_address, w1) else Inl FatalLog
         else Inr (kret r, \<lparr>sin_port = kport r, sin_addr = kaddr r\<rparr>, w1))"

text \<open>\<open>Socket::accept\<close>: the caller's address is set only for a positive descriptor.\<close>

definition socket_accept ::
  "int \<Rightarrow> inet_address \<Rightarrow> 'z kworld_scheme \<Rightarrow> (int \<times> inet_address \<times> 'z kworld_scheme) res" where
  "socket_accept fd peer w =
     bindR (sk_accept fd w) (\<lambda>(connfd, addr, w1). Inr (connfd, if connfd > 0 then addr else peer, w1))"

definition sk_close :: "int \<Rightarrow> 'z kworld_scheme \<Rightarrow> 'z kworld_scheme res" where
  "sk_close fd w = (let (r, w1) = sys (SysClose fd) w in if kret r < 0 then Inl FatalLog else Inr w1)"

definition shutdownWrite :: "int \<Rightarrow> 'z kworld_scheme \<Rightarrow> 'z kworld_scheme res" where
  "shutdownWrite fd w = (let (r, w1) = sys (SysShutdownWr fd) w in if kret r < 0 then Inl FatalLog else Inr w1)"

definition getSocketError :: "int \<Rightarrow> 'z kworld_scheme \<Rightarrow> int \<times> 'z kworld_scheme" where
  "getSocketError fd w =
     (let (r, w1) = sys (SysGetSoError fd) w in (if kret r < 0 then kerrno r else kfst r, w1))"

definition getLocalAddr :: "int \<Rightarrow> 'z kworld_scheme \<Rightarrow> inet_address \<times> 'z kworld_scheme" where
  "getLocalAddr fd w =
     (let (r, w1) = sys (SysGetsockname fd) w
      in (if kret r < 0 then zero_address else \<lparr>sin_port = kport r, sin_addr = kaddr r\<rparr>, w1))"

definition getPeerAddr :: "int \<Rightarrow> 'z kworld_scheme \<Rightarrow> inet_address \<times> 'z kworld_scheme" where
  "getPeerAddr fd w =
     (let (r, w1) = sys (SysGetpeername fd) w
      in (if kret r < 0 then zero_address else \<lparr>sin_port = kport r, sin_addr = kaddr r\<rparr>, w1))"

definition isSelfConnect :: "int \<Rightarrow> 'z kworld_scheme \<Rightarrow> bool \<times> 'z kworld_scheme" where
  "isSelfConnect fd w =
     (let (localaddr, w1) = getLocalAddr fd w; (peeraddr, w2) = getPeerAddr fd w1
      in (sin_port localaddr = sin_port peeraddr \<and> sin_addr localaddr = sin_addr peeraddr, w2))"

definition IPPROTO_TCP :: int where "IPPROTO_TCP = 6"
definition TCP_NODELAY :: int where "TCP_NODELAY = 1"
definition SOL_SOCKET :: int where "SOL_SOCKET = 1"
definition SO_REUSEADDR :: int where "SO_REUSEADDR = 2"

definition setTcpNoDelay :: "int \<Rightarrow> bool \<Rightarrow> 'z kworld_scheme \<Rightarrow> 'z kworld_scheme" where
  "setTcpNoDelay fd on w = snd (sys (SysSetsockopt fd IPPROTO_TCP TCP_NODELAY on) w)"

definition setReuseAddr :: "int \<Rightarrow> bool \<Rightarrow> 'z kworld_scheme \<Rightarrow> 'z kworld_scheme" where
  "setReuseAddr fd on w = snd (sys (SysSetsockopt fd SOL_SOCKET SO_REUSEADDR on) w)"

section \<open>Byte order is an involution\<close>

lemma swap16_swap16: "networkToHost16 (hostToNetwork16 x) = x"
  by (rule bit_word_eqI) (auto simp: networkToHost16_def hostToNetwork16_def bit_simps)

lemma swap32_swap32: "networkToHost32 (hostToNetwork32 x) = x"
proof (rule bit_word_eqI)
  have swap: "bit (hostToNetwork32 y) k = (if k < 8 then bit y (k + 24) else if k < 16 then bit y (k + 8)
      else if k < 24 then bit y (k - 8) else bit y (k - 24))" if "k < 32" for y and k :: nat
    using that by (auto simp: hostToNetwork32_def bit_simps add.commute dest: bit_imp_le_length)
  fix n assume "n < LENGTH(32)"
  then show "bit (networkToHost32 (hostToNetwork32 x)) n = bit x n"
    by (auto simp: networkToHost32_def swap)
qed

section \<open>Addresses as text\<close>

lemma parse_decimal: "n \<le> 255 \<Longrightarrow> parse_octet (decimal n) = Some n"
proof -
  assume n: "n \<le> 255"
  have "length (decimal n) = 1 \<or> hd (decimal n) \<noteq> CHR ''0''"
  proof (cases "n < 10")
    case True
    then show ?thesis by (subst (1) decimal.simps) simp
  next
    case False
    then show ?thesis using decimal_no_zero by simp
  qed
  with n show ?thesis by (simp add: parse_octet_def decimal_digits decimal_value)
qed

lemma dot_no_digit [simp]: "\<not> is_digit CHR ''.''"
  by (simp add: is_digit_def)

lemma split_word: "list_all is_digit s \<Longrightarrow> split_at_char CHR ''.'' s = [s]"
  by (induction s) auto

lemma split_more: "list_all is_digit s \<Longrightarrow>
    split_at_char CHR ''.'' (s @ CHR ''.'' # r) = s # split_at_char CHR ''.'' r"
  by (induction s) auto

lemma split_ntop: "split_at_char CHR ''.'' (inet_ntop a) =
    [decimal (addr_byte 0 a), decimal (addr_byte 1 a), decimal (addr_byte 2 a), decimal (addr_byte 3 a)]"
  by (simp add: inet_ntop_def split_more split_word decimal_digits)

lemma addr_byte_le: "addr_byte i a \<le> 255"
proof -
  have "addr_byte i a < 256" by (simp add: addr_byte_def)
  then show ?thesis by simp
qed

lemma addr_bytes: "of_nat (addr_byte 0 a + 256 * addr_byte 1 a + 65536 * addr_byte 2 a + 16777216 * addr_byte 3 a) = a"
proof -
  define u where "u = unat a"
  have u: "u < 2 ^ 32" using unsigned_less [of a] by (simp add: u_def)
  have byte: "addr_byte i a = u div 2 ^ (8 * i) mod 256" for i
    unfolding addr_byte_def u_def unat_drop_bit_eq unfolding drop_bit_eq_div ..
  have d: "u div 65536 = u div 256 div 256" "u div 16777216 = u div 256 div 256 div 256"
    by (simp_all add: div_mult2_eq [symmetric])
  define x y z where "x = u div 256" and "y = x div 256" and "z = y div 256"
  have "z < 256" using u by (simp add: x_def y_def z_def div_mult2_eq [symmetric] less_mult_imp_div_less)
  moreover have "u = 256 * x + u mod 256" "x = 256 * y + x mod 256" "y = 256 * z + y mod 256"
    by (simp_all add: x_def y_def z_def)
  ultimately have "u = u mod 256 + 256 * (x mod 256) + 65536 * (y mod 256) + 16777216 * (z mod 256)"
    by simp
  then have "u = u mod 256 + 256 * (u div 256 mod 256) + 65536 * (u div 65536 mod 256) + 16777216 * (u div 16777216 mod 256)"
    unfolding d x_def y_def z_def .
  moreover have "addr_byte 0 a = u mod 256" "addr_byte 1 a = u div 256 mod 256"
    "addr_byte 2 a = u div 65536 mod 256" "addr_byte 3 a = u div 16777216 mod 256"
    by (simp_all add: byte)
  ultimately have "addr_byte 0 a + 256 * addr_byte 1 a + 65536 * addr_byte 2 a + 16777216 * addr_byte 3 a = u"
    by (simp only:)
  then show ?thesis by (simp only: u_def of_nat_unat ucast_id)
qed

lemma pton_ntop: "inet_pton (inet_ntop a) = Some a"
  using addr_bytes [of a] by (simp add: inet_pton_def split_ntop parse_decimal addr_byte_le)

section \<open>Properties\<close>

text \<open>The textual form of an address is faithful: parsing what \<open>inet_ntop\<close> prints gives the
  address back, so an \<open>InetAddress\<close> built from the text of another and its port is the same
  address, for every address and port.\<close>

theorem address_text_roundtrip:
  "inet_pton (inet_ntop (sin_addr a)) = Some (sin_addr a) \<and>
   inet_from (inet_ntop (sin_addr a)) (networkToHost16 (sin_port a)) = a"
proof -
  have "hostToNetwork16 (networkToHost16 p) = p" for p
    by (rule bit_word_eqI) (auto simp: networkToHost16_def hostToNetwork16_def bit_simps)
  then show ?thesis by (cases a) (simp add: inet_from_def fromHostPort_def pton_ntop zero_address_def)
qed

end
