(* ===== verification/Tcp_Connection.thy ===== *)
theory Tcp_Connection
  imports Timer_Queue Buffer Socket_Ops
begin

text \<open>
  \<^verbatim>\<open>net/TcpConnection.h\<close> and \<^verbatim>\<open>net/TcpConnection.cc\<close>: one connection, its state, its two
  buffers and its channel. Callbacks set by the users of a connection are identified by numbers
  (the close callbacks by the \<open>bind\<close> expressions of server and client), and what they do is the
  argument \<open>hooks\<close>. Calling a callback that was never set throws, as \<open>boost::function\<close> does. The
  lifetime of a connection (\<open>shared_ptr\<close>) is not modelled: the object stays at its address.
\<close>

section \<open>State\<close>

datatype conn_state = KConnected | KConnecting | KDisconnected | KDisconnecting

datatype close_cb = CloseServer nat | CloseClient nat

record tcp_connection =
  tc_state :: conn_state
  tc_loop :: nat
  tc_name :: string
  tc_socket :: int
  tc_channel :: nat
  tc_peerAddr :: inet_address
  tc_localAddr :: inet_address
  tc_input :: buffer
  tc_output :: buffer
  tc_connectionCb :: "nat option"
  tc_messageCb :: "nat option"
  tc_writeCompleteCb :: "nat option"
  tc_closeCb :: "close_cb option"
  tc_context :: "string set option"

record netw = timerw +
  conns :: "nat \<Rightarrow> tcp_connection option"

record 'w hooks =
  on_connection :: "nat \<Rightarrow> nat \<Rightarrow> 'w \<Rightarrow> 'w res"
  on_message :: "nat \<Rightarrow> nat \<Rightarrow> timestamp \<Rightarrow> 'w \<Rightarrow> 'w res"
  on_close :: "close_cb \<Rightarrow> nat \<Rightarrow> 'w \<Rightarrow> 'w res"

definition tc_get :: "nat \<Rightarrow> 'z netw_scheme \<Rightarrow> tcp_connection res" where
  "tc_get a w = (case conns w a of None \<Rightarrow> Inl UndefinedBehaviour | Some c \<Rightarrow> Inr c)"

definition tc_mod :: "nat \<Rightarrow> (tcp_connection \<Rightarrow> tcp_connection) \<Rightarrow> 'z netw_scheme \<Rightarrow> 'z netw_scheme" where
  "tc_mod a f w = w\<lparr>conns := (conns w)(a := map_option f (conns w a))\<rparr>"

text \<open>\<open>loop_->assertInLoopThread()\<close>\<close>

definition in_loop :: "nat \<Rightarrow> 'z netw_scheme \<Rightarrow> 'a res \<Rightarrow> 'a res" where
  "in_loop l w k = bindR (el_get l w) (\<lambda>_. inLoopThread l w k)"

definition call_hook :: "'i option \<Rightarrow> ('i \<Rightarrow> 'w res) \<Rightarrow> 'w res" where
  "call_hook cb f = (case cb of None \<Rightarrow> Inl CppException | Some i \<Rightarrow> f i)"

definition setState :: "conn_state \<Rightarrow> tcp_connection \<Rightarrow> tcp_connection" where
  "setState s c = c\<lparr>tc_state := s\<rparr>"

section \<open>Construction\<close>

text \<open>The constructor; \<open>a\<close> and \<open>ch\<close> are the addresses of the connection and of its channel.\<close>

definition new_connection ::
  "nat \<Rightarrow> nat \<Rightarrow> nat \<Rightarrow> string \<Rightarrow> int \<Rightarrow> inet_address \<Rightarrow> inet_address \<Rightarrow> 'z netw_scheme \<Rightarrow> 'z netw_scheme" where
  "new_connection a ch loop name sockfd peerAddr localAddr w =
     (let channel = setErrorCallback (Some (CbConnError a)) (setCloseCallback (Some (CbConnClose a))
            (setWriteCallback (Some (CbConnWrite a)) (setReadCallback (Some (CbConnRead a))
              (new_channel loop sockfd))));
          conn = \<lparr>tc_state = KConnecting, tc_loop = loop, tc_name = name, tc_socket = sockfd,
            tc_channel = ch, tc_peerAddr = peerAddr, tc_localAddr = localAddr, tc_input = new_buffer,
            tc_output = new_buffer, tc_connectionCb = None, tc_messageCb = None,
            tc_writeCompleteCb = None, tc_closeCb = None, tc_context = None\<rparr>
      in (ch_put ch channel w)\<lparr>conns := (conns w)(a \<mapsto> conn)\<rparr>)"

definition setConnectionCallback :: "nat option \<Rightarrow> tcp_connection \<Rightarrow> tcp_connection" where
  "setConnectionCallback cb c = c\<lparr>tc_connectionCb := cb\<rparr>"

definition setCloseCallback_conn :: "close_cb option \<Rightarrow> tcp_connection \<Rightarrow> tcp_connection" where
  "setCloseCallback_conn cb c = c\<lparr>tc_closeCb := cb\<rparr>"

definition setWriteCompleteCallback :: "nat option \<Rightarrow> tcp_connection \<Rightarrow> tcp_connection" where
  "setWriteCompleteCallback cb c = c\<lparr>tc_writeCompleteCb := cb\<rparr>"

definition setMessageCallback :: "nat option \<Rightarrow> tcp_connection \<Rightarrow> tcp_connection" where
  "setMessageCallback cb c = c\<lparr>tc_messageCb := cb\<rparr>"

definition setContext :: "string set option \<Rightarrow> tcp_connection \<Rightarrow> tcp_connection" where
  "setContext x c = c\<lparr>tc_context := x\<rparr>"

definition connected :: "tcp_connection \<Rightarrow> bool" where
  "connected c \<longleftrightarrow> tc_state c = KConnected"

section \<open>Sending\<close>

definition queueWriteComplete :: "nat \<Rightarrow> tcp_connection \<Rightarrow> 'z netw_scheme \<Rightarrow> 'z netw_scheme res" where
  "queueWriteComplete a c w =
     (if tc_writeCompleteCb c \<noteq> None then queueInLoop (tc_loop c) (FnWriteComplete a) w else Inr w)"

definition sendInLoop :: "nat \<Rightarrow> string \<Rightarrow> 'z netw_scheme \<Rightarrow> 'z netw_scheme res" where
  "sendInLoop a message w = bindR (tc_get a w) (\<lambda>c. in_loop (tc_loop c) w
     (bindR (ch_get (tc_channel c) w) (\<lambda>ch.
        let len = int (length message)
        in bindR (if \<not> isWriting ch \<and> readableBytes (tc_output c) = 0
                  then let (r, w1) = sys (SysWrite (ch_fd ch) message) w
                       in if kret r \<ge> 0
                          then if size_t (kret r) < len then Inr (kret r, w1)
                               else bindR (queueWriteComplete a c w1) (\<lambda>w2. Inr (kret r, w2))
                          else Inr (0, w1)
                  else Inr (0, w))
             (\<lambda>(nwrite, w3). assertR (nwrite \<ge> 0)
               (if size_t nwrite < len
                then bindR (append_bytes (drop (nat nwrite) message) (tc_output c)) (\<lambda>out.
                       let w4 = tc_mod a (\<lambda>c. c\<lparr>tc_output := out\<rparr>) w3
                       in bindR (ch_get (tc_channel c) w4) (\<lambda>ch4.
                            if \<not> isWriting ch4 then enableWriting (tc_channel c) w4 else Inr w4))
                else Inr w3)))))"

text \<open>\<open>send\<close>, of a string or a block, and of the contents of a buffer.\<close>

definition tc_send :: "nat \<Rightarrow> string \<Rightarrow> 'z netw_scheme \<Rightarrow> 'z netw_scheme res" where
  "tc_send a message w = bindR (tc_get a w) (\<lambda>c.
     if tc_state c = KConnected
     then bindR (el_get (tc_loop c) w) (\<lambda>_.
            if isInLoopThread (tc_loop c) w then sendInLoop a message w
            else runInLoop (tc_loop c) (FnSend a message) (sendInLoop a message) w)
     else Inr w)"

definition tc_send_buffer :: "nat \<Rightarrow> buffer \<Rightarrow> 'z netw_scheme \<Rightarrow> (buffer \<times> 'z netw_scheme) res" where
  "tc_send_buffer a b w = bindR (tc_get a w) (\<lambda>c.
     if tc_state c = KConnected
     then bindR (el_get (tc_loop c) w) (\<lambda>_.
            if isInLoopThread (tc_loop c) w
            then bindR (read_range (peek b) (peek b + readableBytes b) (bytes b)) (\<lambda>message.
                   bindR (sendInLoop a message w) (\<lambda>w'. Inr (retrieveAll b, w')))
            else bindR (retrieveAsString b) (\<lambda>(message, b').
                   bindR (runInLoop (tc_loop c) (FnSend a message) (sendInLoop a message) w) (\<lambda>w'.
                     Inr (b', w'))))
     else Inr (b, w))"

section \<open>Shutting down\<close>

definition shutdownInLoop :: "nat \<Rightarrow> 'z netw_scheme \<Rightarrow> 'z netw_scheme res" where
  "shutdownInLoop a w = bindR (tc_get a w) (\<lambda>c. in_loop (tc_loop c) w
     (bindR (ch_get (tc_channel c) w) (\<lambda>ch.
        if \<not> isWriting ch then shutdownWrite (tc_socket c) w else Inr w)))"

definition tc_shutdown :: "nat \<Rightarrow> 'z netw_scheme \<Rightarrow> 'z netw_scheme res" where
  "tc_shutdown a w = bindR (tc_get a w) (\<lambda>c.
     if tc_state c = KConnected
     then runInLoop (tc_loop c) (FnShutdown a) (shutdownInLoop a) (tc_mod a (setState KDisconnecting) w)
     else Inr w)"

section \<open>Handlers\<close>

definition handleClose :: "'z netw_scheme hooks \<Rightarrow> nat \<Rightarrow> 'z netw_scheme \<Rightarrow> 'z netw_scheme res" where
  "handleClose hk a w = bindR (tc_get a w) (\<lambda>c. in_loop (tc_loop c) w
     (bindR (disableAll (tc_channel c) (tc_mod a (setState KDisconnected) w)) (\<lambda>w1.
        bindR (tc_get a w1) (\<lambda>c1. call_hook (tc_closeCb c1) (\<lambda>cb. on_close hk cb a w1)))))"

text \<open>What \<open>readv\<close> delivers: \<open>readFd\<close> sees the error or the bytes.\<close>

definition readv_input :: "kres \<Rightarrow> int + string" where
  "readv_input r = (if kret r < 0 then Inl (kerrno r) else Inr (kdata r))"

definition handleRead ::
  "'z netw_scheme hooks \<Rightarrow> nat \<Rightarrow> timestamp \<Rightarrow> 'z netw_scheme \<Rightarrow> 'z netw_scheme res" where
  "handleRead hk a receiveTime w = bindR (tc_get a w) (\<lambda>c. in_loop (tc_loop c) w
     (bindR (ch_get (tc_channel c) w) (\<lambda>ch.
        let (r, w1) = sys (SysReadv (ch_fd ch) (writeableBytes (tc_input c) + extrabuf_size)) w
        in bindR (readFd (readv_input r) (tc_input c)) (\<lambda>(nread, _, input).
             let w2 = tc_mod a (\<lambda>c. c\<lparr>tc_input := input\<rparr>) w1
             in if nread > 0
                then call_hook (tc_messageCb c) (\<lambda>cb. on_message hk cb a receiveTime w2)
                else if nread = 0 then handleClose hk a w2
                else Inr w2))))"

definition handleWrite :: "nat \<Rightarrow> 'z netw_scheme \<Rightarrow> 'z netw_scheme res" where
  "handleWrite a w = bindR (tc_get a w) (\<lambda>c. in_loop (tc_loop c) w
     (bindR (ch_get (tc_channel c) w) (\<lambda>ch.
        if isWriting ch
        then bindR (read_range (peek (tc_output c)) (peek (tc_output c) + readableBytes (tc_output c))
                      (bytes (tc_output c))) (\<lambda>data.
               let (r, w1) = sys (SysWrite (ch_fd ch) data) w
               in if kret r > 0
                  then bindR (retrieve (kret r) (tc_output c)) (\<lambda>out.
                         let w2 = tc_mod a (\<lambda>c. c\<lparr>tc_output := out\<rparr>) w1
                         in if readableBytes out = 0
                            then bindR (disableWriting (tc_channel c) w2) (\<lambda>w3.
                                 bindR (queueWriteComplete a c w3) (\<lambda>w4.
                                   if tc_state c = KDisconnecting then tc_shutdown a w4 else Inr w4))
                            else Inr w2)
                  else Inr w1)
        else Inr w)))"

definition handleError :: "nat \<Rightarrow> 'z netw_scheme \<Rightarrow> 'z netw_scheme res" where
  "handleError a w = bindR (tc_get a w) (\<lambda>c. bindR (ch_get (tc_channel c) w) (\<lambda>ch.
     Inr (snd (getSocketError (ch_fd ch) w))))"

section \<open>Establishing and destroying\<close>

definition connectionEstablished :: "'z netw_scheme hooks \<Rightarrow> nat \<Rightarrow> 'z netw_scheme \<Rightarrow> 'z netw_scheme res" where
  "connectionEstablished hk a w = bindR (tc_get a w) (\<lambda>c. in_loop (tc_loop c) w
     (assertR (tc_state c = KConnecting)
       (bindR (enableReading (tc_channel c) (tc_mod a (setState KConnected) w)) (\<lambda>w1.
          case tc_connectionCb c of None \<Rightarrow> Inr w1 | Some cb \<Rightarrow> on_connection hk cb a w1))))"

definition connectionDestroyed :: "'z netw_scheme hooks \<Rightarrow> nat \<Rightarrow> 'z netw_scheme \<Rightarrow> 'z netw_scheme res" where
  "connectionDestroyed hk a w = bindR (tc_get a w) (\<lambda>c. in_loop (tc_loop c) w
     (bindR (if tc_state c = KConnecting
             then bindR (disableAll (tc_channel c) (tc_mod a (setState KDisconnected) w)) (\<lambda>w1.
                    bindR (tc_get a w1) (\<lambda>c1. call_hook (tc_connectionCb c1) (\<lambda>cb. on_connection hk cb a w1)))
             else Inr w) (\<lambda>w2. el_removeChannel (tc_loop c) (tc_channel c) w2)))"

section \<open>The bytes that went out\<close>

text \<open>
  \<open>sent\<close> replays the calls made: a \<open>write\<close> that returned \<open>n\<close> took the first \<open>n\<close> bytes. The
  manual of \<open>write(2)\<close> promises that \<open>n\<close> is at most what was offered.
\<close>

definition write_part :: "(syscall list \<Rightarrow> syscall \<Rightarrow> kres) \<Rightarrow> int \<Rightarrow> syscall list \<Rightarrow> syscall \<Rightarrow> string" where
  "write_part k fd older call = (case call of
     SysWrite fd' data \<Rightarrow> if fd' = fd then take (nat (kret (k older call))) data else []
   | _ \<Rightarrow> [])"

fun sent_rev :: "(syscall list \<Rightarrow> syscall \<Rightarrow> kres) \<Rightarrow> int \<Rightarrow> syscall list \<Rightarrow> string" where
  "sent_rev k fd [] = []"
| "sent_rev k fd (call # older) = sent_rev k fd older @ write_part k fd (rev older) call"

definition sent :: "int \<Rightarrow> 'z kworld_scheme \<Rightarrow> string" where
  "sent fd w = sent_rev (kernel w) fd (rev (sysLog w))"

definition write_documented :: "(syscall list \<Rightarrow> syscall \<Rightarrow> kres) \<Rightarrow> bool" where
  "write_documented k \<longleftrightarrow> (\<forall>calls fd data. kret (k calls (SysWrite fd data)) \<le> int (length data))"

definition writes_to :: "int \<Rightarrow> syscall \<Rightarrow> bool" where
  "writes_to fd call \<longleftrightarrow> (\<exists>data. call = SysWrite fd data)"

definition half_closes :: "syscall \<Rightarrow> bool" where
  "half_closes call \<longleftrightarrow> (\<exists>fd. call = SysShutdownWr fd)"

lemma write_part_other: "\<not> writes_to fd call \<Longrightarrow> write_part k fd older call = []"
  by (cases call) (auto simp: write_part_def writes_to_def)

lemma sent_more:
  assumes "kernel v = kernel w" and "sysLog v = sysLog w @ calls" and "list_all (\<lambda>c. \<not> writes_to fd c) calls"
  shows "sent fd v = sent fd w"
proof -
  have "sent_rev k fd (rev calls @ older) = sent_rev k fd older" for k older
    using assms(3) by (induction calls rule: rev_induct) (simp_all add: write_part_other)
  then show ?thesis using assms(1,2) by (simp add: sent_def)
qed

lemma sent_write:
  "sent fd (snd (sys (SysWrite fd data) w)) =
   sent fd w @ take (nat (kret (kernel w (sysLog w) (SysWrite fd data)))) data"
  by (simp add: sent_def write_part_def)

section \<open>What the steps of a connection leave alone\<close>

text \<open>
  \<open>calm fd w w'\<close>: the step from \<open>w\<close> to \<open>w'\<close> makes only calls that concern no poller and write
  nothing to \<open>fd\<close>, and changes at most the functors of loops.
\<close>

definition calm :: "int \<Rightarrow> 'z netw_scheme \<Rightarrow> 'z netw_scheme \<Rightarrow> bool" where
  "calm fd w w' \<longleftrightarrow> kernel w' = kernel w \<and> chans w' = chans w \<and> conns w' = conns w \<and>
     (\<forall>l. isInLoopThread l w' = isInLoopThread l w) \<and>
     (\<forall>l. rel_option (\<lambda>e e'. el_poller e' = el_poller e \<and> el_wakeupFd e' = el_wakeupFd e) (loops w l) (loops w' l)) \<and>
     (\<exists>calls. sysLog w' = sysLog w @ calls \<and> list_all harmless calls \<and> list_all (\<lambda>c. \<not> writes_to fd c) calls \<and>
        list_all (\<lambda>c. \<not> half_closes c) calls)"

lemma calm_refl [simp]: "calm fd w w"
  by (simp add: calm_def option.rel_refl)

lemma calm_sent: "calm fd w w' \<Longrightarrow> sent fd w' = sent fd w"
  unfolding calm_def using sent_more by blast

lemma calmD:
  assumes "calm fd w w'"
  shows "kernel w' = kernel w" "chans w' = chans w" "conns w' = conns w"
    "isInLoopThread l w' = isInLoopThread l w"
  using assms by (auto simp: calm_def)

lemma calm_loop:
  assumes "calm fd w w'" and "loops w l = Some e"
  obtains e' where "loops w' l = Some e'" and "el_poller e' = el_poller e" and "el_wakeupFd e' = el_wakeupFd e"
proof -
  from assms(1) have "rel_option (\<lambda>e e'. el_poller e' = el_poller e \<and> el_wakeupFd e' = el_wakeupFd e) (loops w l) (loops w' l)"
    by (simp add: calm_def)
  with assms(2) that show thesis by (auto simp: option_rel_Some1)
qed

lemma watched_harmless_all:
  "list_all harmless calls \<Longrightarrow> watched k e (older @ calls) = watched k e older"
proof (induction calls rule: rev_induct)
  case (snoc c calls)
  then show ?case using watched_harmless [of c k e "older @ calls"] by simp
qed simp

lemma po_ok_log:
  "po_ok l p w \<Longrightarrow> chans v = chans w \<Longrightarrow> kernel v = kernel w \<Longrightarrow> sysLog v = sysLog w @ calls \<Longrightarrow>
   list_all harmless calls \<Longrightarrow> isInLoopThread l v = isInLoopThread l w \<Longrightarrow> po_ok l p v"
  by (cases p) (simp_all add: pp_ok_def ep_ok_def owned_def ep_registered_def watched_harmless_all)

lemma calm_loop_ok: "calm fd w w' \<Longrightarrow> loop_ok l w \<Longrightarrow> loop_ok l w'"
proof -
  assume c: "calm fd w w'" and "loop_ok l w"
  then obtain e where e: "loops w l = Some e" "po_ok l (el_poller e) w" by (auto simp: loop_ok_def)
  from calm_loop [OF c e(1)] obtain e' where e': "loops w' l = Some e'" "el_poller e' = el_poller e" by blast
  from c obtain calls where "sysLog w' = sysLog w @ calls" "list_all harmless calls"
    by (auto simp: calm_def)
  then have "po_ok l (el_poller e) w'"
    by (intro po_ok_log [OF e(2) calmD(2,1) [OF c]]) (simp_all add: calmD(4) [OF c])
  with e' show ?thesis by (simp add: loop_ok_def)
qed

lemma calm_usable: "calm fd w w' \<Longrightarrow> usable l c w \<Longrightarrow> usable l c w'"
  by (auto simp: usable_def calmD elim!: calm_loop)

lemma netw_fields [simp]:
  "conns (snd (sys call w)) = conns w" "conns (ch_put c ch w) = conns w" "conns (el_mod l f w) = conns w"
  "conns (queued l fns calls w) = conns w"
  "conns (tc_mod a g w) = (conns w)(a := map_option g (conns w a))"
  "chans (tc_mod a g w) = chans w" "loops (tc_mod a g w) = loops w" "kernel (tc_mod a g w) = kernel w"
  "sysLog (tc_mod a g w) = sysLog w" "isInLoopThread l (tc_mod a g w) = isInLoopThread l w"
  "chans (queued l fns calls w) = chans w" "kernel (queued l fns calls w) = kernel w"
  by (simp_all add: sys_def ch_put_def el_mod_def queued_def tc_mod_def isInLoopThread_def)

lemma calm_queueWriteComplete:
  assumes "loops w (tc_loop c) = Some e" and "el_wakeupFd e \<noteq> fd"
  shows "\<exists>w'. queueWriteComplete a c w = Inr w' \<and> calm fd w w'"
proof (cases "tc_writeCompleteCb c")
  case None
  then show ?thesis by (simp add: queueWriteComplete_def)
next
  case (Some cb)
  define calls where "calls = (if isInLoopThread (tc_loop c) w \<and> calling (tc_loop c) w then [wake_call (tc_loop c) w] else [])"
  have "queueInLoop (tc_loop c) (FnWriteComplete a) w = Inr (queued (tc_loop c) [FnWriteComplete a] calls w)"
    using assms(1) by (simp add: queueInLoop_eq calls_def)
  moreover have "list_all harmless calls \<and> list_all (\<lambda>x. \<not> writes_to fd x) calls \<and> list_all (\<lambda>x. \<not> half_closes x) calls"
    using assms by (auto simp: calls_def wake_call_def writes_to_def half_closes_def)
  then have "calm fd w (queued (tc_loop c) [FnWriteComplete a] calls w)"
    using assms(1) by (simp add: calm_def option.rel_refl)
  ultimately show ?thesis using Some by (simp add: queueWriteComplete_def)
qed

lemma calm_write_other: "fd' \<noteq> fd \<Longrightarrow> calm fd w (snd (sys (SysWrite fd' data) w))"
  by (simp add: calm_def option.rel_refl writes_to_def half_closes_def sys_def isInLoopThread_def)

text \<open>Telling the poller about new events writes to no descriptor.\<close>

fun is_ctl :: "syscall \<Rightarrow> bool" where
  "is_ctl (SysEpollCtl _ _ _ _ _) = True"
| "is_ctl _ = False"

lemma is_ctl_quiet: "list_all is_ctl calls \<Longrightarrow> list_all (\<lambda>x. \<not> writes_to fd x) calls \<and> list_all (\<lambda>x. \<not> half_closes x) calls"
  by (induction calls) (auto simp: writes_to_def half_closes_def)

lemma po_update_log:
  "po_updateChannel l c p w = Inr (p', w') \<Longrightarrow>
   \<exists>calls. sysLog w' = sysLog w @ calls \<and> list_all is_ctl calls"
proof (cases p)
  case (PollObj q)
  assume "po_updateChannel l c p w = Inr (p', w')"
  then have "sysLog w' = sysLog w"
    by (auto simp: PollObj bindR_eq_Inr pp_updateChannel_def inLoopThread_def Let_def split: if_splits)
  then show ?thesis by simp
next
  case (EpollObj q)
  have ep: "\<exists>call. sysLog v' = sysLog v @ [call] \<and> is_ctl call"
    if "ep_update op d ch r v = Inr v'" for op d ch r and v v' :: "'a heapw_scheme"
    using that by (auto simp: ep_update_def sys_def Let_def split: if_splits)
  assume "po_updateChannel l c p w = Inr (p', w')"
  then show ?thesis
    by (auto simp: EpollObj bindR_eq_Inr ep_updateChannel_def inLoopThread_def Let_def
        split: if_splits dest!: ep)
qed

lemma ch_update_log:
  assumes "ch_update c w = Inr w'"
  shows "\<exists>calls. sysLog w' = sysLog w @ calls \<and> list_all is_ctl calls" and "kernel w' = kernel w"
proof -
  from assms obtain l p p' w1 where u: "po_updateChannel l c p w = Inr (p', w1)" "w' = el_mod l (set_poller p') w1"
    by (auto simp: ch_update_def el_updateChannel_def inLoopThread_def bindR_eq_Inr split: if_splits)
  show "\<exists>calls. sysLog w' = sysLog w @ calls \<and> list_all is_ctl calls" using po_update_log [OF u(1)] u(2) by simp
  show "kernel w' = kernel w" using po_frame(1) [OF u(1)] u(2) by (simp add: heap_frame_def)
qed

lemma ch_update_sent: "ch_update c w = Inr w' \<Longrightarrow> sent fd w' = sent fd w"
  using ch_update_log is_ctl_quiet sent_more by metis

section \<open>Output is a stream\<close>

text \<open>
  The state in which the loop's thread finds a living connection: its channel is usable, the
  loop's event descriptor is not its socket, the output buffer is well formed, and the channel
  waits for writability exactly when there is output.
\<close>

definition conn_ok :: "nat \<Rightarrow> 'z netw_scheme \<Rightarrow> bool" where
  "conn_ok a w \<longleftrightarrow> (\<exists>c ch e. conns w a = Some c \<and> chans w (tc_channel c) = Some ch \<and>
     ch_fd ch = tc_socket c \<and> loops w (tc_loop c) = Some e \<and> el_wakeupFd e \<noteq> tc_socket c \<and>
     loop_ok (tc_loop c) w \<and> usable (tc_loop c) (tc_channel c) w \<and> buf_inv (tc_output c) \<and>
     (isWriting ch \<longleftrightarrow> contents (tc_output c) \<noteq> []))"

definition out_stream :: "nat \<Rightarrow> 'z netw_scheme \<Rightarrow> string" where
  "out_stream a w = (case conns w a of None \<Rightarrow> []
     | Some c \<Rightarrow> sent (tc_socket c) w @ contents (tc_output c))"

lemma po_ok_thread: "po_ok l p w \<Longrightarrow> isInLoopThread l w"
  by (cases p) (simp_all add: pp_ok_def ep_ok_def)

lemma loop_ok_thread: "loop_ok l w \<Longrightarrow> isInLoopThread l w"
  by (auto simp: loop_ok_def po_ok_thread)

lemma in_loop_here: "loop_ok l w \<Longrightarrow> in_loop l w k = k"
  using loop_ok_thread [of l w] by (auto simp: in_loop_def inLoopThread_def loop_ok_def)

lemma conn_okE:
  assumes "conn_ok a w"
  obtains c ch e where "conns w a = Some c" "chans w (tc_channel c) = Some ch"
    "ch_fd ch = tc_socket c" "loops w (tc_loop c) = Some e" "el_wakeupFd e \<noteq> tc_socket c"
    "loop_ok (tc_loop c) w" "usable (tc_loop c) (tc_channel c) w" "buf_inv (tc_output c)"
    "isWriting ch \<longleftrightarrow> contents (tc_output c) \<noteq> []"
  using assms by (auto simp: conn_ok_def)

lemma calm_conn_ok: "calm fd w w' \<Longrightarrow> conn_ok a w \<Longrightarrow> conn_ok a w'"
proof -
  assume calm: "calm fd w w'" and "conn_ok a w"
  then obtain c ch e where k: "conns w a = Some c" "chans w (tc_channel c) = Some ch"
    "ch_fd ch = tc_socket c" "loops w (tc_loop c) = Some e" "el_wakeupFd e \<noteq> tc_socket c"
    "loop_ok (tc_loop c) w" "usable (tc_loop c) (tc_channel c) w" "buf_inv (tc_output c)"
    "isWriting ch \<longleftrightarrow> contents (tc_output c) \<noteq> []" by (elim conn_okE)
  moreover from calm_loop [OF calm k(4)] obtain e' where
    "loops w' (tc_loop c) = Some e'" "el_wakeupFd e' = el_wakeupFd e" by blast
  moreover have "loop_ok (tc_loop c) w'" "usable (tc_loop c) (tc_channel c) w'"
    using calm_loop_ok [OF calm k(6)] calm_usable [OF calm k(7)] by simp_all
  moreover have "conns w' = conns w" "chans w' = chans w" using calmD [OF calm] by simp_all
  ultimately show ?thesis
    by (intro conn_ok_def [THEN iffD2] exI [of _ c] exI [of _ ch] exI [of _ e'] conjI) simp_all
qed

text \<open>The output buffer changes, and the channel is told to wait for writability or not.\<close>

definition steady :: "nat \<Rightarrow> 'z netw_scheme \<Rightarrow> 'z netw_scheme \<Rightarrow> bool" where
  "steady a w w' \<longleftrightarrow> kernel w' = kernel w \<and> (\<exists>c c'. conns w a = Some c \<and> conns w' a = Some c' \<and> tc_state c' = tc_state c) \<and>
     (\<exists>calls. sysLog w' = sysLog w @ calls \<and> list_all (\<lambda>x. \<not> half_closes x) calls)"

lemma steady_trans: "steady a u v \<Longrightarrow> steady a v w \<Longrightarrow> steady a u w"
  by (fastforce simp: steady_def)

lemma steady_refl: "conns w a = Some c \<Longrightarrow> steady a w w"
  by (simp add: steady_def)

lemma calm_steady: "calm fd w w' \<Longrightarrow> conns w a = Some c \<Longrightarrow> steady a w w'"
  by (auto simp: calm_def steady_def)

lemma loop_ok_tc_mod [simp]: "loop_ok l (tc_mod a g w) = loop_ok l w"
proof -
  have "po_ok l p (tc_mod a g w) = po_ok l p w" for p
    by (cases p) (simp_all add: pp_ok_def ep_ok_def owned_def ep_registered_def)
  then show ?thesis by (simp add: loop_ok_def)
qed

lemma usable_tc_mod [simp]: "usable l c (tc_mod a g w) = usable l c w"
  by (simp add: usable_def)

lemma sent_tc_mod [simp]: "sent fd (tc_mod a g w) = sent fd w"
  by (simp add: sent_def)

lemma sent_put [simp]: "sent fd (ch_put c ch w) = sent fd w"
  by (simp add: sent_def)

lemma change_events_conn:
  assumes "loop_ok l w" and "usable l d w" and "chans w d = Some ch" and "loops w l = Some e"
  shows "\<exists>w' ch' e'. ch_update d (ch_put d (ch\<lparr>ch_events := ev\<rparr>) w) = Inr w' \<and> loop_ok l w' \<and> usable l d w' \<and>
    chans w' d = Some ch' \<and> ch_fd ch' = ch_fd ch \<and> ch_events ch' = ev \<and> loops w' l = Some e' \<and>
    el_wakeupFd e' = el_wakeupFd e \<and> conns w' = conns w \<and> sent fd w' = sent fd w \<and> kernel w' = kernel w \<and>
    (\<exists>calls. sysLog w' = sysLog w @ calls \<and> list_all is_ctl calls)"
proof -
  from change_events_ok [OF assms(1-3), of ev] obtain w' ch' where
    u: "ch_update d (ch_put d (ch\<lparr>ch_events := ev\<rparr>) w) = Inr w'" "loop_ok l w'"
    "same_but_index (ch\<lparr>ch_events := ev\<rparr>) ch'" "chans w' = (chans w)(d \<mapsto> ch')"
    "registered l w' = (registered l w)(ch_fd ch \<mapsto> d)" "rest_same l w w'" by blast
  from u(6) obtain p where p: "loops w' = (loops w)(l := map_option (set_poller p) (loops w l))"
    "reactor.more w' = reactor.more w" "kernel w' = kernel w" by (auto simp: rest_same_def)
  have ch': "ch_fd ch' = ch_fd ch" "ch_events ch' = ev" "ch_loop ch' = ch_loop ch"
    using u(3) by (auto simp: same_but_index_def)
  have reg: "po_channels p (ch_fd ch) = Some d"
    using u(5) p(1) assms(4) by (simp add: registered_def set_poller_def)
  then have "usable l d w'"
    using p(1) u(4) ch' assms(2-4) by (auto simp: usable_def set_poller_def po.admissible_def)
  moreover have "conns w' = conns w" using p(2) by (cases w; cases w'; simp)
  moreover have "sent fd w' = sent fd w" using ch_update_sent [OF u(1)] by simp
  moreover have "\<exists>calls. sysLog w' = sysLog w @ calls \<and> list_all is_ctl calls"
    using ch_update_log(1) [OF u(1)] by simp
  ultimately show ?thesis
    using u(1,2,4) p(1,3) ch' assms(4)
    by (intro exI [of _ w'] exI [of _ ch'] exI [of _ "set_poller p e"]) (simp add: set_poller_def)
qed

lemma contents_readable: "buf_inv b \<Longrightarrow> readableBytes b = 0 \<longleftrightarrow> contents b = []"
  using length_contents [of b] by auto

text \<open>What \<open>sendInLoop\<close> keeps for later: the rest of the message goes behind the output.\<close>

lemma keep_rest:
  assumes ok: "conn_ok a w" and c: "conns w a = Some c" and room: "buf_room d (tc_output c)" and d: "d \<noteq> []"
  shows "\<exists>out w'. append_bytes d (tc_output c) = Inr out \<and>
    bindR (ch_get (tc_channel c) (tc_mod a (\<lambda>c. c\<lparr>tc_output := out\<rparr>) w)) (\<lambda>ch.
      if \<not> isWriting ch then enableWriting (tc_channel c) (tc_mod a (\<lambda>c. c\<lparr>tc_output := out\<rparr>) w)
      else Inr (tc_mod a (\<lambda>c. c\<lparr>tc_output := out\<rparr>) w)) = Inr w' \<and>
    conn_ok a w' \<and> steady a w w' \<and> out_stream a w' = out_stream a w @ d"
proof -
  from ok c obtain ch e where k: "chans w (tc_channel c) = Some ch"
    "ch_fd ch = tc_socket c" "loops w (tc_loop c) = Some e" "el_wakeupFd e \<noteq> tc_socket c"
    "loop_ok (tc_loop c) w" "usable (tc_loop c) (tc_channel c) w" "buf_inv (tc_output c)"
    by (auto simp: conn_ok_def)
  from bufq.push_law [OF k(7) room] obtain out where
    out: "append_bytes d (tc_output c) = Inr out" "buf_inv out" "contents out = contents (tc_output c) @ d" by blast
  let ?v = "tc_mod a (\<lambda>c. c\<lparr>tc_output := out\<rparr>) w"
  have v: "conns ?v a = Some (c\<lparr>tc_output := out\<rparr>)" using c by simp
  show ?thesis
  proof (cases "isWriting ch")
    case True
    have "conn_ok a ?v"
      using k out d True c by (intro conn_ok_def [THEN iffD2] exI [of _ "c\<lparr>tc_output := out\<rparr>"] exI [of _ ch] exI [of _ e]) simp
    moreover have "out_stream a ?v = out_stream a w @ d" using c out(3) by (simp add: out_stream_def)
    moreover have "steady a w ?v" using c by (simp add: steady_def)
    ultimately show ?thesis using True k(1) out(1) by (simp add: ch_get_def)
  next
    case False
    have pre: "loop_ok (tc_loop c) ?v" "usable (tc_loop c) (tc_channel c) ?v" "chans ?v (tc_channel c) = Some ch"
      "loops ?v (tc_loop c) = Some e" using k by simp_all
    obtain w' ch' e' where u: "ch_update (tc_channel c) (ch_put (tc_channel c) (ch\<lparr>ch_events := ch_events ch OR kWriteEvent\<rparr>) ?v) = Inr w'"
      "loop_ok (tc_loop c) w'" "usable (tc_loop c) (tc_channel c) w'" "chans w' (tc_channel c) = Some ch'"
      "ch_fd ch' = ch_fd ch" "ch_events ch' = ch_events ch OR kWriteEvent" "loops w' (tc_loop c) = Some e'"
      "el_wakeupFd e' = el_wakeupFd e" "conns w' = conns ?v" "sent (tc_socket c) w' = sent (tc_socket c) ?v"
      "kernel w' = kernel ?v" "\<exists>calls. sysLog w' = sysLog ?v @ calls \<and> list_all is_ctl calls"
      using change_events_conn [OF pre, of "ch_events ch OR kWriteEvent" "tc_socket c"] by blast
    have "isWriting ch'"
    proof -
      have "(ch_events ch OR kWriteEvent) AND kWriteEvent = kWriteEvent" by (simp add: bit.conj_disj_distrib2)
      then show ?thesis using u(6) by (simp add: isWriting_def poll_bits)
    qed
    then have "conn_ok a w'"
      using k out d c u v by (intro conn_ok_def [THEN iffD2] exI [of _ "c\<lparr>tc_output := out\<rparr>"] exI [of _ ch'] exI [of _ e']) simp
    moreover have "out_stream a w' = out_stream a w @ d" using c out(3) u(9,10) by (simp add: out_stream_def)
    moreover have "steady a w w'" using c u(9,11,12) is_ctl_quiet by (auto simp: steady_def)
    ultimately show ?thesis
      using False k(1) out(1) u(1) by (simp add: ch_get_def enableWriting_def ev_enableWriting_def)
  qed
qed

text \<open>There is room for whatever part of the message the kernel does not take.\<close>

definition send_room :: "string \<Rightarrow> buffer \<Rightarrow> bool" where
  "send_room message b \<longleftrightarrow> (\<forall>n < length message. buf_room (drop n message) b)"

definition delivered :: "nat \<Rightarrow> string \<Rightarrow> 'z netw_scheme \<Rightarrow> 'z netw_scheme res \<Rightarrow> bool" where
  "delivered a d w m \<longleftrightarrow> (\<exists>w'. m = Inr w' \<and> conn_ok a w' \<and> steady a w w' \<and>
     out_stream a w' = out_stream a w @ d)"

text \<open>The end of \<open>sendInLoop\<close>, after \<open>nwrite\<close> bytes have gone out.\<close>

definition send_rest :: "nat \<Rightarrow> tcp_connection \<Rightarrow> string \<Rightarrow> int \<Rightarrow> 'z netw_scheme \<Rightarrow> 'z netw_scheme res" where
  "send_rest a c message nwrite w3 =
     (if size_t nwrite < int (length message)
      then bindR (append_bytes (drop (nat nwrite) message) (tc_output c)) (\<lambda>out.
             let w4 = tc_mod a (\<lambda>c. c\<lparr>tc_output := out\<rparr>) w3
             in bindR (ch_get (tc_channel c) w4) (\<lambda>ch4.
                  if \<not> isWriting ch4 then enableWriting (tc_channel c) w4 else Inr w4))
      else Inr w3)"

lemma send_rest_ok:
  assumes "conn_ok a w" and "conns w a = Some c" and "send_room message (tc_output c)"
    and "0 \<le> nwrite" and "nwrite \<le> int (length message)" and "length message < 2 ^ 31"
  shows "delivered a (drop (nat nwrite) message) w (send_rest a c message nwrite w)"
proof (cases "nwrite < int (length message)")
  case True
  then have "nat nwrite < length message" using assms(4) by linarith
  then have room: "buf_room (drop (nat nwrite) message) (tc_output c)" "drop (nat nwrite) message \<noteq> []"
    using assms(3) by (auto simp: send_room_def)
  have "size_t nwrite < int (length message)" using True assms(4,6) by (simp add: size_t_id)
  with keep_rest [OF assms(1,2) room] show ?thesis by (auto simp: send_rest_def delivered_def)
next
  case False
  then have "nwrite = int (length message)" using assms(5) by simp
  moreover from this have "size_t nwrite = nwrite" using assms(6) by (simp add: size_t_id)
  ultimately show ?thesis using assms(1) steady_refl [OF assms(2)] by (auto simp: send_rest_def delivered_def)
qed

lemma sendInLoop_unfold:
  assumes "loop_ok (tc_loop c) w" and "conns w a = Some c" and "chans w (tc_channel c) = Some ch"
  shows "sendInLoop a message w =
    bindR (if \<not> isWriting ch \<and> readableBytes (tc_output c) = 0
           then let (r, w1) = sys (SysWrite (ch_fd ch) message) w
                in if kret r \<ge> 0
                   then if size_t (kret r) < int (length message) then Inr (kret r, w1)
                        else bindR (queueWriteComplete a c w1) (\<lambda>w2. Inr (kret r, w2))
                   else Inr (0, w1)
           else Inr (0, w))
      (\<lambda>(nwrite, w3). assertR (nwrite \<ge> 0) (send_rest a c message nwrite w3))"
  using assms by (simp add: sendInLoop_def tc_get_def ch_get_def in_loop_here send_rest_def Let_def)

lemma sendInLoop_ok:
  assumes ok: "conn_ok a w" and c: "conns w a = Some c" and room: "send_room message (tc_output c)"
    and doc: "write_documented (kernel w)" and len: "length message < 2 ^ 31"
  shows "delivered a message w (sendInLoop a message w)"
proof -
  from ok c obtain ch e where k: "chans w (tc_channel c) = Some ch" "ch_fd ch = tc_socket c"
    "loops w (tc_loop c) = Some e" "el_wakeupFd e \<noteq> tc_socket c" "loop_ok (tc_loop c) w"
    "buf_inv (tc_output c)" "isWriting ch \<longleftrightarrow> contents (tc_output c) \<noteq> []" by (auto simp: conn_ok_def)
  note run = sendInLoop_unfold [OF k(5) c k(1)]
  show ?thesis
  proof (cases "isWriting ch")
    case True
    then show ?thesis using run send_rest_ok [OF ok c room, of 0] len by simp
  next
    case False
    then have empty: "contents (tc_output c) = []" "readableBytes (tc_output c) = 0"
      using k(7) contents_readable [OF k(6)] by auto
    define r where "r = kernel w (sysLog w) (SysWrite (tc_socket c) message)"
    define w1 where "w1 = snd (sys (SysWrite (tc_socket c) message) w)"
    have sys: "sys (SysWrite (tc_socket c) message) w = (r, w1)" by (simp add: sys_def r_def w1_def)
    have r: "kret r \<le> int (length message)" using doc by (simp add: write_documented_def r_def)
    have calm1: "calm (tc_socket c + 1) w w1" by (simp add: w1_def calm_write_other)
    have w1: "conn_ok a w1" "conns w1 a = Some c" "steady a w w1"
      using calm_conn_ok [OF calm1 ok] calm_steady [OF calm1 c] c by (simp_all add: w1_def)
    have out1: "out_stream a w1 = out_stream a w @ take (nat (kret r)) message"
      using c empty(1) by (simp add: out_stream_def w1_def sent_write r_def)
    have fin: "delivered a message w (send_rest a c message n u)"
      if u: "conn_ok a u" "conns u a = Some c" "steady a w u" and n: "0 \<le> n" "n \<le> int (length message)"
        and out: "out_stream a u = out_stream a w @ take (nat n) message" for n u
      using send_rest_ok [OF u(1,2) room n len] steady_trans [OF u(3)] out by (auto simp: delivered_def)
    consider (none) "kret r < 0" | (part) "0 \<le> kret r" "kret r < int (length message)"
      | (all) "0 \<le> kret r" "kret r = int (length message)" using r by linarith
    then show ?thesis
    proof cases
      case none
      then have "sendInLoop a message w = send_rest a c message 0 w1"
        using False empty(2) sys by (simp add: run k(2))
      with fin [OF w1, of 0] none out1 show ?thesis by simp
    next
      case part
      then have "sendInLoop a message w = send_rest a c message (kret r) w1"
        using False empty(2) sys len by (simp add: run k(2) size_t_id)
      with fin [OF w1, of "kret r"] part out1 show ?thesis by simp
    next
      case all
      have "loops w1 (tc_loop c) = Some e" using k(3) by (simp add: w1_def)
      from calm_queueWriteComplete [OF this k(4)] obtain w2 where
        w2: "queueWriteComplete a c w1 = Inr w2" "calm (tc_socket c) w1 w2" by blast
      then have "sendInLoop a message w = send_rest a c message (kret r) w2"
        using False empty(2) sys all len by (simp add: run k(2) size_t_id)
      moreover have "out_stream a w2 = out_stream a w1"
        using calm_sent [OF w2(2)] calmD(3) [OF w2(2)] w1(2) by (simp add: out_stream_def)
      ultimately show ?thesis
        using fin [of w2 "kret r"] calm_conn_ok [OF w2(2) w1(1)] steady_trans [OF w1(3) calm_steady [OF w2(2) w1(2)]]
          calmD(3) [OF w2(2)] w1(2) all out1 by simp
    qed
  qed
qed

section \<open>Writability\<close>

lemma tc_shutdown_disconnecting:
  "conns w a = Some c \<Longrightarrow> tc_state c \<noteq> KConnected \<Longrightarrow> tc_shutdown a w = Inr w"
  by (simp add: tc_shutdown_def tc_get_def)

lemma read_all_contents:
  "buf_inv b \<Longrightarrow> read_range (peek b) (peek b + readableBytes b) (bytes b) = Inr (contents b)"
  using read_contents [of b] by (simp add: peek_def readable_eq)

text \<open>
  \<open>handleWrite\<close> moves bytes from the buffer to the kernel: the stream is the same. When the
  buffer has become empty the channel waits for writability no longer; in the state
  \<open>kDisconnecting\<close> the call of \<open>shutdown()\<close> that follows does nothing.
\<close>

lemma handleWrite_ok:
  assumes ok: "conn_ok a w" and c: "conns w a = Some c" and doc: "write_documented (kernel w)"
  shows "delivered a [] w (handleWrite a w)"
proof -
  from ok c obtain ch e where k: "chans w (tc_channel c) = Some ch" "ch_fd ch = tc_socket c"
    "loops w (tc_loop c) = Some e" "el_wakeupFd e \<noteq> tc_socket c" "loop_ok (tc_loop c) w"
    "usable (tc_loop c) (tc_channel c) w"
    "buf_inv (tc_output c)" "isWriting ch \<longleftrightarrow> contents (tc_output c) \<noteq> []" by (auto simp: conn_ok_def)
  show ?thesis
  proof (cases "isWriting ch")
    case False
    then show ?thesis
      using ok c k steady_refl [OF c] by (simp add: handleWrite_def tc_get_def ch_get_def in_loop_here delivered_def)
  next
    case True
    let ?data = "contents (tc_output c)"
    define r where "r = kernel w (sysLog w) (SysWrite (tc_socket c) ?data)"
    define w1 where "w1 = snd (sys (SysWrite (tc_socket c) ?data) w)"
    have sys: "sys (SysWrite (tc_socket c) ?data) w = (r, w1)" by (simp add: sys_def r_def w1_def)
    have r: "kret r \<le> int (length ?data)" using doc by (simp add: write_documented_def r_def)
    have calm1: "calm (tc_socket c + 1) w w1" by (simp add: w1_def calm_write_other)
    have w1: "conn_ok a w1" "conns w1 a = Some c" "steady a w w1"
      using calm_conn_ok [OF calm1 ok] calm_steady [OF calm1 c] c by (simp_all add: w1_def)
    have sent1: "sent (tc_socket c) w1 = sent (tc_socket c) w @ take (nat (kret r)) ?data"
      by (simp add: w1_def sent_write r_def)
    show ?thesis
    proof (cases "kret r > 0")
      case False
      then have "handleWrite a w = Inr w1"
        using c k True sys by (simp add: handleWrite_def tc_get_def ch_get_def in_loop_here read_all_contents)
      moreover have "out_stream a w1 = out_stream a w"
        using c w1(2) sent1 False by (simp add: out_stream_def)
      ultimately show ?thesis using w1 by (simp add: delivered_def)
    next
      case pos: True
      then have r0: "0 \<le> kret r" by simp
      from bufq.pop_law [OF k(7) r0 r] obtain out where
        out: "retrieve (kret r) (tc_output c) = Inr out" "buf_inv out" "contents out = drop (nat (kret r)) ?data" by blast
      let ?c = "c\<lparr>tc_output := out\<rparr>"
      define w2 where "w2 = tc_mod a (\<lambda>c. c\<lparr>tc_output := out\<rparr>) w1"
      have w2: "conns w2 a = Some ?c" "chans w2 = chans w" "loops w2 = loops w" "kernel w2 = kernel w"
        using w1(2) by (simp_all add: w2_def) (simp_all add: w1_def)
      have st2: "steady a w w2"
        using steady_trans [OF w1(3), of w2] w1(2) by (simp add: steady_def w2_def)
      have stream2: "sent (tc_socket c) w2 @ contents out = out_stream a w"
        using c sent1 out(3) by (simp add: w2_def out_stream_def)
      have ok2: "loop_ok (tc_loop c) w2" "usable (tc_loop c) (tc_channel c) w2"
        using calm_loop_ok [OF calm1 k(5)] calm_usable [OF calm1 k(6)] by (simp_all add: w2_def)
      show ?thesis
      proof (cases "contents out = []")
        case False
        then have "handleWrite a w = Inr w2"
          using c k True pos sys out contents_readable [OF out(2)]
          by (simp add: handleWrite_def tc_get_def ch_get_def in_loop_here read_all_contents w2_def Let_def)
        moreover have "conn_ok a w2"
          using k True False out(2) ok2 w2
          by (intro conn_ok_def [THEN iffD2] exI [of _ ?c] exI [of _ ch] exI [of _ e]) simp
        ultimately show ?thesis using st2 stream2 w2(1) by (simp add: delivered_def out_stream_def)
      next
        case drained: True
        have pre: "chans w2 (tc_channel c) = Some ch" "loops w2 (tc_loop c) = Some e" using k w2 by simp_all
        obtain w3 ch' e' where u: "ch_update (tc_channel c) (ch_put (tc_channel c)
              (ch\<lparr>ch_events := ch_events ch AND NOT kWriteEvent\<rparr>) w2) = Inr w3"
          "loop_ok (tc_loop c) w3" "usable (tc_loop c) (tc_channel c) w3" "chans w3 (tc_channel c) = Some ch'"
          "ch_fd ch' = ch_fd ch" "ch_events ch' = ch_events ch AND NOT kWriteEvent" "loops w3 (tc_loop c) = Some e'"
          "el_wakeupFd e' = el_wakeupFd e" "conns w3 = conns w2" "sent (tc_socket c) w3 = sent (tc_socket c) w2"
          "kernel w3 = kernel w2" "\<exists>calls. sysLog w3 = sysLog w2 @ calls \<and> list_all is_ctl calls"
          using change_events_conn [OF ok2 pre, of "ch_events ch AND NOT kWriteEvent" "tc_socket c"] by blast
        have "\<not> isWriting ch'" by (simp add: isWriting_def u(6) and.assoc)
        then have ok3: "conn_ok a w3"
          using k out u w2(1) drained
          by (intro conn_ok_def [THEN iffD2] exI [of _ ?c] exI [of _ ch'] exI [of _ e']) simp
        have st3: "steady a w w3"
        proof (rule steady_trans [OF st2])
          show "steady a w2 w3" using w2(1) u(9,11,12) is_ctl_quiet by (auto simp: steady_def)
        qed
        have "el_wakeupFd e' \<noteq> tc_socket c" using u(8) k(4) by simp
        from calm_queueWriteComplete [OF u(7) this] obtain w4 where
          w4: "queueWriteComplete a c w3 = Inr w4" "calm (tc_socket c) w3 w4" by blast
        have c4: "conns w4 a = Some ?c" using calmD(3) [OF w4(2)] u(9) w2(1) by simp
        have disable: "disableWriting (tc_channel c) w2 = Inr w3"
          using pre(1) u(1) by (simp add: disableWriting_def ch_get_def ev_disableWriting_def)
        have "(if tc_state c = KDisconnecting then tc_shutdown a w4 else Inr w4) = Inr w4"
          using tc_shutdown_disconnecting [OF c4] by simp
        then have "handleWrite a w = Inr w4"
          using c k True pos sys out contents_readable [OF out(2)] drained disable w4(1)
          by (simp add: handleWrite_def tc_get_def ch_get_def in_loop_here read_all_contents w2_def [symmetric] Let_def)
        moreover have "out_stream a w4 = out_stream a w"
          using calm_sent [OF w4(2)] c4 u(10) stream2 by (simp add: out_stream_def)
        moreover have "conns w3 a = Some ?c" using u(9) w2(1) by simp
        ultimately show ?thesis
          using calm_conn_ok [OF w4(2) ok3] steady_trans [OF st3 calm_steady [OF w4(2)]] by (simp add: delivered_def)
      qed
    qed
  qed
qed

end
