(* ===== verification/Tcp_Stream.thy ===== *)
theory Tcp_Stream
  imports Tcp_Connection
begin

text \<open>
  What a connection promises its users: the messages sent come out of its socket in order and
  without gaps, the bytes the socket delivers reach the message callback, and the states it goes
  through from its establishment to its end.
\<close>

section \<open>An example\<close>

text \<open>
  A kernel that takes at most three bytes per \<open>write\<close> and answers 0 to everything else, a loop at
  address 0 and a connection at address 20 with socket 5, whose channel is at address 1.
\<close>

definition short_writes :: "syscall list \<Rightarrow> syscall \<Rightarrow> kres" where
  "short_writes calls call = (case call of
     SysWrite fd data \<Rightarrow> ret (min 3 (int (length data)))
   | SysReadv fd n \<Rightarrow> (ret 2)\<lparr>kdata := ''ok''\<rparr>
   | _ \<Rightarrow> ret 0)"

definition example_conn :: "conn_state \<Rightarrow> buffer \<Rightarrow> tcp_connection" where
  "example_conn s out = \<lparr>tc_state = s, tc_loop = 0, tc_name = ''c'', tc_socket = 5, tc_channel = 1,
     tc_peerAddr = zero_address, tc_localAddr = zero_address, tc_input = new_buffer, tc_output = out,
     tc_connectionCb = Some 1, tc_messageCb = Some 2, tc_writeCompleteCb = None,
     tc_closeCb = Some (CloseServer 8), tc_context = None\<rparr>"

definition example_netw :: "32 word \<Rightarrow> tcp_connection \<Rightarrow> netw" where
  "example_netw ev c = \<lparr>kernel = short_writes, sysLog = [], curTid = 1, threadOf = (\<lambda>_. 1),
     chans = [1 \<mapsto> (new_channel 0 5)\<lparr>ch_events := ev\<rparr>], loops = [0 \<mapsto> example_eventloop []], threadLoop = [1 \<mapsto> 0],
     tqs = (\<lambda>_. None), timers = (\<lambda>_. None), numCreated = 0, conns = [20 \<mapsto> c]\<rparr>"

lemma example_netw_fields [simp]:
  "kernel (example_netw ev c) = short_writes" "sysLog (example_netw ev c) = []"
  "isInLoopThread l (example_netw ev c)" "conns (example_netw ev c) = [20 \<mapsto> c]"
  "chans (example_netw ev c) = [1 \<mapsto> (new_channel 0 5)\<lparr>ch_events := ev\<rparr>]"
  "loops (example_netw ev c) = [0 \<mapsto> example_eventloop []]" "sent fd (example_netw ev c) = []"
  by (simp_all add: example_netw_def isInLoopThread_def sent_def)

lemma example_conn_fields [simp]:
  "tc_state (example_conn s out) = s" "tc_loop (example_conn s out) = 0" "tc_socket (example_conn s out) = 5"
  "tc_channel (example_conn s out) = 1" "tc_output (example_conn s out) = out"
  "tc_input (example_conn s out) = new_buffer" "tc_connectionCb (example_conn s out) = Some 1"
  "tc_messageCb (example_conn s out) = Some 2" "tc_closeCb (example_conn s out) = Some (CloseServer 8)"
  by (simp_all add: example_conn_def)

lemma example_loop_usable: "loop_ok 0 (example_netw ev c)" "usable 0 1 (example_netw ev c)"
  by (simp_all add: loop_ok_def usable_def example_eventloop_def pp_ok_def pp_new_def keys_def
      po.admissible_def new_channel_def valid_fd_def)

definition one_byte_buffer :: buffer where
  "one_byte_buffer = \<lparr>bytes = replicate 8 CHR ''.'' @ ''p'' @ replicate 1023 CHR ''.'', readIndex = 8, writeIndex = 9\<rparr>"

lemma one_byte_buffer: "buf_inv one_byte_buffer" "contents one_byte_buffer = ''p''"
  by (simp_all add: one_byte_buffer_def buf_inv_def contents_def bufsize_def)

lemma example_conn_ok:
  assumes "buf_inv out" and "ev AND kWriteEvent \<noteq> 0 \<longleftrightarrow> contents out \<noteq> []"
  shows "conn_ok 20 (example_netw ev (example_conn s out))"
  using assms example_loop_usable [of ev "example_conn s out"]
  by (simp add: conn_ok_def isWriting_def new_channel_def example_eventloop_def)

lemma short_writes_documented: "write_documented short_writes"
  by (simp add: write_documented_def short_writes_def ret_def)

section \<open>The output stream\<close>

text \<open>What the user and the loop do with a connection: messages are sent, the socket becomes writable.\<close>

datatype conn_op = Sends string | Writable

fun conn_step :: "nat \<Rightarrow> conn_op \<Rightarrow> 'z netw_scheme \<Rightarrow> 'z netw_scheme res" where
  "conn_step a (Sends message) w = tc_send a message w"
| "conn_step a Writable w = handleWrite a w"

fun sent_by :: "conn_op list \<Rightarrow> string" where
  "sent_by [] = []"
| "sent_by (Sends message # ops) = message @ sent_by ops"
| "sent_by (Writable # ops) = sent_by ops"

text \<open>Every message finds room in the buffer as it is when the message is sent.\<close>

fun finds_room :: "nat \<Rightarrow> conn_op list \<Rightarrow> 'z netw_scheme \<Rightarrow> bool" where
  "finds_room a [] w = True"
| "finds_room a (op # ops) w \<longleftrightarrow>
     (\<forall>message c. op = Sends message \<longrightarrow> conns w a = Some c \<longrightarrow>
        send_room message (tc_output c) \<and> length message < 2 ^ 31) \<and>
     (\<forall>w'. conn_step a op w = Inr w' \<longrightarrow> finds_room a ops w')"

lemma tc_send_here:
  assumes "conn_ok a w" and "conns w a = Some c" and "tc_state c = KConnected"
  shows "tc_send a message w = sendInLoop a message w"
  using assms by (auto simp: tc_send_def tc_get_def conn_ok_def loop_ok_thread)

lemma deliveredE:
  assumes "delivered a d w m" and "conns w a = Some c"
  obtains w' c' where "m = Inr w'" "conn_ok a w'" "steady a w w'" "out_stream a w' = out_stream a w @ d"
    "kernel w' = kernel w" "conns w' a = Some c'" "tc_state c' = tc_state c"
  using assms by (auto simp: delivered_def steady_def)

lemma delivered_then:
  assumes "delivered a d w m" and "conns w a = Some c"
    and "\<And>w' c'. m = Inr w' \<Longrightarrow> conn_ok a w' \<Longrightarrow> kernel w' = kernel w \<Longrightarrow> conns w' a = Some c' \<Longrightarrow>
      tc_state c' = tc_state c \<Longrightarrow> delivered a d' w' (k w')"
  shows "delivered a (d @ d') w (bindR m k)"
proof -
  obtain w' c' where w': "m = Inr w'" "conn_ok a w'" "steady a w w'" "out_stream a w' = out_stream a w @ d"
    "kernel w' = kernel w" "conns w' a = Some c'" "tc_state c' = tc_state c"
    by (rule deliveredE [OF assms(1,2)])
  from assms(3) [OF w'(1,2,5-7)] show ?thesis
    using w'(1,4) steady_trans [OF w'(3)] by (auto simp: delivered_def)
qed

lemma conn_run_delivered:
  "conn_ok a w \<Longrightarrow> conns w a = Some c \<Longrightarrow> tc_state c = KConnected \<Longrightarrow> write_documented (kernel w) \<Longrightarrow>
   finds_room a ops w \<Longrightarrow> delivered a (sent_by ops) w (foldR (conn_step a) ops w)"
proof (induction ops arbitrary: w c)
  case Nil
  then show ?case by (simp add: delivered_def steady_refl)
next
  case (Cons op ops)
  have rest: "delivered a (sent_by ops) w' (foldR (conn_step a) ops w')"
    if "conn_step a op w = Inr w'" "conn_ok a w'" "kernel w' = kernel w" "conns w' a = Some c'" "tc_state c' = tc_state c"
    for w' c'
  proof (rule Cons.IH)
    show "conn_ok a w'" "conns w' a = Some c'" by (fact that)+
    show "tc_state c' = KConnected" "write_documented (kernel w')" using that(3,5) Cons.prems(3,4) by auto
    show "finds_room a ops w'" using Cons.prems(5) that(1) by auto
  qed
  show ?case
  proof (cases op)
    case (Sends message)
    have "send_room message (tc_output c)" and "length message < 2 ^ 31"
      using Cons.prems(5) Cons.prems(2) unfolding Sends finds_room.simps by blast+
    then have "delivered a message w (conn_step a op w)"
      unfolding Sends conn_step.simps tc_send_here [OF Cons.prems(1-3)]
      by (intro sendInLoop_ok [OF Cons.prems(1,2) _ Cons.prems(4)])
    then have "delivered a (message @ sent_by ops) w (bindR (conn_step a op w) (foldR (conn_step a) ops))"
      by (rule delivered_then [OF _ Cons.prems(2)]) (rule rest)
    then show ?thesis using Sends by simp
  next
    case Writable
    have "delivered a [] w (conn_step a op w)"
      using handleWrite_ok [OF Cons.prems(1,2,4)] Writable by simp
    then have "delivered a ([] @ sent_by ops) w (bindR (conn_step a op w) (foldR (conn_step a) ops))"
      by (rule delivered_then [OF _ Cons.prems(2)]) (rule rest)
    then show ?thesis using Writable by simp
  qed
qed

lemma tc_mod_idem: "conns w a = Some c \<Longrightarrow> g c = c \<Longrightarrow> tc_mod a g w = w"
  by (cases w) (auto simp: tc_mod_def fun_upd_idem)

lemma rest_same_conns: "rest_same l w w' \<Longrightarrow> conns w' = conns w"
  by (cases w; cases w') (auto simp: rest_same_def)

lemma attached_tc_mod [simp]: "attached l c (tc_mod a g w) = attached l c w"
proof -
  have "po_ok l p (tc_mod a g w) = po_ok l p w" for p
    by (cases p) (simp_all add: pp_ok_def ep_ok_def owned_def ep_registered_def)
  then show ?thesis by (simp add: attached_def)
qed

lemma registered_tc_mod [simp]: "registered l (tc_mod a g w) = registered l w"
  by (simp add: registered_def)

section \<open>Shutting down\<close>

lemma tc_shutdown_here:
  assumes "conn_ok a w" and "conns w a = Some c" and "tc_state c = KConnected" and "chans w (tc_channel c) = Some ch"
  shows "tc_shutdown a w = (let v = tc_mod a (setState KDisconnecting) w
    in if isWriting ch then Inr v else shutdownWrite (tc_socket c) v)"
proof -
  obtain e where e: "loop_ok (tc_loop c) w" "loops w (tc_loop c) = Some e"
    using assms(1,2) by (auto simp: conn_ok_def)
  let ?v = "tc_mod a (setState KDisconnecting) w"
  have "in_loop (tc_loop c) ?v k = k" for k :: "'a netw_scheme res"
    using e(1) in_loop_here [of "tc_loop c" ?v k] by simp
  then show ?thesis
    using assms e loop_ok_thread [OF e(1)]
    by (simp add: tc_shutdown_def shutdownInLoop_def tc_get_def ch_get_def setState_def runInLoop_def Let_def)
qed

lemma conn_ok_setState: "conn_ok a w \<Longrightarrow> conn_ok a (tc_mod a (setState s) w)"
  unfolding conn_ok_def by (force simp: setState_def)

lemma out_stream_setState: "out_stream a (tc_mod a (setState s) w) = out_stream a w"
  by (cases "conns w a") (simp_all add: out_stream_def setState_def)

lemma handleWrites_delivered:
  "conn_ok a w \<Longrightarrow> conns w a = Some c \<Longrightarrow> write_documented (kernel w) \<Longrightarrow>
   delivered a [] w (foldR (\<lambda>_. handleWrite a) (replicate n ()) w)"
proof (induction n arbitrary: w c)
  case 0
  then show ?case by (simp add: delivered_def steady_refl)
next
  case (Suc n)
  have "delivered a ([] @ []) w (bindR (handleWrite a w) (foldR (\<lambda>_. handleWrite a) (replicate n ())))"
  proof (rule delivered_then [OF handleWrite_ok [OF Suc.prems] Suc.prems(2)])
    fix w' :: "'a netw_scheme" and c' assume "conn_ok a w'" "kernel w' = kernel w" "conns w' a = Some c'"
    then show "delivered a [] w' (foldR (\<lambda>_. handleWrite a) (replicate n ()) w')"
      using Suc.IH [of w' c'] Suc.prems(3) by simp
  qed
  then show ?case by simp
qed

text \<open>\<open>connectionEstablished\<close> up to the callback.\<close>

lemma connectionEstablished_ok:
  assumes "loop_ok (tc_loop c) w" and "conns w a = Some c" and "usable (tc_loop c) (tc_channel c) w"
    and "tc_state c = KConnecting"
  shows "\<exists>w1 ch. connectionEstablished hk a w =
      (case tc_connectionCb c of None \<Rightarrow> Inr w1 | Some cb \<Rightarrow> on_connection hk cb a w1) \<and>
    conns w1 = (conns w)(a \<mapsto> setState KConnected c) \<and> loop_ok (tc_loop c) w1 \<and>
    chans w1 (tc_channel c) = Some ch \<and> ch_events ch AND kReadEvent = kReadEvent \<and>
    registered (tc_loop c) w1 = (registered (tc_loop c) w)(ch_fd ch \<mapsto> tc_channel c) \<and>
    rest_same (tc_loop c) (tc_mod a (setState KConnected) w) w1 \<and>
    (\<forall>ch0. chans w (tc_channel c) = Some ch0 \<longrightarrow> ch_fd ch = ch_fd ch0)"
proof -
  from assms(3) obtain ch where ch: "chans w (tc_channel c) = Some ch" by (auto simp: usable_def)
  let ?v = "tc_mod a (setState KConnected) w"
  have "loop_ok (tc_loop c) ?v" "usable (tc_loop c) (tc_channel c) ?v" "chans ?v (tc_channel c) = Some ch"
    using assms(1,3) ch by simp_all
  from change_events_ok [OF this, of "ch_events ch OR kReadEvent"] obtain w1 ch' where
    u: "ch_update (tc_channel c) (ch_put (tc_channel c) (ch\<lparr>ch_events := ch_events ch OR kReadEvent\<rparr>) ?v) = Inr w1"
    "loop_ok (tc_loop c) w1" "same_but_index (ch\<lparr>ch_events := ch_events ch OR kReadEvent\<rparr>) ch'"
    "chans w1 = (chans ?v)(tc_channel c \<mapsto> ch')" "rest_same (tc_loop c) ?v w1"
    "registered (tc_loop c) w1 = (registered (tc_loop c) ?v)(ch_fd ch \<mapsto> tc_channel c)" by blast
  have "conns w1 = conns ?v" using u(5) by (rule rest_same_conns)
  moreover have "ch_events ch' AND kReadEvent = kReadEvent" "ch_fd ch' = ch_fd ch"
    using u(3) by (auto simp: same_but_index_def bit.conj_disj_distrib2)
  moreover have "in_loop (tc_loop c) w k = k" for k :: "'a netw_scheme res"
    by (rule in_loop_here [OF assms(1)])
  ultimately show ?thesis
    using u assms(2,4) ch
    by (auto simp: connectionEstablished_def tc_get_def ch_get_def enableReading_def ev_enableReading_def
        intro!: exI [of _ w1])
qed

section \<open>Reading\<close>

text \<open>
  \<open>readv\<close> fails, or gives what it says, and never more than the two blocks hold. What
  \<open>handleRead\<close> makes of the answer \<open>r\<close>.
\<close>

definition readv_documented :: "buffer \<Rightarrow> kres \<Rightarrow> bool" where
  "readv_documented b r \<longleftrightarrow> kret r < 0 \<or> kret r = int (length (kdata r)) \<and> length (kdata r) \<le> read_cap b"

lemma handleRead_outcome:
  assumes "conns w a = Some c" and "loops w (tc_loop c) \<noteq> None" and "isInLoopThread (tc_loop c) w"
    and "chans w (tc_channel c) = Some ch" and "buf_inv (tc_input c)" and "bufsize (tc_input c) + extrabuf_size < 2 ^ 31"
    and "kernel w (sysLog w) (SysReadv (ch_fd ch) (writeableBytes (tc_input c) + extrabuf_size)) = r"
    and "readv_documented (tc_input c) r"
  shows "let w1 = snd (sys (SysReadv (ch_fd ch) (writeableBytes (tc_input c) + extrabuf_size)) w) in
    if kret r < 0 then handleRead hk a t w = Inr w1
    else if \<not> takes (kdata r) (tc_input c)
    then handleRead hk a t w = Inl (spill_fault (overrun (kdata r) (tc_input c)) (tc_input c))
    else \<exists>input. buf_inv input \<and> contents input = contents (tc_input c) @ kdata r \<and> bufsize input = bufsize (tc_input c) \<and>
      handleRead hk a t w = (let w2 = tc_mod a (\<lambda>c. c\<lparr>tc_input := input\<rparr>) w1
        in if kret r > 0 then call_hook (tc_messageCb c) (\<lambda>cb. on_message hk cb a t w2) else handleClose hk a w2)"
proof -
  let ?call = "SysReadv (ch_fd ch) (writeableBytes (tc_input c) + extrabuf_size)"
  define w1 where "w1 = snd (sys ?call w)"
  have sys: "sys ?call w = (r, w1)" using assms(7) by (simp add: sys_def w1_def)
  have run: "handleRead hk a t w = bindR (readFd (readv_input r) (tc_input c)) (\<lambda>(nread, _, input).
      let w2 = tc_mod a (\<lambda>c. c\<lparr>tc_input := input\<rparr>) w1
      in if nread > 0 then call_hook (tc_messageCb c) (\<lambda>cb. on_message hk cb a t w2)
         else if nread = 0 then handleClose hk a w2 else Inr w2)"
    using assms(1-4) sys by (auto simp: handleRead_def tc_get_def ch_get_def in_loop_def inLoopThread_def)
  show ?thesis
  proof (cases "kret r < 0")
    case True
    have "conns w1 a = Some c" using assms(1) by (simp add: w1_def)
    then have "tc_mod a (\<lambda>c'. c'\<lparr>tc_input := tc_input c\<rparr>) w1 = w1" by (rule tc_mod_idem) simp
    then show ?thesis
      using True by (simp add: run readv_input_def readFd_error Let_def flip: w1_def)
  next
    case False
    then have n: "kret r = int (length (kdata r))" "length (kdata r) \<le> read_cap (tc_input c)"
      using assms(8) by (auto simp: readv_documented_def)
    note read = readFd_takes [OF assms(5,6) n(2)]
    show ?thesis
    proof (cases "takes (kdata r) (tc_input c)")
      case True
      with read obtain input where
        "readFd (Inr (kdata r)) (tc_input c) = Inr (int (length (kdata r)), None, input)" "buf_inv input"
        "contents input = contents (tc_input c) @ kdata r" "bufsize input = bufsize (tc_input c)" by auto
      then show ?thesis
        using False True n(1) by (auto simp: run readv_input_def Let_def intro!: exI [of _ input] simp flip: w1_def)
    next
      case no: False
      with read False n(1) show ?thesis by (simp add: run readv_input_def Let_def)
    qed
  qed
qed

section \<open>Properties\<close>

text \<open>C17: whatever order messages are sent in and the socket becomes writable in, and however little
  each \<open>write\<close> takes: no step fails, and the bytes that went out followed by the bytes still in
  the output buffer are what they were before followed by exactly the messages sent, in order;
  the channel waits for writability exactly when output is left.\<close>

theorem connection_output_stream:
  assumes "conn_ok a w" and "conns w a = Some c" and "tc_state c = KConnected"
    and "write_documented (kernel w)" and "finds_room a ops w"
  shows "\<exists>w'. foldR (conn_step a) ops w = Inr w' \<and> conn_ok a w' \<and>
    out_stream a w' = out_stream a w @ sent_by ops"
  using conn_run_delivered [OF assms] by (auto simp: delivered_def)

lemma fresh_room: "length message < 1000 \<Longrightarrow> send_room message new_buffer"
  by (simp add: send_room_def buf_room_def append_fits_def new_buffer_def bufsize_def kCheapPrepend_def kInitialSize_def)

theorem connection_output_stream_witness:
  "\<exists>w'. foldR (conn_step 20) [Sends ''hello'', Writable]
       (example_netw 1 (example_conn KConnected new_buffer)) = Inr w' \<and> out_stream 20 w' = ''hello''"
proof -
  have "conn_ok 20 (example_netw 1 (example_conn KConnected new_buffer))"
    by (rule example_conn_ok) (simp_all add: buf_inv_new contents_new poll_bits)
  from connection_output_stream [OF this, of "example_conn KConnected new_buffer" "[Sends ''hello'', Writable]"] show ?thesis
    using short_writes_documented fresh_room [of "''hello''"] contents_new
    by (auto simp: out_stream_def [of 20 "example_netw 1 (example_conn KConnected new_buffer)"])
qed

text \<open>C20: \<open>shutdown()\<close> of a connection that has output left: the state becomes
  \<open>kDisconnecting\<close>, and then, however often the socket becomes writable, all the output goes the way
  it did before, but the write side of the socket is never shut down: \<open>shutdown()\<close> called from
  \<open>handleWrite\<close> does nothing in the state \<open>kDisconnecting\<close>.\<close>

theorem shutdown_with_output_never_half_closes:
  assumes "conn_ok a w" and "conns w a = Some c" and "tc_state c = KConnected"
    and "contents (tc_output c) \<noteq> []" and "write_documented (kernel w)"
  shows "\<exists>w1 w2 calls. tc_shutdown a w = Inr w1 \<and> foldR (\<lambda>_. handleWrite a) (replicate n ()) w1 = Inr w2 \<and>
    out_stream a w2 = out_stream a w \<and> (\<exists>c2. conns w2 a = Some c2 \<and> tc_state c2 = KDisconnecting) \<and>
    sysLog w2 = sysLog w @ calls \<and> list_all (\<lambda>x. \<not> half_closes x) calls"
proof -
  let ?w1 = "tc_mod a (setState KDisconnecting) w"
  obtain ch where "chans w (tc_channel c) = Some ch" "isWriting ch"
    using assms(1,2,4) by (auto simp: conn_ok_def)
  then have "tc_shutdown a w = Inr ?w1" using tc_shutdown_here [OF assms(1-3)] by simp
  moreover have c1: "conns ?w1 a = Some (setState KDisconnecting c)" using assms(2) by simp
  have "delivered a [] ?w1 (foldR (\<lambda>_. handleWrite a) (replicate n ()) ?w1)"
    using assms(5) by (intro handleWrites_delivered [OF conn_ok_setState [OF assms(1)] c1]) simp
  ultimately show ?thesis
    using c1 by (auto simp: delivered_def steady_def out_stream_setState setState_def)
qed

theorem shutdown_with_output_never_half_closes_witness:
  "\<exists>w1 w2. tc_shutdown 20 (example_netw kWriteEvent (example_conn KConnected one_byte_buffer)) = Inr w1 \<and>
     handleWrite 20 w1 = Inr w2 \<and> list_all (\<lambda>x. \<not> half_closes x) (sysLog w2)"
proof -
  have "conn_ok 20 (example_netw kWriteEvent (example_conn KConnected one_byte_buffer))"
    by (rule example_conn_ok) (simp_all add: one_byte_buffer poll_bits)
  from shutdown_with_output_never_half_closes [OF this, of "example_conn KConnected one_byte_buffer" 1] show ?thesis
    using short_writes_documented one_byte_buffer by auto
qed

text \<open>\<open>shutdown()\<close> of a connection without output makes exactly one system call, which shuts the
  write side down; a message sent afterwards is dropped without any effect, and so is a second
  \<open>shutdown()\<close>.\<close>

theorem shutdown_when_idle:
  assumes "conn_ok a w" and "conns w a = Some c" and "tc_state c = KConnected"
    and "contents (tc_output c) = []" and "kret (kernel w (sysLog w) (SysShutdownWr (tc_socket c))) \<ge> 0"
  shows "\<exists>w'. tc_shutdown a w = Inr w' \<and> sysLog w' = sysLog w @ [SysShutdownWr (tc_socket c)] \<and>
    conns w' = (conns w)(a \<mapsto> setState KDisconnecting c) \<and>
    tc_send a message w' = Inr w' \<and> tc_shutdown a w' = Inr w'"
proof -
  obtain ch where "chans w (tc_channel c) = Some ch" "\<not> isWriting ch"
    using assms(1,2,4) by (auto simp: conn_ok_def)
  then have "tc_shutdown a w = Inr (snd (sys (SysShutdownWr (tc_socket c)) (tc_mod a (setState KDisconnecting) w)))"
    using tc_shutdown_here [OF assms(1-3)] assms(5) by (simp add: shutdownWrite_def sys_def Let_def)
  then show ?thesis using assms(2) by (simp add: tc_send_def tc_shutdown_def tc_get_def setState_def)
qed

theorem shutdown_when_idle_witness:
  "\<exists>w'. tc_shutdown 20 (example_netw 1 (example_conn KConnected new_buffer)) = Inr w' \<and>
     sysLog w' = [SysShutdownWr 5] \<and> tc_send 20 ''late'' w' = Inr w'"
proof -
  have "conn_ok 20 (example_netw 1 (example_conn KConnected new_buffer))"
    by (rule example_conn_ok) (simp_all add: buf_inv_new contents_new poll_bits)
  from shutdown_when_idle [OF this, of "example_conn KConnected new_buffer" "''late''"] show ?thesis
    by (auto simp: contents_new short_writes_def ret_def)
qed

text \<open>C18: \<open>handleRead\<close> on every branch of the \<open>readv\<close> it makes. An error changes nothing. Bytes that the
  input buffer takes, those that spill over into the block on the stack included, are appended to
  it, unchanged, and the message callback is called once, with the connection as it is then; an end of
  file is \<open>handleClose\<close>. Bytes that spill and for which the contents cannot move down far enough end in
  the assertion of \<open>append\<close> or behind the end of the vector.\<close>

theorem handleRead_branches:
  assumes "conns w a = Some c" and "loops w (tc_loop c) \<noteq> None" and "isInLoopThread (tc_loop c) w"
    and "chans w (tc_channel c) = Some ch" and "buf_inv (tc_input c)" and "bufsize (tc_input c) + extrabuf_size < 2 ^ 31"
    and "kernel w (sysLog w) (SysReadv (ch_fd ch) (writeableBytes (tc_input c) + extrabuf_size)) = r"
    and "readv_documented (tc_input c) r"
  shows "let w1 = snd (sys (SysReadv (ch_fd ch) (writeableBytes (tc_input c) + extrabuf_size)) w) in
    if kret r < 0 then handleRead hk a t w = Inr w1
    else if \<not> takes (kdata r) (tc_input c)
    then handleRead hk a t w = Inl (spill_fault (overrun (kdata r) (tc_input c)) (tc_input c))
    else \<exists>input. buf_inv input \<and> contents input = contents (tc_input c) @ kdata r \<and> bufsize input = bufsize (tc_input c) \<and>
      handleRead hk a t w = (let w2 = tc_mod a (\<lambda>c. c\<lparr>tc_input := input\<rparr>) w1
        in if kret r > 0 then call_hook (tc_messageCb c) (\<lambda>cb. on_message hk cb a t w2) else handleClose hk a w2)"
  by (rule handleRead_outcome [OF assms])

text \<open>Two bytes fit; 1025 bytes do not, in the buffer of a new connection.\<close>

definition long_reads :: "syscall list \<Rightarrow> syscall \<Rightarrow> kres" where
  "long_reads calls call = (ret 1025)\<lparr>kdata := replicate 1025 CHR ''x''\<rparr>"

theorem handleRead_branches_witness:
  "(\<exists>input. handleRead \<lparr>on_connection = \<lambda>_ _. Inr, on_message = \<lambda>cb a t w. if cb = 2 then Inr w else Inl AssertFail,
        on_close = \<lambda>_ _. Inr\<rparr> 20 7 (example_netw 1 (example_conn KConnected new_buffer)) =
      Inr (tc_mod 20 (\<lambda>c. c\<lparr>tc_input := input\<rparr>) (snd (sys (SysReadv 5 66560) (example_netw 1 (example_conn KConnected new_buffer))))) \<and>
    contents input = ''ok'') \<and>
   handleRead \<lparr>on_connection = \<lambda>_ _. Inr, on_message = \<lambda>_ _ _. Inr, on_close = \<lambda>_ _. Inr\<rparr> 20 7
      ((example_netw 1 (example_conn KConnected new_buffer))\<lparr>kernel := long_reads\<rparr>) = Inl UndefinedBehaviour"
proof
  let ?hk = "\<lparr>on_connection = \<lambda>_ _. Inr, on_message = \<lambda>cb a t w. if cb = 2 then Inr w else Inl AssertFail,
    on_close = \<lambda>_ _. Inr\<rparr> :: netw hooks"
  let ?w = "example_netw 1 (example_conn KConnected new_buffer)"
  have size: "writeableBytes new_buffer + extrabuf_size = 66560"
    by (simp add: writeableBytes_def new_buffer_def bufsize_def extrabuf_size_def kCheapPrepend_def kInitialSize_def size_t_def)
  show "\<exists>input. handleRead ?hk 20 7 ?w = Inr (tc_mod 20 (\<lambda>c. c\<lparr>tc_input := input\<rparr>) (snd (sys (SysReadv 5 66560) ?w))) \<and>
    contents input = ''ok''"
    using handleRead_branches [of ?w 20 "example_conn KConnected new_buffer" "(new_channel 0 5)\<lparr>ch_events := 1\<rparr>"
        "(ret 2)\<lparr>kdata := ''ok''\<rparr>" ?hk 7] size
    by (auto simp: Let_def new_channel_def buf_inv_new contents_new call_hook_def short_writes_def ret_def readv_documented_def
        read_cap_def extrabuf_size_def takes_def overrun_def kCheapPrepend_def)
  let ?hk' = "\<lparr>on_connection = \<lambda>_ _. Inr, on_message = \<lambda>_ _ _. Inr, on_close = \<lambda>_ _. Inr\<rparr> :: netw hooks"
  let ?v = "?w\<lparr>kernel := long_reads\<rparr>"
  have "conns ?v = conns ?w" "loops ?v = loops ?w" "isInLoopThread 0 ?v = isInLoopThread 0 ?w" "chans ?v = chans ?w"
    by (simp_all add: isInLoopThread_def)
  then show "handleRead ?hk' 20 7 ?v = Inl UndefinedBehaviour"
    using handleRead_branches [of ?v 20 "example_conn KConnected new_buffer" "(new_channel 0 5)\<lparr>ch_events := 1\<rparr>"
        "(ret 1025)\<lparr>kdata := replicate 1025 CHR ''x''\<rparr>" ?hk' 7]
    by (simp add: Let_def buf_inv_new long_reads_def ret_def readv_documented_def read_cap_def extrabuf_size_def
        takes_def overrun_def kCheapPrepend_def spill_fault_def)
qed

text \<open>The life of a connection on its loop. \<open>connectionEstablished\<close> of a new connection succeeds
  up to the callback: it is connected and its channel waits for input. In any other state it fails
  its assertion.\<close>

theorem connection_established:
  assumes "loop_ok (tc_loop c) w" and "conns w a = Some c" and "usable (tc_loop c) (tc_channel c) w"
  shows "if tc_state c = KConnecting
    then \<exists>w1 ch. connectionEstablished hk a w =
        (case tc_connectionCb c of None \<Rightarrow> Inr w1 | Some cb \<Rightarrow> on_connection hk cb a w1) \<and>
      conns w1 = (conns w)(a \<mapsto> setState KConnected c) \<and> loop_ok (tc_loop c) w1 \<and>
      chans w1 (tc_channel c) = Some ch \<and> ch_events ch AND kReadEvent = kReadEvent \<and>
      registered (tc_loop c) w1 (ch_fd ch) = Some (tc_channel c)
    else connectionEstablished hk a w = Inl AssertFail"
proof (cases "tc_state c = KConnecting")
  case True
  from connectionEstablished_ok [OF assms True, of hk] show ?thesis using True by fastforce
next
  case False
  have "in_loop (tc_loop c) w k = k" for k :: "'a netw_scheme res" by (rule in_loop_here [OF assms(1)])
  then show ?thesis using False assms(2) by (simp add: connectionEstablished_def tc_get_def)
qed

theorem connection_established_witness:
  "\<exists>w1. connectionEstablished \<lparr>on_connection = \<lambda>_ _. Inr, on_message = \<lambda>_ _ _. Inr, on_close = \<lambda>_ _. Inr\<rparr> 20
       (example_netw 0 (example_conn KConnecting new_buffer)) = Inr w1 \<and>
     conns w1 20 = Some (setState KConnected (example_conn KConnecting new_buffer))"
  using connection_established [of "example_conn KConnecting new_buffer" "example_netw 0 (example_conn KConnecting new_buffer)" 20
      "\<lparr>on_connection = \<lambda>_ _. Inr, on_message = \<lambda>_ _ _. Inr, on_close = \<lambda>_ _. Inr\<rparr>"] example_loop_usable
  by auto

text \<open>C19: the end of a connection, when the server or client that owns it has \<open>connectionDestroyed\<close>
  run. The channel leaves the poller and its descriptor is free, but the connection callback, which
  tells the user that a connection has come or gone, is not called: whatever it would do, the
  outcome is the same.\<close>

theorem connection_ends_silently:
  assumes "attached (tc_loop c) (tc_channel c) w" and "conns w a = Some c" and "chans w (tc_channel c) = Some ch"
    and "tc_closeCb c = Some cb" and "\<And>v. on_close hk cb a v = Inr v"
  shows "\<exists>w1 w2. handleClose hk a w = Inr w1 \<and> connectionDestroyed hk a w1 = Inr w2 \<and>
    conns w2 = (conns w)(a \<mapsto> setState KDisconnected c) \<and> loop_ok (tc_loop c) w2 \<and>
    registered (tc_loop c) w2 = (registered (tc_loop c) w)(ch_fd ch := None) \<and>
    (\<forall>f. handleClose (hk\<lparr>on_connection := f\<rparr>) a w = Inr w1 \<and>
       connectionDestroyed (hk\<lparr>on_connection := f\<rparr>) a w1 = Inr w2)"
proof -
  let ?l = "tc_loop c" and ?d = "tc_channel c"
  let ?v = "tc_mod a (setState KDisconnected) w"
  have att: "attached ?l ?d ?v" "chans ?v ?d = Some ch" using assms(1,3) by simp_all
  from disableAll_parks [OF this] obtain w1 where
    w1: "disableAll ?d ?v = Inr w1" "parked_at ?l ?d w1" "rest_same ?l ?v w1"
    "chans w1 = (chans ?v)(?d \<mapsto> ev_disableAll ch)" "registered ?l w1 = registered ?l ?v" by blast
  then have "chans w1 ?d = Some (ev_disableAll ch)" by simp
  from parked_removed [OF w1(2) this] obtain w2 where
    w2: "el_removeChannel ?l ?d w1 = Inr w2" "loop_ok ?l w2" "rest_same ?l w1 w2"
    "registered ?l w2 = (registered ?l w1)(ch_fd (ev_disableAll ch) := None)" by blast
  have c1: "conns w1 = (conns w)(a \<mapsto> setState KDisconnected c)" and "conns w2 = conns w1"
    using rest_same_conns [OF w1(3)] rest_same_conns [OF w2(3)] assms(2) by simp_all
  have "in_loop ?l w k = k" for k :: "'a netw_scheme res"
    using assms(1) by (intro in_loop_here) (auto simp: attached_def loop_ok_def)
  then have close: "handleClose h a w = Inr w1" if "on_close h = on_close hk" for h
    using assms(2,4,5) w1(1) c1 that by (simp add: handleClose_def tc_get_def call_hook_def setState_def)
  have "in_loop ?l w1 k = k" for k :: "'a netw_scheme res"
    using w1(2) by (intro in_loop_here) (auto simp: parked_at_def attached_def loop_ok_def)
  then have destroy: "connectionDestroyed h a w1 = Inr w2" for h
    using c1 w2(1) by (simp add: connectionDestroyed_def tc_get_def setState_def)
  show ?thesis
    using close destroy c1 w2 \<open>conns w2 = conns w1\<close> w1(5)
    by (intro exI [of _ w1] exI [of _ w2]) (simp add: ev_disableAll_def)
qed

definition attached_netw :: "tcp_connection \<Rightarrow> netw" where
  "attached_netw c = (example_netw 3 c)\<lparr>chans := [1 \<mapsto> (new_channel 0 5)\<lparr>ch_events := 3, ch_index := 0\<rparr>],
     loops := [0 \<mapsto> set_poller (PollObj \<lparr>pollfds = [\<lparr>pfd_fd = 5, pfd_events = 3, pfd_revents = 0\<rparr>],
       pp_channels = [5 \<mapsto> 1]\<rparr>) (example_eventloop [])]\<rparr>"

lemma attached_netw: "attached 0 1 (attached_netw c)" "conns (attached_netw c) = [20 \<mapsto> c]"
  "chans (attached_netw c) 1 = Some ((new_channel 0 5)\<lparr>ch_events := 3, ch_index := 0\<rparr>)"
  by (simp_all add: attached_netw_def attached_def set_poller_def pp_ok_def keys_def pfd_key_def valid_fd_def owned_def
      new_channel_def isInLoopThread_def example_netw_def)

theorem connection_ends_silently_witness:
  "\<exists>w1 w2. let hk = \<lparr>on_connection = \<lambda>_ _. Inr, on_message = \<lambda>_ _ _. Inr, on_close = \<lambda>_ _. Inr\<rparr> in
     handleClose hk 20 (attached_netw (example_conn KConnected new_buffer)) = Inr w1 \<and>
     connectionDestroyed hk 20 w1 = Inr w2 \<and> registered 0 w2 5 = None"
  using connection_ends_silently [of "example_conn KConnected new_buffer" "attached_netw (example_conn KConnected new_buffer)" 20
      "(new_channel 0 5)\<lparr>ch_events := 3, ch_index := 0\<rparr>" "CloseServer 8"
      "\<lparr>on_connection = \<lambda>_ _. Inr, on_message = \<lambda>_ _ _. Inr, on_close = \<lambda>_ _. Inr\<rparr>"] attached_netw
  by (auto simp: new_channel_def)

end
