(* ===== verification/Tcp_Delivery.thy ===== *)
theory Tcp_Delivery
  imports Tcp_Stream
begin

text \<open>
  Many connections on one loop: what a message sent on one connection leaves alone. The state of
  every other connection and its output stream are the same afterwards, and so is everything the
  program keeps beside its connections.
\<close>

section \<open>What a step leaves alone\<close>

definition same_rest :: "'z netw_scheme \<Rightarrow> 'z netw_scheme \<Rightarrow> bool" where
  "same_rest w w' \<longleftrightarrow> netw.more w' = netw.more w \<and> tqs w' = tqs w \<and> timers w' = timers w \<and> kernel w' = kernel w \<and>
     curTid w' = curTid w \<and> threadOf w' = threadOf w \<and> threadLoop w' = threadLoop w"

lemma same_rest_refl [simp]: "same_rest w w"
  by (simp add: same_rest_def)

lemma same_rest_trans: "same_rest u v \<Longrightarrow> same_rest v w \<Longrightarrow> same_rest u w"
  by (simp add: same_rest_def)

lemma same_rest_step [simp]:
  "same_rest w (snd (sys call w))" "same_rest w (tc_mod a f w)" "same_rest w (queued l fns calls w)"
  by (simp_all add: same_rest_def sys_def tc_mod_def queued_def el_mod_def)

lemma same_rest_events: "rest_same l w w' \<Longrightarrow> same_rest w w'"
  by (cases w; cases w') (auto simp: rest_same_def same_rest_def)

definition bystander :: "nat \<Rightarrow> 'z netw_scheme \<Rightarrow> 'z netw_scheme \<Rightarrow> bool" where
  "bystander b w w' \<longleftrightarrow> conn_ok b w' \<and> conns w' b = conns w b \<and> out_stream b w' = out_stream b w"

lemma bystander_trans: "bystander b u v \<Longrightarrow> bystander b v w \<Longrightarrow> bystander b u w"
  by (simp add: bystander_def)

lemma same_poller_trans:
  "rel_option (\<lambda>e e'. el_poller e' = el_poller e \<and> el_wakeupFd e' = el_wakeupFd e) x y \<Longrightarrow>
   rel_option (\<lambda>e e'. el_poller e' = el_poller e \<and> el_wakeupFd e' = el_wakeupFd e) y z \<Longrightarrow>
   rel_option (\<lambda>e e'. el_poller e' = el_poller e \<and> el_wakeupFd e' = el_wakeupFd e) x z"
  by (cases x; cases y; cases z) auto

lemma calm_trans: "calm fd u v \<Longrightarrow> calm fd v w \<Longrightarrow> calm fd u w"
  unfolding calm_def by (auto intro: same_poller_trans)

lemma calm_bystander:
  assumes "calm (tc_socket c) w w'" and "conns w b = Some c" and "conn_ok b w"
  shows "bystander b w w'"
  using calm_conn_ok [OF assms(1,3)] calmD(3) [OF assms(1)] calm_sent [OF assms(1)] assms(2)
  by (simp add: bystander_def out_stream_def)

lemma tc_mod_bystander: "a \<noteq> b \<Longrightarrow> conn_ok b w \<Longrightarrow> bystander b w (tc_mod a f w)"
  by (auto simp: bystander_def conn_ok_def out_stream_def split: option.splits)

text \<open>The channel of a connection on the same loop changes what it waits for.\<close>

definition apart :: "nat \<Rightarrow> nat \<Rightarrow> 'z netw_scheme \<Rightarrow> bool" where
  "apart a b w \<longleftrightarrow> a \<noteq> b \<and> (\<exists>c d. conns w a = Some c \<and> conns w b = Some d \<and> tc_loop c = tc_loop d \<and>
     tc_channel c \<noteq> tc_channel d \<and> tc_socket c \<noteq> tc_socket d)"

lemma change_events_bystander:
  assumes "loop_ok l w" and "usable l d w" and "chans w d = Some ch"
    and "ch_update d (ch_put d (ch\<lparr>ch_events := ev\<rparr>) w) = Inr w'"
  shows "same_rest w w'" and "conns w' = conns w"
    and "conn_ok b w \<Longrightarrow> conns w b = Some c \<Longrightarrow> tc_loop c = l \<Longrightarrow> tc_channel c \<noteq> d \<Longrightarrow> tc_socket c \<noteq> ch_fd ch \<Longrightarrow>
      bystander b w w'"
proof -
  from change_events_ok [OF assms(1-3), of ev] assms(4) obtain ch' where
    u: "loop_ok l w'" "chans w' = (chans w)(d \<mapsto> ch')" "registered l w' = (registered l w)(ch_fd ch \<mapsto> d)" "rest_same l w w'"
    by auto
  show same: "same_rest w w'" by (rule same_rest_events [OF u(4)])
  show conns: "conns w' = conns w" by (rule rest_same_conns [OF u(4)])
  assume b: "conn_ok b w" "conns w b = Some c" "tc_loop c = l" "tc_channel c \<noteq> d" "tc_socket c \<noteq> ch_fd ch"
  then obtain x e where k: "chans w (tc_channel c) = Some x" "ch_fd x = tc_socket c"
    "loops w l = Some e" "el_wakeupFd e \<noteq> tc_socket c" "usable l (tc_channel c) w" "buf_inv (tc_output c)"
    "isWriting x \<longleftrightarrow> contents (tc_output c) \<noteq> []" by (auto simp: conn_ok_def)
  from u(4) k(3) obtain p where p: "loops w' l = Some (set_poller p e)" by (auto simp: rest_same_def)
  have x': "chans w' (tc_channel c) = Some x" using u(2) k(1) b(4) by simp
  have "po_channels p (tc_socket c) = po_channels (el_poller e) (tc_socket c)"
    using fun_cong [OF u(3), of "tc_socket c"] p k(3) b(5) by (simp add: registered_def set_poller_def)
  then have "usable l (tc_channel c) w'"
    using k(1-3,5) p x' by (auto simp: usable_def set_poller_def po.admissible_def)
  then have "conn_ok b w'"
    using conns b(2,3) k p x' u(1)
    by (intro conn_ok_def [THEN iffD2] exI [of _ c] exI [of _ x] exI [of _ "set_poller p e"]) (simp add: set_poller_def)
  moreover have "sent (tc_socket c) w' = sent (tc_socket c) w" using ch_update_sent [OF assms(4)] by simp
  ultimately show "bystander b w w'" using conns b(2) by (simp add: bystander_def out_stream_def)
qed

section \<open>Room in a buffer\<close>

text \<open>The bytes that fit behind the output without moving it.\<close>

definition spare :: "buffer \<Rightarrow> int" where
  "spare b = bufsize b - writeIndex b"

lemma append_spare:
  assumes "buf_inv b" and "int (length d) < spare b" and "append_bytes d b = Inr out"
  shows "spare out = spare b - int (length d)" and "bufsize out = bufsize b"
proof -
  have "append_bytes d b = append_tail d b"
    using assms(1,2) by (simp add: append_by_tail writeable_eq spare_def)
  with append_tail_ok [OF assms(1), of d] assms(2,3) have o: "buf_inv out" "contents out = contents b @ d" "bufsize out = bufsize b"
    "readIndex out = readIndex b" by (auto simp: spare_def)
  have "int (length (contents out)) = int (length (contents b)) + int (length d)" using o(2) by simp
  then have "writeIndex out = writeIndex b + int (length d)"
    using length_contents [OF o(1)] length_contents [OF assms(1)] o(4) readable_eq [OF o(1)] readable_eq [OF assms(1)] by simp
  then show "spare out = spare b - int (length d)" "bufsize out = bufsize b" using o(3) by (simp_all add: spare_def)
qed

lemma spare_room:
  assumes "buf_inv b" and "int (length message) < spare b" and "bufsize b < 2 ^ 30"
  shows "send_room message b" and "length message < 2 ^ 31"
proof -
  have "int (length message) < 2 ^ 30" using assms buf_invD [OF assms(1)] by (simp add: spare_def)
  then show "send_room message b" "length message < 2 ^ 31"
    using assms(2,3) by (auto simp: send_room_def buf_room_def append_fits_def spare_def Let_def)
qed

section \<open>Sending\<close>

lemma queueWriteComplete_rest:
  "loops w (tc_loop c) \<noteq> None \<Longrightarrow> queueWriteComplete a c w = Inr w' \<Longrightarrow> same_rest w w'"
  by (auto simp: queueWriteComplete_def queueInLoop_eq split: if_splits)

text \<open>What goes out at once, before the rest of the message is kept.\<close>

lemma send_first:
  assumes "loops w (tc_loop c) = Some e"
    and "(if direct
       then let (r, w1) = sys (SysWrite fd message) w
            in if kret r \<ge> 0
               then if size_t (kret r) < int (length message) then Inr (kret r, w1)
                    else bindR (queueWriteComplete a c w1) (\<lambda>w2. Inr (kret r, w2))
               else Inr (0, w1)
       else Inr (0, w)) = Inr (n, w3)"
  shows "same_rest w w3" and "f \<noteq> fd \<Longrightarrow> el_wakeupFd e \<noteq> f \<Longrightarrow> calm f w w3"
proof -
  define w1 where "w1 = snd (sys (SysWrite fd message) w)"
  have e1: "loops w1 (tc_loop c) = Some e" using assms(1) by (simp add: w1_def)
  consider "w3 = w" | "w3 = w1" | "queueWriteComplete a c w1 = Inr w3"
    using assms(2) by (auto simp: w1_def split_beta Let_def bindR_eq_Inr split: if_splits)
  then have "same_rest w w3 \<and> (f \<noteq> fd \<longrightarrow> el_wakeupFd e \<noteq> f \<longrightarrow> calm f w w3)"
  proof cases
    case 2
    then show ?thesis by (simp add: w1_def calm_write_other)
  next
    case 3
    have "same_rest w1 w3" using e1 by (intro queueWriteComplete_rest [OF _ 3]) simp
    then have "same_rest w w3" using same_rest_trans [of w w1 w3] by (simp add: w1_def)
    moreover have "calm f w w3" if "f \<noteq> fd" "el_wakeupFd e \<noteq> f"
    proof -
      have "calm f w w1" using that(1) by (simp add: w1_def calm_write_other)
      moreover have "calm f w1 w3" using calm_queueWriteComplete [OF e1 that(2), of a] 3 by simp
      ultimately show ?thesis by (rule calm_trans)
    qed
    ultimately show ?thesis by blast
  qed simp
  then show "same_rest w w3" and "f \<noteq> fd \<Longrightarrow> el_wakeupFd e \<noteq> f \<Longrightarrow> calm f w w3" by simp_all
qed

text \<open>\<open>n\<close> is the number of bytes the output may have grown by.\<close>

definition sent_from :: "nat \<Rightarrow> tcp_connection \<Rightarrow> nat \<Rightarrow> 'z netw_scheme \<Rightarrow> 'z netw_scheme \<Rightarrow> bool" where
  "sent_from a c n w w' \<longleftrightarrow> same_rest w w' \<and> (\<exists>out. conns w' = (conns w)(a \<mapsto> c\<lparr>tc_output := out\<rparr>) \<and>
       (int n < spare (tc_output c) \<longrightarrow> spare (tc_output c) - int n \<le> spare out \<and> bufsize out = bufsize (tc_output c))) \<and>
     (\<forall>b. conn_ok b w \<longrightarrow> apart a b w \<longrightarrow> bystander b w w')"

lemma send_rest_from:
  assumes run: "send_rest a c message n w = Inr w'" and c: "conns w a = Some c" "chans w (tc_channel c) = Some ch"
    "ch_fd ch = tc_socket c" "loop_ok (tc_loop c) w" "usable (tc_loop c) (tc_channel c) w" "buf_inv (tc_output c)"
  shows "sent_from a c (length message) w w'"
proof (cases "size_t n < int (length message)")
  case False
  then have w': "w' = w" using run by (simp add: send_rest_def)
  have "conns w' = (conns w)(a \<mapsto> c\<lparr>tc_output := tc_output c\<rparr>)" using c(1) by (simp add: w' fun_upd_idem)
  then have "\<exists>out. conns w' = (conns w)(a \<mapsto> c\<lparr>tc_output := out\<rparr>) \<and>
      (int (length message) < spare (tc_output c) \<longrightarrow>
        spare (tc_output c) - int (length message) \<le> spare out \<and> bufsize out = bufsize (tc_output c))"
    by (intro exI [of _ "tc_output c"]) simp
  then show ?thesis unfolding sent_from_def bystander_def by (metis w' same_rest_refl)
next
  case True
  with run obtain out where out: "append_bytes (drop (nat n) message) (tc_output c) = Inr out"
    by (auto simp: send_rest_def bindR_eq_Inr)
  have grown: "spare (tc_output c) - int (length message) \<le> spare out \<and> bufsize out = bufsize (tc_output c)"
    if "int (length message) < spare (tc_output c)"
    using append_spare [OF c(6) _ out] that by simp
  let ?v = "tc_mod a (\<lambda>c. c\<lparr>tc_output := out\<rparr>) w"
  have v: "same_rest w ?v" "conns ?v = (conns w)(a \<mapsto> c\<lparr>tc_output := out\<rparr>)" using c(1) by simp_all
  have vb: "bystander b w ?v" if "conn_ok b w" "apart a b w" for b
    using that tc_mod_bystander [of a b w] by (auto simp: apart_def)
  have run': "(if \<not> isWriting ch then enableWriting (tc_channel c) ?v else Inr ?v) = Inr w'"
    using run True out c(2) by (simp add: send_rest_def ch_get_def Let_def)
  show ?thesis
  proof (cases "isWriting ch")
    case True
    with run' v vb grown show ?thesis by (auto simp: sent_from_def)
  next
    case False
    then have up: "ch_update (tc_channel c) (ch_put (tc_channel c) (ch\<lparr>ch_events := ch_events ch OR kWriteEvent\<rparr>) ?v) = Inr w'"
      using run' c(2) by (simp add: enableWriting_def ch_get_def ev_enableWriting_def)
    have pre: "loop_ok (tc_loop c) ?v" "usable (tc_loop c) (tc_channel c) ?v" "chans ?v (tc_channel c) = Some ch"
      using c by simp_all
    note ev = change_events_bystander [OF pre up]
    have "bystander b w w'" if b: "conn_ok b w" "apart a b w" for b
    proof -
      from b(2) c(1,3) obtain d where "conns w b = Some d" "tc_loop d = tc_loop c" "tc_channel d \<noteq> tc_channel c"
        "tc_socket d \<noteq> ch_fd ch" "b \<noteq> a" by (auto simp: apart_def)
      then show ?thesis
        using bystander_trans [OF vb [OF b]] ev(3) [of b d] vb [OF b] by (simp add: bystander_def)
    qed
    then show ?thesis using same_rest_trans [OF v(1) ev(1)] v(2) ev(2) grown by (auto simp: sent_from_def)
  qed
qed

text \<open>A message sent on one connection does not disturb another one on the same loop.\<close>

lemma sendInLoop_from:
  assumes ok: "conn_ok a w" and c: "conns w a = Some c" and run: "sendInLoop a message w = Inr w'"
  shows "sent_from a c (length message) w w'"
proof -
  from ok c obtain ch e where k: "chans w (tc_channel c) = Some ch" "ch_fd ch = tc_socket c"
    "loops w (tc_loop c) = Some e" "loop_ok (tc_loop c) w" "usable (tc_loop c) (tc_channel c) w"
    "el_wakeupFd e \<noteq> tc_socket c" "buf_inv (tc_output c)" by (auto simp: conn_ok_def)
  from run sendInLoop_unfold [OF k(4) c k(1), of message] obtain n w3 where
    n: "(if \<not> isWriting ch \<and> readableBytes (tc_output c) = 0
         then let (r, w1) = sys (SysWrite (ch_fd ch) message) w
              in if kret r \<ge> 0
                 then if size_t (kret r) < int (length message) then Inr (kret r, w1)
                      else bindR (queueWriteComplete a c w1) (\<lambda>w2. Inr (kret r, w2))
                 else Inr (0, w1)
         else Inr (0, w)) = Inr (n, w3)" and rest: "send_rest a c message n w3 = Inr w'"
    by (auto simp: bindR_eq_Inr)
  note first = send_first [OF k(3) n]
  define f where "f = max (ch_fd ch) (el_wakeupFd e) + 1"
  have calm: "calm f w w3" by (rule first(2)) (simp_all add: f_def)
  have same: "conns w3 = conns w" "chans w3 = chans w" using calmD [OF calm] by simp_all
  have "loop_ok (tc_loop c) w3" "usable (tc_loop c) (tc_channel c) w3"
    using calm_loop_ok [OF calm k(4)] calm_usable [OF calm k(5)] by simp_all
  with same c k(1,2,7) have r: "sent_from a c (length message) w3 w'" by (intro send_rest_from [OF rest]) simp_all
  have "bystander b w w'" if b: "conn_ok b w" "apart a b w" for b
  proof -
    from b c k(2,3) obtain d where d: "conns w b = Some d" "tc_socket d \<noteq> ch_fd ch" "el_wakeupFd e \<noteq> tc_socket d"
      by (auto simp: apart_def conn_ok_def)
    have "bystander b w w3" by (rule calm_bystander [OF first(2) d(1) b(1)]) (use d in simp_all)
    moreover from this r b(2) same have "bystander b w3 w'" by (auto simp: sent_from_def bystander_def apart_def)
    ultimately show ?thesis by (rule bystander_trans)
  qed
  then show ?thesis using r same same_rest_trans [OF first(1)] by (auto simp: sent_from_def)
qed

text \<open>Nor does output that is written when the socket can take it.\<close>

lemma handleWrite_from:
  assumes ok: "conn_ok a w" and c: "conns w a = Some c" "tc_state c = KConnected" and run: "handleWrite a w = Inr w'"
    and doc: "write_documented (kernel w)"
  shows "sent_from a c 0 w w'"
proof -
  from ok c obtain ch e where k: "chans w (tc_channel c) = Some ch" "ch_fd ch = tc_socket c"
    "loops w (tc_loop c) = Some e" "loop_ok (tc_loop c) w" "usable (tc_loop c) (tc_channel c) w"
    "el_wakeupFd e \<noteq> tc_socket c" "buf_inv (tc_output c)" by (auto simp: conn_ok_def)
  let ?data = "contents (tc_output c)"
  define r where "r = kernel w (sysLog w) (SysWrite (tc_socket c) ?data)"
  define w1 where "w1 = snd (sys (SysWrite (tc_socket c) ?data) w)"
  have sys: "sys (SysWrite (tc_socket c) ?data) w = (r, w1)" by (simp add: sys_def r_def w1_def)
  have idle: "sent_from a c 0 w v" if "same_rest w v" "conns v = conns w" "\<And>b. conn_ok b w \<Longrightarrow> apart a b w \<Longrightarrow> bystander b w v" for v
    using that c(1) unfolding sent_from_def by (auto intro!: exI [of _ "tc_output c"] simp: fun_upd_idem)
  have other: "bystander b w w1" if "conn_ok b w" "apart a b w" for b
  proof -
    from that(2) c(1) obtain d where d: "conns w b = Some d" "tc_socket d \<noteq> tc_socket c" by (auto simp: apart_def)
    then show ?thesis using calm_bystander [OF _ d(1) that(1)] calm_write_other [of "tc_socket c" "tc_socket d" w ?data] by (simp add: w1_def)
  qed
  have w1: "same_rest w w1" "conns w1 = conns w" by (simp_all add: w1_def)
  consider "w' = w" | "w' = w1" | out where "retrieve (kret r) (tc_output c) = Inr out" "0 \<le> kret r" "kret r \<le> int (length ?data)"
    "(if readableBytes out = 0
      then bindR (disableWriting (tc_channel c) (tc_mod a (\<lambda>c. c\<lparr>tc_output := out\<rparr>) w1)) (queueWriteComplete a c)
      else Inr (tc_mod a (\<lambda>c. c\<lparr>tc_output := out\<rparr>) w1)) = Inr w'"
    using run c k sys doc
    by (auto simp: handleWrite_def tc_get_def ch_get_def in_loop_here read_all_contents Let_def bindR_eq_Inr
      write_documented_def r_def split: if_splits)
  then show ?thesis
  proof cases
    case 1
    then show ?thesis using idle [of w] by (simp add: bystander_def)
  next
    case 2
    then show ?thesis using idle [of w1] w1 other by simp
  next
    case (3 out)
    have out: "out = (tc_output c)\<lparr>readIndex := readIndex (tc_output c) + kret r\<rparr>"
      using 3(1-3) retrieve_ok [OF k(7)] length_contents [OF k(7)] readable_eq [OF k(7)] by simp
    have grown: "spare out = spare (tc_output c)" "bufsize out = bufsize (tc_output c)" by (simp_all add: out spare_def bufsize_def)
    let ?v = "tc_mod a (\<lambda>c. c\<lparr>tc_output := out\<rparr>) w1"
    have v: "same_rest w ?v" "conns ?v = (conns w)(a \<mapsto> c\<lparr>tc_output := out\<rparr>)" "chans ?v = chans w" "loops ?v = loops w"
      using c(1) same_rest_trans [OF w1(1), of ?v] by (simp_all add: w1_def)
    have vb: "bystander b w ?v" if "conn_ok b w" "apart a b w" for b
    proof -
      have "conn_ok b w1" using other [OF that] by (simp add: bystander_def)
      then show ?thesis using bystander_trans [OF other [OF that] tc_mod_bystander [of a b w1]] that(2) by (simp add: apart_def)
    qed
    show ?thesis
    proof (cases "readableBytes out = 0")
      case False
      then have "w' = ?v" using 3(4) by simp
      then show ?thesis using v(1,2) vb grown by (auto simp: sent_from_def)
    next
      case True
      let ?ev = "ch_events ch AND NOT kWriteEvent"
      from True 3(4) obtain w3 where w3: "disableWriting (tc_channel c) ?v = Inr w3" "queueWriteComplete a c w3 = Inr w'"
        by (auto simp: bindR_eq_Inr)
      then have up: "ch_update (tc_channel c) (ch_put (tc_channel c) (ch\<lparr>ch_events := ?ev\<rparr>) ?v) = Inr w3"
        using k(1) v(3) by (simp add: disableWriting_def ch_get_def ev_disableWriting_def)
      have calm1: "calm (tc_socket c + 1) w w1" by (simp add: w1_def calm_write_other)
      have pre: "loop_ok (tc_loop c) ?v" "usable (tc_loop c) (tc_channel c) ?v" "chans ?v (tc_channel c) = Some ch"
        using calm_loop_ok [OF calm1 k(4)] calm_usable [OF calm1 k(5)] k(1) v(3) by simp_all
      note ev = change_events_bystander [OF pre up]
      from change_events_ok [OF pre, of ?ev] up have "rest_same (tc_loop c) ?v w3" by auto
      with k(3) v(4) obtain q where q: "loops w3 (tc_loop c) = Some (set_poller q e)" by (auto simp: rest_same_def)
      have rest: "same_rest w w'"
        using same_rest_trans [OF same_rest_trans [OF v(1) ev(1)] queueWriteComplete_rest [OF _ w3(2)]] q by simp
      have conns: "conns w' = conns w3"
      proof -
        have "el_wakeupFd (set_poller q e) \<noteq> el_wakeupFd e + 1" by (simp add: set_poller_def)
        from calm_queueWriteComplete [OF q this, of a] w3(2) show ?thesis using calmD(3) by fastforce
      qed
      have "bystander b w w'" if b: "conn_ok b w" "apart a b w" for b
      proof -
        from b(2) c(1) k(2) obtain d where d: "conns w b = Some d" "tc_loop d = tc_loop c" "tc_channel d \<noteq> tc_channel c"
          "tc_socket d \<noteq> ch_fd ch" "b \<noteq> a" by (auto simp: apart_def)
        have "conn_ok b ?v" "conns ?v b = Some d" using vb [OF b] d(1) by (simp_all only: bystander_def)
        then have "bystander b ?v w3" using d(2-4) by (rule ev(3))
        with vb [OF b] have b3: "bystander b w w3" by (rule bystander_trans)
        have "el_wakeupFd (set_poller q e) \<noteq> tc_socket d" using b(1) d(1,2) k(3) by (auto simp: conn_ok_def set_poller_def)
        from calm_queueWriteComplete [OF q this, of a] w3(2) have "calm (tc_socket d) w3 w'" by simp
        then have "bystander b w3 w'"
          using b3 d(1) by (intro calm_bystander [of d]) (simp_all add: bystander_def)
        with b3 show ?thesis by (rule bystander_trans)
      qed
      then show ?thesis using rest conns ev(2) v(2) grown by (auto simp: sent_from_def)
    qed
  qed
qed

section \<open>Delivering to many\<close>

text \<open>
  The contract of a set \<open>S\<close> of recipients: a message posted to one of them that has room for it
  goes to the end of its stream, uses no more room than its length, and leaves the streams and the
  room of the others and the rest of the state alone.
\<close>

locale postbox =
  fixes ok :: "nat set \<Rightarrow> 'w \<Rightarrow> bool" and room :: "nat \<Rightarrow> nat \<Rightarrow> 'w \<Rightarrow> bool"
    and stream :: "nat \<Rightarrow> 'w \<Rightarrow> string" and post :: "nat \<Rightarrow> string \<Rightarrow> 'w \<Rightarrow> 'w res" and same :: "'w \<Rightarrow> 'w \<Rightarrow> bool"
  assumes same_refl: "same w w" and same_trans: "same u v \<Longrightarrow> same v w \<Longrightarrow> same u w"
    and room_less: "room b (n + k) w \<Longrightarrow> room b n w"
    and post_law: "ok S w \<Longrightarrow> b \<in> S \<Longrightarrow> room b (length m) w \<Longrightarrow>
      \<exists>w'. post b m w = Inr w' \<and> ok S w' \<and> same w w' \<and> stream b w' = stream b w @ m \<and>
        (\<forall>n. room b (n + length m) w \<longrightarrow> room b n w') \<and>
        (\<forall>d\<in>S. d \<noteq> b \<longrightarrow> stream d w' = stream d w \<and> (\<forall>n. room d n w \<longrightarrow> room d n w'))"
begin

definition gets :: "nat set \<Rightarrow> (nat \<Rightarrow> string) \<Rightarrow> 'w \<Rightarrow> 'w \<Rightarrow> bool" where
  "gets S f w w' \<longleftrightarrow> ok S w' \<and> same w w' \<and> (\<forall>b\<in>S. stream b w' = stream b w @ f b \<and>
     (\<forall>n. room b (n + length (f b)) w \<longrightarrow> room b n w'))"

lemma gets_nothing: "ok S w \<Longrightarrow> gets S (\<lambda>_. []) w w"
  by (simp add: gets_def same_refl)

lemma gets_trans: "gets S f u v \<Longrightarrow> gets S g v w \<Longrightarrow> gets S (\<lambda>b. f b @ g b) u w"
  unfolding gets_def using same_trans by (auto simp: add.assoc) (metis add.assoc add.commute)

lemma post_one:
  assumes "ok S w" and "b \<in> S" and "room b (length m) w"
  shows "\<exists>w'. post b m w = Inr w' \<and> gets S (\<lambda>d. if d = b then m else []) w w'"
  using post_law [OF assms] unfolding gets_def by fastforce

text \<open>The same message to all members of a list.\<close>

lemma post_all:
  "ok S w \<Longrightarrow> distinct bs \<Longrightarrow> set bs \<subseteq> S \<Longrightarrow> (\<And>b. b \<in> set bs \<Longrightarrow> room b (length m) w) \<Longrightarrow>
   \<exists>w'. foldR (\<lambda>b. post b m) bs w = Inr w' \<and> gets S (\<lambda>d. if d \<in> set bs then m else []) w w'"
proof (induction bs arbitrary: w)
  case Nil
  then show ?case by (simp add: gets_nothing)
next
  case (Cons b bs)
  then obtain u where u: "post b m w = Inr u" "gets S (\<lambda>d. if d = b then m else []) w u"
    using post_one [of S w b m] by auto
  have "room d (length m) u" if "d \<in> set bs" for d
  proof -
    have "d \<in> S" "d \<noteq> b" "room d (length m) w" using that Cons.prems by auto
    then show ?thesis using u(2) by (auto simp: gets_def)
  qed
  with Cons u(2) obtain w' where w': "foldR (\<lambda>b. post b m) bs u = Inr w'" "gets S (\<lambda>d. if d \<in> set bs then m else []) u w'"
    using Cons.IH [of u] by (auto simp: gets_def)
  have "(\<lambda>d. (if d = b then m else []) @ (if d \<in> set bs then m else [])) = (\<lambda>d. if d \<in> set (b # bs) then m else [])"
    using Cons.prems(2) by auto
  with gets_trans [OF u(2) w'(2)] have "gets S (\<lambda>d. if d \<in> set (b # bs) then m else []) w w'" by (simp only:)
  with u(1) w'(1) show ?case by simp
qed

end

text \<open>Connected connections on one loop are such recipients.\<close>

definition recipients_ok :: "nat set \<Rightarrow> 'z netw_scheme \<Rightarrow> bool" where
  "recipients_ok S w \<longleftrightarrow> write_documented (kernel w) \<and>
     (\<forall>b\<in>S. conn_ok b w \<and> (\<exists>c. conns w b = Some c \<and> tc_state c = KConnected)) \<and>
     (\<forall>a\<in>S. \<forall>b\<in>S. a \<noteq> b \<longrightarrow> apart a b w)"

definition has_room :: "nat \<Rightarrow> nat \<Rightarrow> 'z netw_scheme \<Rightarrow> bool" where
  "has_room b n w \<longleftrightarrow> (\<exists>c. conns w b = Some c \<and> int n < spare (tc_output c) \<and> bufsize (tc_output c) < 2 ^ 30)"

definition same_but_output :: "tcp_connection \<Rightarrow> tcp_connection \<Rightarrow> bool" where
  "same_but_output c c' \<longleftrightarrow> (\<exists>out. c' = c\<lparr>tc_output := out\<rparr>)"

definition only_outputs :: "'z netw_scheme \<Rightarrow> 'z netw_scheme \<Rightarrow> bool" where
  "only_outputs w w' \<longleftrightarrow> same_rest w w' \<and> (\<forall>b. rel_option same_but_output (conns w b) (conns w' b))"

lemma same_but_output_refl [simp]: "same_but_output c c"
  unfolding same_but_output_def by (rule exI [of _ "tc_output c"]) simp

lemma same_but_output_trans: "same_but_output c d \<Longrightarrow> same_but_output d e \<Longrightarrow> same_but_output c e"
  by (auto simp: same_but_output_def)

lemma only_outputs_refl: "only_outputs w w"
  by (simp add: only_outputs_def option.rel_refl)

lemma only_outputs_trans: "only_outputs u v \<Longrightarrow> only_outputs v w \<Longrightarrow> only_outputs u w"
proof -
  have "rel_option same_but_output x y \<Longrightarrow> rel_option same_but_output y z \<Longrightarrow> rel_option same_but_output x z" for x y z
    by (cases x; cases y; cases z) (auto intro: same_but_output_trans)
  then show "only_outputs u v \<Longrightarrow> only_outputs v w \<Longrightarrow> only_outputs u w"
    unfolding only_outputs_def using same_rest_trans by blast
qed

lemma apart_same: "conns w' = (conns w)(a \<mapsto> c\<lparr>tc_output := out\<rparr>) \<Longrightarrow> conns w a = Some c \<Longrightarrow> apart x y w \<Longrightarrow> apart x y w'"
  by (auto simp: apart_def)

lemma tc_send_post:
  assumes ok: "recipients_ok S w" and b: "b \<in> S" and room: "has_room b (length m) w"
  shows "\<exists>w'. tc_send b m w = Inr w' \<and> recipients_ok S w' \<and> only_outputs w w' \<and> out_stream b w' = out_stream b w @ m \<and>
    (\<forall>n. has_room b (n + length m) w \<longrightarrow> has_room b n w') \<and>
    (\<forall>d\<in>S. d \<noteq> b \<longrightarrow> out_stream d w' = out_stream d w \<and> (\<forall>n. has_room d n w \<longrightarrow> has_room d n w'))"
proof -
  from ok b obtain c where c: "conn_ok b w" "conns w b = Some c" "tc_state c = KConnected" by (auto simp: recipients_ok_def)
  have doc: "write_documented (kernel w)" using ok by (simp add: recipients_ok_def)
  from room c(2) have r: "int (length m) < spare (tc_output c)" "bufsize (tc_output c) < 2 ^ 30" by (simp_all add: has_room_def)
  have inv: "buf_inv (tc_output c)" using c(1,2) by (auto simp: conn_ok_def)
  have "delivered b m w (sendInLoop b m w)"
    by (rule sendInLoop_ok [OF c(1,2) spare_room(1) [OF inv r] doc spare_room(2) [OF inv r]])
  then obtain w' where w': "sendInLoop b m w = Inr w'" "conn_ok b w'" "out_stream b w' = out_stream b w @ m"
    by (auto simp: delivered_def)
  have from': "sent_from b c (length m) w w'" by (rule sendInLoop_from [OF c(1,2) w'(1)])
  then obtain out where out: "conns w' = (conns w)(b \<mapsto> c\<lparr>tc_output := out\<rparr>)"
    "spare (tc_output c) - int (length m) \<le> spare out" "bufsize out = bufsize (tc_output c)"
    using r(1) by (auto simp: sent_from_def)
  have others: "bystander d w w'" if "d \<in> S" "d \<noteq> b" for d
    using from' ok b that by (auto simp: sent_from_def recipients_ok_def)
  have "kernel w' = kernel w" using from' by (simp add: sent_from_def same_rest_def)
  then have "recipients_ok S w'"
    unfolding recipients_ok_def
  proof (intro conjI ballI impI)
    show "conn_ok d w'" if "d \<in> S" for d using that w'(2) others [of d] by (cases "d = b") (auto simp: bystander_def)
    show "\<exists>c. conns w' d = Some c \<and> tc_state c = KConnected" if "d \<in> S" for d
      using that ok c(3) out(1) by (auto simp: recipients_ok_def)
    show "apart x y w'" if "x \<in> S" "y \<in> S" "x \<noteq> y" for x y
      using that ok by (intro apart_same [OF out(1) c(2)]) (simp add: recipients_ok_def)
  qed (use doc in simp)
  moreover have "rel_option same_but_output (conns w d) (conns w' d)" for d
    using out(1) c(2) by (cases "d = b") (auto simp: same_but_output_def option.rel_refl)
  then have "only_outputs w w'" using from' by (simp add: only_outputs_def sent_from_def)
  moreover have "has_room b n w'" if "has_room b (n + length m) w" for n
    using that c(2) out by (auto simp: has_room_def)
  moreover have "has_room d n w'" if "has_room d n w" "d \<noteq> b" for d n
    using that out(1) by (simp add: has_room_def)
  moreover have "tc_send b m w = Inr w'" using tc_send_here [OF c] w'(1) by simp
  ultimately show ?thesis using w'(3) others by (auto simp: bystander_def)
qed

lemma has_room_less: "has_room b (n + k) w \<Longrightarrow> has_room b n w"
  by (auto simp: has_room_def)

interpretation mail: postbox recipients_ok has_room out_stream tc_send only_outputs
  by unfold_locales (rule only_outputs_refl | erule (1) only_outputs_trans | erule has_room_less | erule (2) tc_send_post)+

end
