(* ===== verification/Owner.thy ===== *)
theory Owner
  imports Tcp_Stream
begin

text \<open>
  The contract between connections and what owns them (\<open>TcpServer\<close>, \<open>TcpClient\<close>): a close
  callback makes the owner give the connection up, and what is given up is handed to its loop
  exactly then, as a pending \<open>connectionDestroyed\<close>.
\<close>

definition doomed :: "'z reactor_scheme \<Rightarrow> nat set" where
  "doomed w = {a. \<exists>l. FnConnDestroyed a \<in> set (pending l w)}"

lemma doomed_queued:
  "loops w l \<noteq> None \<Longrightarrow> doomed (queued l [FnConnDestroyed a] calls w) = insert a (doomed w)"
proof -
  assume l: "loops w l \<noteq> None"
  have "pending k (queued l [FnConnDestroyed a] calls w) = pending k w @ (if k = l then [FnConnDestroyed a] else [])" for k
    using l by (auto simp: pending_def)
  then show ?thesis by (auto simp: doomed_def)
qed

locale conn_owner =
  fixes ok :: "'z reactor_scheme \<Rightarrow> bool"
    and owned :: "'z reactor_scheme \<Rightarrow> nat set"
    and release :: "nat \<Rightarrow> 'z reactor_scheme \<Rightarrow> 'z reactor_scheme res"
  assumes release_law: "ok w \<Longrightarrow> a \<in> owned w \<Longrightarrow>
      \<exists>w'. release a w = Inr w' \<and> ok w' \<and> owned w' = owned w - {a} \<and> doomed w' = insert a (doomed w)"
begin

text \<open>Connections that close in any order: every one is given up once and handed to its loop.\<close>

lemma release_all:
  "ok w \<Longrightarrow> distinct xs \<Longrightarrow> set xs \<subseteq> owned w \<Longrightarrow>
   \<exists>w'. foldR release xs w = Inr w' \<and> ok w' \<and> owned w' = owned w - set xs \<and> doomed w' = doomed w \<union> set xs"
proof (induction xs arbitrary: w)
  case (Cons a xs)
  from release_law [of w a] Cons.prems obtain u where
    u: "release a w = Inr u" "ok u" "owned u = owned w - {a}" "doomed u = insert a (doomed w)" by auto
  with Cons.prems have "set xs \<subseteq> owned u" "distinct xs" by auto
  from Cons.IH [OF u(2) this(2,1)] u show ?case by auto
qed simp

end

end
