(* ===== verification/Loop_Setup.thy ===== *)
theory Loop_Setup
  imports Timer_Queue
begin

text \<open>
  The construction and destruction of event loops and timer queues, and the timer interface of
  the loop: the rest of \<^verbatim>\<open>net/EventLoop.cc\<close> and the constructor of \<^verbatim>\<open>net/TimerQueue.cc\<close>. The
  addresses of the objects a constructor makes are arguments, chosen by the allocator.
\<close>

section \<open>Descriptors\<close>

definition create_eventfd :: "'z kworld_scheme \<Rightarrow> (int \<times> 'z kworld_scheme) res" where
  "create_eventfd w = (let (r, w1) = sys SysEventfd w
     in if kret r < 0 then Inl FatalLog else Inr (kret r, w1))"

definition create_timerfd :: "'z kworld_scheme \<Rightarrow> (int \<times> 'z kworld_scheme) res" where
  "create_timerfd w = (let (r, w1) = sys SysTimerfdCreate w
     in if kret r < 0 then Inl FatalLog else Inr (kret r, w1))"

section \<open>Constructors\<close>

definition new_timer_queue ::
  "nat \<Rightarrow> nat \<Rightarrow> nat \<Rightarrow> timestamp \<times> nat \<Rightarrow> nat \<times> int \<Rightarrow> 'z timerw_scheme \<Rightarrow> 'z timerw_scheme res" where
  "new_timer_queue l a ch e ea w = bindR (create_timerfd w) (\<lambda>(fd, w1).
     let q = \<lparr>tq_loop = l, tq_timerfd = fd, tq_channel = ch, tq_timers = [], tq_active = [], tq_doing = False,
           tq_cancel = [], tq_end = e, tq_end_active = ea\<rparr>;
         channel = setReadCallback (Some (CbTimerQueueRead a)) (new_channel l fd)
     in enableReading ch (ch_put ch channel (tq_put a q w1)))"

text \<open>
  The members are initialised in the order of their declaration, the timer queue last; then the
  body runs. One thread owns at most one loop.
\<close>

definition new_event_loop ::
  "bool \<Rightarrow> nat \<Rightarrow> nat \<Rightarrow> nat \<Rightarrow> nat \<Rightarrow> timestamp \<times> nat \<Rightarrow> nat \<times> int \<Rightarrow> 'z timerw_scheme \<Rightarrow> 'z timerw_scheme res" where
  "new_event_loop summer_poll l ch a tch e ea w =
     bindR (newDefaultPoller summer_poll w) (\<lambda>(p, w1).
     bindR (create_eventfd w1) (\<lambda>(fd, w2).
       let loop = \<lparr>el_poller = p, el_wakeupFd = fd, el_wakeupChannel = ch, el_looping = False, el_quit = False,
             el_calling = False, el_pending = [], el_active = [], el_timerQueue = a\<rparr>;
           w3 = ch_put ch (new_channel l fd)
             (w2\<lparr>loops := (loops w2)(l \<mapsto> loop), threadOf := (threadOf w2)(l := curTid w2)\<rparr>)
       in bindR (new_timer_queue l a tch e ea w3) (\<lambda>w4.
            if threadLoop w4 (curTid w4) \<noteq> None then Inl FatalLog
            else bindR (ch_get ch w4) (\<lambda>wch.
              enableReading ch (ch_put ch (setReadCallback (Some (CbWakeupRead l)) wch)
                (w4\<lparr>threadLoop := (threadLoop w4)(curTid w4 \<mapsto> l)\<rparr>))))))"

fun po_delete :: "poller_obj \<Rightarrow> 'z heapw_scheme \<Rightarrow> 'z heapw_scheme" where
  "po_delete (PollObj p) w = w"
| "po_delete (EpollObj p) w = ep_delete p w"

text \<open>
  \<open>~EventLoop()\<close>, and the destructors of its members in the reverse order: the timer queue with
  its channel, the wake-up channel, the poller. The timers still queued are not freed.
\<close>

definition delete_event_loop :: "nat \<Rightarrow> 'z timerw_scheme \<Rightarrow> 'z timerw_scheme res" where
  "delete_event_loop l w = bindR (el_get l w) (\<lambda>e. assertR (\<not> el_looping e)
     (let w1 = snd (sys (SysClose (el_wakeupFd e)) w);
          w2 = w1\<lparr>threadLoop := (threadLoop w1)(curTid w1 := None)\<rparr>
      in bindR (tq_get (el_timerQueue e) w2) (\<lambda>q. bindR (delete_channel (tq_channel q) w2) (\<lambda>w3.
           bindR (delete_channel (el_wakeupChannel e) (w3\<lparr>tqs := (tqs w3)(el_timerQueue e := None)\<rparr>)) (\<lambda>w4.
             Inr ((po_delete (el_poller e) w4)\<lparr>loops := (loops w4)(l := None)\<rparr>))))))"

definition getEventOfCurrentThread :: "'z reactor_scheme \<Rightarrow> nat option" where
  "getEventOfCurrentThread w = threadLoop w (curTid w)"

section \<open>Timers\<close>

definition runAt :: "nat \<Rightarrow> nat \<Rightarrow> timestamp \<Rightarrow> functor_t \<Rightarrow> 'z timerw_scheme \<Rightarrow> ((nat \<times> int) \<times> 'z timerw_scheme) res" where
  "runAt l p time cb w = bindR (el_get l w) (\<lambda>e. addTimer (el_timerQueue e) p cb time 0 w)"

definition runAfter :: "nat \<Rightarrow> nat \<Rightarrow> rat \<Rightarrow> functor_t \<Rightarrow> 'z timerw_scheme \<Rightarrow> ((nat \<times> int) \<times> 'z timerw_scheme) res" where
  "runAfter l p delay cb w = (let (now, w1) = ts_now w
     in bindR (addTime now delay) (\<lambda>time. runAt l p time cb w1))"

definition runEvery :: "nat \<Rightarrow> nat \<Rightarrow> rat \<Rightarrow> functor_t \<Rightarrow> 'z timerw_scheme \<Rightarrow> ((nat \<times> int) \<times> 'z timerw_scheme) res" where
  "runEvery l p interval cb w = (let (now, w1) = ts_now w
     in bindR (addTime now interval) (\<lambda>time.
          bindR (el_get l w1) (\<lambda>e. addTimer (el_timerQueue e) p cb time interval w1)))"

definition cancelTimer :: "nat \<Rightarrow> nat \<times> int \<Rightarrow> 'z timerw_scheme \<Rightarrow> 'z timerw_scheme res" where
  "cancelTimer l timerId w = bindR (el_get l w) (\<lambda>e. tq_cancelTimer (el_timerQueue e) timerId w)"

section \<open>A new loop\<close>

lemma po_put_other: "po_ok l p w \<Longrightarrow> c \<notin> ran (po_channels p) \<Longrightarrow> po_ok l p (ch_put c ch w)"
proof (cases p)
  case (PollObj q)
  assume a: "po_ok l p w" "c \<notin> ran (po_channels p)"
  have "owned (ch_put c ch w) (pp_channels q) k i" if "owned w (pp_channels q) k i" for k i
    using that a(2) PollObj by (auto simp: owned_def ran_def)
  with a(1) PollObj show ?thesis by (simp add: pp_ok_def)
next
  case (EpollObj q)
  assume "po_ok l p w" "c \<notin> ran (po_channels p)"
  then show ?thesis using EpollObj by (auto simp: ep_ok_def ep_registered_def ran_def)
qed

text \<open>A channel that no loop knows is given to a loop.\<close>

lemma first_enable:
  assumes "loop_ok l w" and "loops w l = Some e" and "c \<notin> ran (po_channels (el_poller e))"
    and "ch_loop ch = l" and "ch_index ch = -1" and "valid_fd (ch_fd ch)" and "po_channels (el_poller e) (ch_fd ch) = None"
  shows "\<exists>w' ch'. enableReading c (ch_put c ch w) = Inr w' \<and> loop_ok l w' \<and> rest_same l w w' \<and>
    chans w' = (chans w)(c \<mapsto> ch') \<and> same_but_index (ev_enableReading ch) ch' \<and>
    registered l w' = (registered l w)(ch_fd ch \<mapsto> c)"
proof -
  let ?v = "ch_put c ch w"
  have "loop_ok l ?v" using assms(1-3) po_put_other by (auto simp: loop_ok_def)
  moreover have "usable l c ?v" using assms by (simp add: usable_def po.admissible_def)
  ultimately obtain w' ch' where "ch_update c (ch_put c (ch\<lparr>ch_events := ch_events ch OR kReadEvent\<rparr>) ?v) = Inr w'"
    "loop_ok l w'" "same_but_index (ch\<lparr>ch_events := ch_events ch OR kReadEvent\<rparr>) ch'" "chans w' = (chans ?v)(c \<mapsto> ch')"
    "registered l w' = (registered l ?v)(ch_fd ch \<mapsto> c)" "rest_same l ?v w'"
    using change_events_ok [of l ?v c ch "ch_events ch OR kReadEvent"] by auto
  then show ?thesis
    by (intro exI [of _ w'] exI [of _ ch'])
      (simp add: enableReading_def ch_get_def ev_enableReading_def rest_same_def registered_def)
qed

lemma rest_same_timerw: "rest_same l w w' \<Longrightarrow> tqs w' = tqs w \<and> timers w' = timers w \<and> numCreated w' = numCreated w"
  by (cases w; cases w') (auto simp: rest_same_def)

lemma new_fields:
  "ch_loop (setReadCallback cb (new_channel l fd)) = l" "ch_index (setReadCallback cb (new_channel l fd)) = -1"
  "ch_fd (setReadCallback cb (new_channel l fd)) = fd" "ch_events (setReadCallback cb (new_channel l fd)) = kNoneEvent"
  "ch_read (setReadCallback cb (new_channel l fd)) = cb"
  by (simp_all add: setReadCallback_def new_channel_def kNoneEvent_def)

lemma tq_ok_empty: "tq_timers q = [] \<Longrightarrow> tq_active q = [] \<Longrightarrow> tq_ok q w"
  by (simp add: tq_ok_def entries_ok_def)

definition reads :: "nat \<Rightarrow> chan_cb \<Rightarrow> 'z heapw_scheme \<Rightarrow> bool" where
  "reads c cb w \<longleftrightarrow> (\<exists>ch. chans w c = Some ch \<and> ch_read ch = Some cb \<and> ch_events ch = kReadEvent)"

lemma reads_enabled:
  assumes "chans w' = (chans w)(c \<mapsto> ch')" and "same_but_index (ev_enableReading ch) ch'"
    and "ch_read ch = Some cb" and "ch_events ch = kNoneEvent"
  shows "reads c cb w'"
  using assms by (auto simp: reads_def same_but_index_def ev_enableReading_def) (simp add: kNoneEvent_def)

lemma tq_put_chans [simp]: "chans (tq_put a q w) = chans w"
  by (simp add: tq_put_def)

lemma loop_ok_tq_put [simp]: "loop_ok l (tq_put a q w) = loop_ok l w"
proof -
  have "po_ok l p (tq_put a q w) = po_ok l p w" for p
    by (cases p) (simp_all add: pp_ok_def ep_ok_def owned_def ep_registered_def tq_put_def isInLoopThread_def)
  then show ?thesis by (simp add: loop_ok_def)
qed

lemma loop_ok_sys: "loop_ok l w \<Longrightarrow> harmless call \<Longrightarrow> loop_ok l (snd (sys call w))"
  using po.quiet_law by (auto simp: loop_ok_def)

lemma new_timer_queue_ok:
  assumes "loop_ok l w" and "loops w l = Some e" and "c \<notin> ran (po_channels (el_poller e))"
    and "kret (kernel w (sysLog w) SysTimerfdCreate) = fd" and "valid_fd fd" and "po_channels (el_poller e) fd = None"
  shows "\<exists>w' q ch'. new_timer_queue l a c e0 ea w = Inr w' \<and> loop_ok l w' \<and> tqs w' a = Some q \<and> tq_ok q w' \<and>
    tq_loop q = l \<and> tq_timerfd q = fd \<and> tq_timers q = [] \<and> tq_active q = [] \<and> reads c (CbTimerQueueRead a) w' \<and> registered l w' = (registered l w)(fd \<mapsto> c) \<and>
    chans w' = (chans w)(c \<mapsto> ch') \<and> curTid w' = curTid w \<and> threadLoop w' = threadLoop w \<and>
    (\<exists>p. loops w' = (loops w)(l \<mapsto> set_poller p e))"
proof -
  let ?q = "\<lparr>tq_loop = l, tq_timerfd = fd, tq_channel = c, tq_timers = [], tq_active = [], tq_doing = False,
    tq_cancel = [], tq_end = e0, tq_end_active = ea\<rparr>"
  let ?ch = "setReadCallback (Some (CbTimerQueueRead a)) (new_channel l fd)"
  let ?v = "tq_put a ?q (snd (sys SysTimerfdCreate w))"
  have "loop_ok l ?v" using loop_ok_sys [OF assms(1), of SysTimerfdCreate] by simp
  from first_enable [OF this, of e c ?ch] obtain w' ch' where
    u: "enableReading c (ch_put c ?ch ?v) = Inr w'" "loop_ok l w'" "rest_same l ?v w'"
    "chans w' = (chans ?v)(c \<mapsto> ch')" "same_but_index (ev_enableReading ?ch) ch'"
    "registered l w' = (registered l ?v)(fd \<mapsto> c)"
    using assms(2,3,5,6) by (auto simp: new_fields)
  have "reads c (CbTimerQueueRead a) w'"
    using reads_enabled [OF u(4,5)] by (simp add: new_fields)
  moreover have "tqs w' a = Some ?q" using rest_same_timerw [OF u(3)] by simp
  moreover have "0 \<le> fd" using assms(5) by (simp add: valid_fd_def)
  then have "new_timer_queue l a c e0 ea w = Inr w'"
    using u(1) assms(4) by (simp add: new_timer_queue_def create_timerfd_def sys_def Let_def)
  moreover have "registered l ?v = registered l w" "threadLoop ?v = threadLoop w" "curTid ?v = curTid w"
    by (simp_all add: registered_def) (simp_all add: tq_put_def sys_def)
  ultimately show ?thesis
    using u(2-4,6) assms(2) by (intro exI [of _ w'] exI [of _ ?q] exI [of _ ch']) (auto simp: rest_same_def tq_ok_empty)
qed

text \<open>The descriptors the kernel hands out while a loop is constructed.\<close>

definition new_descriptors :: "(syscall list \<Rightarrow> syscall \<Rightarrow> kres) \<Rightarrow> int \<Rightarrow> int \<Rightarrow> int \<Rightarrow> bool" where
  "new_descriptors k ep ev tm \<longleftrightarrow> 0 \<le> ep \<and> valid_fd ev \<and> valid_fd tm \<and> ev \<noteq> tm \<and>
     (\<forall>calls. kret (k calls SysEpollCreate) = ep \<and> kret (k calls SysEventfd) = ev \<and> kret (k calls SysTimerfdCreate) = tm)"

lemma new_poller:
  assumes "new_descriptors (kernel w) ep ev tm" and "epoll_documented (kernel w) ep"
    and "watched (kernel w) ep (sysLog w) = {}"
  shows "\<exists>p w1. newDefaultPoller b w = Inr (p, w1) \<and> po_channels p = (\<lambda>_. None) \<and> kernel w1 = kernel w \<and>
    threadLoop w1 = threadLoop w \<and> curTid w1 = curTid w \<and>
    (\<forall>v :: 'z timerw_scheme. isInLoopThread l v \<longrightarrow> kernel v = kernel w \<longrightarrow> sysLog v = sysLog w1 @ [SysEventfd] \<longrightarrow> po_ok l p v)"
proof (cases b)
  case True
  then show ?thesis by (simp add: newDefaultPoller_def pp_new_def pp_ok_def keys_def)
next
  case False
  let ?p = "EpollObj \<lparr>epfd = ep, ep_events = replicate InitMaxEvents (0, 0), ep_channels = (\<lambda>_. None)\<rparr>"
  have log: "watched (kernel w) ep (sysLog w @ [SysEpollCreate, SysEventfd]) = {}"
    using assms(3) watched_harmless [of SysEventfd "kernel w" ep "sysLog w @ [SysEpollCreate]"]
    by (simp add: watched_harmless)
  have "newDefaultPoller b w = Inr (?p, snd (sys SysEpollCreate w))"
    using False assms(1) by (auto simp: newDefaultPoller_def ep_new_def new_descriptors_def sys_def Let_def)
  with assms(2) log show ?thesis
    by (intro exI [of _ ?p] exI [of _ "snd (sys SysEpollCreate w)"]) (simp add: ep_ok_def ep_registered_def)
qed


text \<open>The two halves of the constructor: the members before the timer queue, and the rest.\<close>

definition loop_rest ::
  "nat \<Rightarrow> nat \<Rightarrow> nat \<Rightarrow> nat \<Rightarrow> timestamp \<times> nat \<Rightarrow> nat \<times> int \<Rightarrow> 'z timerw_scheme \<Rightarrow> 'z timerw_scheme res" where
  "loop_rest l ch a tch e ea w3 = bindR (new_timer_queue l a tch e ea w3) (\<lambda>w4.
     if threadLoop w4 (curTid w4) \<noteq> None then Inl FatalLog
     else bindR (ch_get ch w4) (\<lambda>wch.
       enableReading ch (ch_put ch (setReadCallback (Some (CbWakeupRead l)) wch)
         (w4\<lparr>threadLoop := (threadLoop w4)(curTid w4 \<mapsto> l)\<rparr>))))"

definition bare_loop :: "poller_obj \<Rightarrow> int \<Rightarrow> nat \<Rightarrow> nat \<Rightarrow> eventloop" where
  "bare_loop p ev ch a = \<lparr>el_poller = p, el_wakeupFd = ev, el_wakeupChannel = ch, el_looping = False, el_quit = False,
     el_calling = False, el_pending = [], el_active = [], el_timerQueue = a\<rparr>"

lemma bare_loop_fields [simp]:
  "el_poller (bare_loop p ev ch a) = p" "el_wakeupFd (bare_loop p ev ch a) = ev" "el_pending (bare_loop p ev ch a) = []"
  "el_looping (bare_loop p ev ch a) = False" "el_timerQueue (bare_loop p ev ch a) = a"
  by (simp_all add: bare_loop_def)

lemma members_constructed:
  assumes "new_descriptors (kernel w) ep ev tm" and "epoll_documented (kernel w) ep"
    and "watched (kernel w) ep (sysLog w) = {}"
  shows "\<exists>p w3. new_event_loop b l ch a tch e0 ea w = loop_rest l ch a tch e0 ea w3 \<and> po_channels p = (\<lambda>_. None) \<and>
    loops w3 l = Some (bare_loop p ev ch a) \<and> loop_ok l w3 \<and> chans w3 ch = Some (new_channel l ev) \<and>
    kernel w3 = kernel w \<and> curTid w3 = curTid w \<and> threadLoop w3 = threadLoop w"
proof -
  from new_poller [OF assms, of b l] obtain p w1 where
    w1: "newDefaultPoller b w = Inr (p, w1)" "po_channels p = (\<lambda>_. None)" "kernel w1 = kernel w"
    "threadLoop w1 = threadLoop w" "curTid w1 = curTid w"
    "\<And>v :: 'a timerw_scheme. isInLoopThread l v \<Longrightarrow> kernel v = kernel w \<Longrightarrow> sysLog v = sysLog w1 @ [SysEventfd] \<Longrightarrow> po_ok l p v"
    by blast
  define w2 where "w2 = snd (sys SysEventfd w1)"
  define w3 where "w3 = ch_put ch (new_channel l ev)
    (w2\<lparr>loops := (loops w2)(l \<mapsto> bare_loop p ev ch a), threadOf := (threadOf w2)(l := curTid w2)\<rparr>)"
  have fd: "create_eventfd w1 = Inr (ev, w2)"
    using assms(1) w1(3) by (auto simp: create_eventfd_def w2_def sys_def Let_def valid_fd_def new_descriptors_def)
  have fields: "kernel w3 = kernel w" "curTid w3 = curTid w" "threadLoop w3 = threadLoop w"
    "loops w3 l = Some (bare_loop p ev ch a)" "chans w3 ch = Some (new_channel l ev)"
    using w1(2-5) by (simp_all add: w3_def w2_def)
  have "po_ok l p w3"
    using w1(3) by (intro w1(6)) (simp_all add: w3_def w2_def isInLoopThread_def ch_put_def sys_def)
  then have "loop_ok l w3" using fields(4) by (simp add: loop_ok_def)
  moreover have "new_event_loop b l ch a tch e0 ea w = loop_rest l ch a tch e0 ea w3"
    using w1(1) fd by (simp add: new_event_loop_def loop_rest_def Let_def w3_def bare_loop_def)
  ultimately show ?thesis using fields w1(2) by blast
qed

lemma loop_ok_threadLoop [simp]: "loop_ok l (w\<lparr>threadLoop := t\<rparr>) = loop_ok l w"
proof -
  have "po_ok l p (w\<lparr>threadLoop := t\<rparr>) = po_ok l p w" for p
    by (cases p) (simp_all add: pp_ok_def ep_ok_def owned_def ep_registered_def isInLoopThread_def)
  then show ?thesis by (simp add: loop_ok_def)
qed

text \<open>What the constructor leaves.\<close>

definition loop_made :: "nat \<Rightarrow> nat \<Rightarrow> nat \<Rightarrow> nat \<Rightarrow> int \<Rightarrow> int \<Rightarrow> 'z timerw_scheme \<Rightarrow> bool" where
  "loop_made l ch a tch ev tm w \<longleftrightarrow> loop_ok l w \<and> registered l w = [ev \<mapsto> ch, tm \<mapsto> tch] \<and>
     reads ch (CbWakeupRead l) w \<and> reads tch (CbTimerQueueRead a) w \<and> threadLoop w (curTid w) = Some l \<and>
     (\<exists>e. loops w l = Some e \<and> el_wakeupFd e = ev \<and> el_pending e = [] \<and> \<not> el_looping e \<and> el_timerQueue e = a) \<and>
     (\<exists>q. tqs w a = Some q \<and> tq_loop q = l \<and> tq_timerfd q = tm \<and> tq_timers q = [] \<and> tq_ok q w)"

lemma loop_rest_ok:
  assumes "loop_ok l w" and "loops w l = Some (bare_loop p ev ch a)" and "po_channels p = (\<lambda>_. None)"
    and "chans w ch = Some (new_channel l ev)" and "valid_fd ev" "valid_fd tm" "ev \<noteq> tm"
    and "kret (kernel w (sysLog w) SysTimerfdCreate) = tm" and "ch \<noteq> tch" and "threadLoop w (curTid w) = None"
  shows "\<exists>w'. loop_rest l ch a tch e0 ea w = Inr w' \<and> loop_made l ch a tch ev tm w' \<and> curTid w' = curTid w"
proof -
  let ?wch = "setReadCallback (Some (CbWakeupRead l)) (new_channel l ev)"
  have "tch \<notin> ran (po_channels (el_poller (bare_loop p ev ch a)))"
    "po_channels (el_poller (bare_loop p ev ch a)) tm = None" using assms(3) by simp_all
  then obtain w4 q ch' p' where
    w4: "new_timer_queue l a tch e0 ea w = Inr w4" "loop_ok l w4" "tqs w4 a = Some q" "tq_timers q = []"
    "tq_active q = []" "tq_loop q = l" "tq_timerfd q = tm" "reads tch (CbTimerQueueRead a) w4"
    "registered l w4 = (registered l w)(tm \<mapsto> tch)" "chans w4 = (chans w)(tch \<mapsto> ch')" "curTid w4 = curTid w"
    "threadLoop w4 = threadLoop w" "loops w4 = (loops w)(l \<mapsto> set_poller p' (bare_loop p ev ch a))"
    using new_timer_queue_ok [OF assms(1,2), of tch tm a e0 ea] assms(6,8) by blast
  have reg: "registered l w = (\<lambda>_. None)" using assms(2,3) by (simp add: registered_def)
  define w5 where "w5 = w4\<lparr>threadLoop := (threadLoop w4)(curTid w4 \<mapsto> l)\<rparr>"
  have run: "loop_rest l ch a tch e0 ea w = enableReading ch (ch_put ch ?wch w5)"
    using w4(1,10-12) assms(4,9,10) by (simp add: loop_rest_def w5_def ch_get_def)
  have p': "po_channels p' = [tm \<mapsto> tch]" using w4(9,13) reg assms(2) by (simp add: registered_def set_poller_def)
  let ?e = "set_poller p' (bare_loop p ev ch a)"
  have "loop_ok l w5" "loops w5 l = Some ?e" "ch \<notin> ran (po_channels (el_poller ?e))" "po_channels (el_poller ?e) ev = None"
    using w4(2,13) assms(7,9) p' by (simp_all add: w5_def set_poller_def)
  then obtain w6 ch'' where
    u: "enableReading ch (ch_put ch ?wch w5) = Inr w6" "loop_ok l w6" "rest_same l w5 w6"
    "chans w6 = (chans w5)(ch \<mapsto> ch'')" "same_but_index (ev_enableReading ?wch) ch''"
    "registered l w6 = (registered l w5)(ev \<mapsto> ch)"
    using first_enable [of l w5 ?e ch ?wch] assms(5) by (auto simp: new_fields)
  have "reads ch (CbWakeupRead l) w6" using reads_enabled [OF u(4,5)] by (simp add: new_fields)
  moreover have "reads tch (CbTimerQueueRead a) w6" using w4(8) u(4) assms(9) by (simp add: reads_def w5_def)
  moreover have "registered l w6 = [ev \<mapsto> ch, tm \<mapsto> tch]" using u(6) w4(9) reg assms(7) by (auto simp: w5_def registered_def)
  moreover obtain p'' where "loops w6 l = Some (set_poller p'' ?e)"
    using u(3) w4(13) by (auto simp: rest_same_def w5_def)
  moreover have "threadLoop w6 (curTid w6) = Some l" "tqs w6 = tqs w4" "curTid w6 = curTid w"
    using u(3) rest_same_timerw [OF u(3)] w4(11) by (simp_all add: rest_same_def w5_def)
  ultimately show ?thesis using run u(1,2) w4(3-7) by (simp add: loop_made_def set_poller_def tq_ok_empty)
qed

lemma loop_rest_second:
  assumes "loop_ok l w" and "loops w l = Some (bare_loop p ev ch a)" and "po_channels p = (\<lambda>_. None)"
    and "valid_fd tm" and "kret (kernel w (sysLog w) SysTimerfdCreate) = tm" and "threadLoop w (curTid w) \<noteq> None"
  shows "loop_rest l ch a tch e0 ea w = Inl FatalLog"
proof -
  obtain w4 where "new_timer_queue l a tch e0 ea w = Inr w4" "curTid w4 = curTid w" "threadLoop w4 = threadLoop w"
    using new_timer_queue_ok [OF assms(1,2), of tch tm a e0 ea] assms(3-5) by auto
  then show ?thesis using assms(6) by (auto simp: loop_rest_def)
qed

section \<open>One-shot timers\<close>

lemma timerw_more [simp]:
  "timerw.more (tq_put a q w) = timerw.more w" "timerw.more (armed fd t w) = timerw.more w"
  "timerw.more (tm_put p x w) = timerw.more w" "timerw.more (snd (sys call w)) = timerw.more w"
  "timerw.more (snd (ts_now w)) = timerw.more w"
  "chans (armed fd t w) = chans w" "chans (tm_put p x w) = chans w"
  by (simp_all add: tq_put_def armed_def tm_put_def sys_def ts_now_def)

text \<open>The loop of this thread, with its timer queue, and a free address for a timer.\<close>

definition timers_ready :: "nat \<Rightarrow> nat \<Rightarrow> nat \<Rightarrow> timer_queue \<Rightarrow> 'z timerw_scheme \<Rightarrow> bool" where
  "timers_ready l p a q w \<longleftrightarrow> (\<exists>e. loops w l = Some e \<and> el_timerQueue e = a) \<and> isInLoopThread l w \<and>
     tqs w a = Some q \<and> tq_loop q = l \<and> tq_ok q w \<and> p < UINTPTR_MAX \<and> p \<notin> snd ` set (tq_timers q) \<and>
     sane_clock (kernel w)"

definition has_timer :: "nat \<Rightarrow> timer_queue \<Rightarrow> nat \<Rightarrow> functor_t \<Rightarrow> timestamp \<Rightarrow> 'z timerw_scheme \<Rightarrow> bool" where
  "has_timer a q p cb time w \<longleftrightarrow> (\<exists>q' t. tqs w a = Some q' \<and> tq_ok q' w \<and>
     set (tq_timers q') = insert (time, p) (set (tq_timers q)) \<and>
     timers w p = Some t \<and> tm_callback t = cb \<and> tm_expiration t = time \<and> \<not> tm_repeat t)"

lemma runAt_ok:
  assumes "timers_ready l p a q w" and "in_int64 time" and "0 \<le> time"
  shows "\<exists>i w'. runAt l p time cb w = Inr (i, w') \<and> has_timer a q p cb time w' \<and>
    timerw.more w' = timerw.more w \<and> loops w' = loops w \<and> chans w' = chans w \<and> curTid w' = curTid w \<and>
    threadOf w' = threadOf w \<and> kernel w' = kernel w"
proof -
  from assms(1) obtain e where e: "loops w l = Some e" "el_timerQueue e = a" "isInLoopThread l w" "tqs w a = Some q"
    "tq_loop q = l" "tq_ok q w" "p < UINTPTR_MAX" "p \<notin> snd ` set (tq_timers q)" "sane_clock (kernel w)"
    by (auto simp: timers_ready_def)
  define w0 where "w0 = w\<lparr>numCreated := snd (atomic_incrementAndGet (numCreated w))\<rparr>"
  define t where "t = \<lparr>tm_callback = cb, tm_expiration = time, tm_repeat = False, tm_interval = 0,
    tm_sequence = sint (fst (atomic_incrementAndGet (numCreated w)))\<rparr>"
  define w1 where "w1 = tm_put p (Some t) w0"
  have new: "new_timer p cb time 0 w = w1" by (simp add: new_timer_def w1_def w0_def t_def split_beta Let_def)
  have fields: "tqs w1 = tqs w" "loops w1 = loops w" "timers w1 p = Some t" "kernel w1 = kernel w"
    "timerw.more w1 = timerw.more w" "isInLoopThread l w1" "chans w1 = chans w" "curTid w1 = curTid w" "threadOf w1 = threadOf w"
    using e(3) by (simp_all add: w1_def w0_def tm_put_def isInLoopThread_def)
  have "tq_ok q w0" using tq_ok_timers [of w0 w] e(6) by (simp add: w0_def)
  then have ok: "tq_ok q w1" unfolding w1_def by (rule tq_ok_other [OF _ e(8)])
  let ?q' = "with_timer time p (tm_sequence t) q"
  define w2 where "w2 = (if \<forall>x \<in> set (tq_timers q). time < fst x then armed (tq_timerfd q) time (tq_put a ?q' w1)
    else tq_put a ?q' w1)"
  have add: "addTimerInLoop a p w1 = Inr w2" and ok': "tq_ok ?q' w1"
    using addTimerInLoop_ok [of w1 a q p t] fields e ok assms(2,3) by (simp_all add: w2_def t_def)
  have "runAt l p time cb w = Inr ((p, tm_sequence t), w2)"
    using e fields add by (simp add: runAt_def addTimer_def new runInLoop_here)
  moreover have "has_timer a q p cb time w2"
  proof -
    have "timers w2 = timers w1" "tqs w2 a = Some ?q'" by (simp_all add: w2_def)
    moreover from this have "tq_ok ?q' w2" using ok' tq_ok_timers [of w2 w1] by simp
    ultimately show ?thesis using fields(3) by (auto simp: has_timer_def with_timer_def set_insort_key t_def)
  qed
  moreover have "curTid w2 = curTid w1 \<and> threadOf w2 = threadOf w1"
    by (simp add: w2_def armed_def tq_put_def sys_def ts_now_def)
  ultimately show ?thesis using fields by (intro exI [of _ "(p, tm_sequence t)"] exI [of _ w2]) (simp add: w2_def)
qed

text \<open>A delay that is a whole number of microseconds is kept exactly.\<close>

lemma runAfter_ok:
  assumes "timers_ready l p a q w" and "of_int kMicroSecondPerSecond * delay = of_int n" and "0 \<le> n" and "n < 2 ^ 53"
    and "clock w < 2 ^ 62"
  shows "\<exists>i w'. runAfter l p delay cb w = Inr (i, w') \<and> has_timer a q p cb (clock w + n) w' \<and>
    timerw.more w' = timerw.more w \<and> loops w' = loops w \<and> chans w' = chans w \<and> curTid w' = curTid w \<and>
    threadOf w' = threadOf w \<and> kernel w' = kernel w"
proof -
  let ?w1 = "snd (ts_now w)"
  have c: "0 \<le> clock w" using assms(1) clock_nonneg by (auto simp: timers_ready_def)
  have "addTime (clock w) delay = Inr (clock w + n)"
    using assms(2-5) c by (intro addTime_exact) auto
  then have "runAfter l p delay cb w = runAt l p (clock w + n) cb ?w1"
    by (simp add: runAfter_def clock_def split_beta Let_def)
  moreover have "tq_ok q ?w1 = tq_ok q w" by (rule tq_ok_timers) simp
  then have "timers_ready l p a q ?w1" using assms(1) by (simp add: timers_ready_def)
  moreover have "in_int64 (clock w + n)" "0 \<le> clock w + n" using assms(3-5) c by (auto simp: in_int64_def)
  moreover have "curTid ?w1 = curTid w" "threadOf ?w1 = threadOf w" by (simp_all add: ts_now_def sys_def)
  ultimately show ?thesis using runAt_ok [of l p a q ?w1 "clock w + n" cb] by simp
qed

section \<open>Properties\<close>

text \<open>The construction of an event loop. In a thread that has no loop it succeeds: the loop is
  consistent, waits for its event descriptor and its timer descriptor and nothing else, each with
  its own callback, has no functors and no timers, belongs to the calling thread and is the loop
  of this thread. In a thread that has a loop it ends in \<open>LOG_FATAL\<close>.\<close>

theorem loop_constructed:
  assumes "new_descriptors (kernel w) ep ev tm" and "epoll_documented (kernel w) ep"
    and "watched (kernel w) ep (sysLog w) = {}" and "ch \<noteq> tch"
  shows "if threadLoop w (curTid w) = None
    then \<exists>w'. new_event_loop b l ch a tch e0 ea w = Inr w' \<and> loop_made l ch a tch ev tm w' \<and> curTid w' = curTid w
    else new_event_loop b l ch a tch e0 ea w = Inl FatalLog"
proof -
  note new = assms(1) [unfolded new_descriptors_def]
  obtain p w3 where w3: "new_event_loop b l ch a tch e0 ea w = loop_rest l ch a tch e0 ea w3"
    "po_channels p = (\<lambda>_. None)" "loops w3 l = Some (bare_loop p ev ch a)" "loop_ok l w3"
    "chans w3 ch = Some (new_channel l ev)" "kernel w3 = kernel w" "curTid w3 = curTid w" "threadLoop w3 = threadLoop w"
    using members_constructed [OF assms(1-3), of b l ch a tch e0 ea] by blast
  have "kret (kernel w3 (sysLog w3) SysTimerfdCreate) = tm" using w3(6) new by simp
  then show ?thesis
    using loop_rest_ok [OF w3(4,3,2,5), of tm tch e0 ea] loop_rest_second [OF w3(4,3,2), of tm tch e0 ea] new assms(4) w3(1,7,8)
    by auto
qed

definition new_kernel :: "syscall list \<Rightarrow> syscall \<Rightarrow> kres" where
  "new_kernel calls call = (case call of SysEpollCreate \<Rightarrow> ret 3 | SysEventfd \<Rightarrow> ret 4 | SysTimerfdCreate \<Rightarrow> ret 5 | _ \<Rightarrow> ret 0)"

definition no_loops :: timerw where
  "no_loops = \<lparr>kernel = new_kernel, sysLog = [], curTid = 7, threadOf = (\<lambda>_. 0), chans = (\<lambda>_. None),
     loops = (\<lambda>_. None), threadLoop = (\<lambda>_. None), tqs = (\<lambda>_. None), timers = (\<lambda>_. None), numCreated = 0\<rparr>"

theorem loop_constructed_witness:
  "\<exists>w'. new_event_loop False 0 1 2 3 (0, 0) (0, 0) no_loops = Inr w' \<and> registered 0 w' = [4 \<mapsto> 1, 5 \<mapsto> 3] \<and>
     threadLoop w' 7 = Some 0"
proof -
  have "new_descriptors (kernel no_loops) 3 4 5"
    by (simp add: new_descriptors_def no_loops_def new_kernel_def ret_def valid_fd_def)
  moreover have "epoll_documented (kernel no_loops) 3"
    by (simp add: epoll_documented_def no_loops_def new_kernel_def ret_def)
  moreover have "watched (kernel no_loops) 3 (sysLog no_loops) = {}" by (simp add: no_loops_def watched_def)
  ultimately show ?thesis
    using loop_constructed [of no_loops 3 4 5 1 3 False 0 2 "(0, 0)" "(0, 0)"]
    by (auto simp: no_loops_def loop_made_def)
qed

end
