(* ===== verification/Tcp_Server.thy ===== *)
theory Tcp_Server
  imports Owner Loop_Setup
begin

text \<open>
  \<^verbatim>\<open>net/Acceptor.cc\<close>, \<^verbatim>\<open>net/EventLoopThreadPool.cc\<close> and \<^verbatim>\<open>net/TcpServer.cc\<close>: the listening
  socket, the loops the connections are distributed over, and the map of a server's connections by
  name. The addresses of new objects are arguments. Starting a thread with a loop is the argument
  \<open>startLoop\<close>: it returns the address of the new loop.
\<close>

section \<open>State\<close>

record acceptor =
  ac_loop :: nat
  ac_socket :: int
  ac_channel :: nat
  ac_newConnection :: "nat option"
  ac_listening :: bool

record thread_pool =
  tp_base :: nat
  tp_started :: bool
  tp_numThreads :: int
  tp_next :: int
  tp_loops :: "nat list"

record tcp_server =
  ts_loop :: nat
  ts_name :: string
  ts_hostPort :: string
  ts_acceptor :: nat
  ts_pool :: thread_pool
  ts_connectionCb :: "nat option"
  ts_messageCb :: "nat option"
  ts_writeCompleteCb :: "nat option"
  ts_started :: bool
  ts_nextConnId :: int
  ts_connections :: "string \<Rightarrow> nat option"

record serverw = netw +
  acceptors :: "nat \<Rightarrow> acceptor option"
  servers :: "nat \<Rightarrow> tcp_server option"

definition ac_get :: "nat \<Rightarrow> 'z serverw_scheme \<Rightarrow> acceptor res" where
  "ac_get a w = (case acceptors w a of None \<Rightarrow> Inl UndefinedBehaviour | Some x \<Rightarrow> Inr x)"

definition ac_put :: "nat \<Rightarrow> acceptor \<Rightarrow> 'z serverw_scheme \<Rightarrow> 'z serverw_scheme" where
  "ac_put a x w = w\<lparr>acceptors := (acceptors w)(a \<mapsto> x)\<rparr>"

definition ts_get :: "nat \<Rightarrow> 'z serverw_scheme \<Rightarrow> tcp_server res" where
  "ts_get s w = (case servers w s of None \<Rightarrow> Inl UndefinedBehaviour | Some x \<Rightarrow> Inr x)"

definition ts_put :: "nat \<Rightarrow> tcp_server \<Rightarrow> 'z serverw_scheme \<Rightarrow> 'z serverw_scheme" where
  "ts_put s x w = w\<lparr>servers := (servers w)(s \<mapsto> x)\<rparr>"

section \<open>The acceptor\<close>

definition new_acceptor :: "nat \<Rightarrow> nat \<Rightarrow> nat \<Rightarrow> inet_address \<Rightarrow> 'z serverw_scheme \<Rightarrow> 'z serverw_scheme res" where
  "new_acceptor a ch l addr w = bindR (createNonblockingOrDie w) (\<lambda>(fd, w1).
     let w2 = setReuseAddr fd True (ch_put ch (new_channel l fd) w1)
     in bindR (bindOrDie fd addr w2) (\<lambda>w3.
          let x = \<lparr>ac_loop = l, ac_socket = fd, ac_channel = ch, ac_newConnection = None, ac_listening = False\<rparr>
          in Inr (ac_put a x (ch_put ch (setReadCallback (Some (CbAcceptorRead a)) (new_channel l fd)) w3))))"

definition setNewConnectionCallback :: "nat option \<Rightarrow> acceptor \<Rightarrow> acceptor" where
  "setNewConnectionCallback cb x = x\<lparr>ac_newConnection := cb\<rparr>"

definition ac_listen :: "nat \<Rightarrow> 'z serverw_scheme \<Rightarrow> 'z serverw_scheme res" where
  "ac_listen a w = bindR (ac_get a w) (\<lambda>x. in_loop (ac_loop x) w
     (bindR (listenOrDie (ac_socket x) (ac_put a (x\<lparr>ac_listening := True\<rparr>) w)) (enableReading (ac_channel x))))"

text \<open>\<open>accepted s fd peer\<close> is the effect of the callback, \<open>TcpServer::newConnection\<close> of the server \<open>s\<close>.\<close>

definition ac_handleRead ::
  "(nat \<Rightarrow> int \<Rightarrow> inet_address \<Rightarrow> 'z serverw_scheme \<Rightarrow> 'z serverw_scheme res) \<Rightarrow> nat \<Rightarrow>
   'z serverw_scheme \<Rightarrow> 'z serverw_scheme res" where
  "ac_handleRead accepted a w = bindR (ac_get a w) (\<lambda>x. in_loop (ac_loop x) w
     (bindR (socket_accept (ac_socket x) (inet_any 0) w) (\<lambda>(connfd, peer, w1).
        if connfd \<ge> 0
        then (case ac_newConnection x of
                Some s \<Rightarrow> accepted s connfd peer w1
              | None \<Rightarrow> sk_close connfd w1)
        else Inr w1)))"

section \<open>The pool of loops\<close>

definition new_pool :: "nat \<Rightarrow> thread_pool" where
  "new_pool l = \<lparr>tp_base = l, tp_started = False, tp_numThreads = 0, tp_next = 0, tp_loops = []\<rparr>"

definition tp_setThreadNum :: "int \<Rightarrow> thread_pool \<Rightarrow> thread_pool" where
  "tp_setThreadNum n p = p\<lparr>tp_numThreads := n\<rparr>"

fun start_loops ::
  "('w \<Rightarrow> (nat \<times> 'w) res) \<Rightarrow> nat \<Rightarrow> 'w \<Rightarrow> (nat list \<times> 'w) res" where
  "start_loops startLoop 0 w = Inr ([], w)"
| "start_loops startLoop (Suc n) w = bindR (startLoop w) (\<lambda>(l, w1).
     bindR (start_loops startLoop n w1) (\<lambda>(ls, w2). Inr (l # ls, w2)))"

definition tp_start ::
  "('z serverw_scheme \<Rightarrow> (nat \<times> 'z serverw_scheme) res) \<Rightarrow> thread_pool \<Rightarrow> 'z serverw_scheme \<Rightarrow>
   (thread_pool \<times> 'z serverw_scheme) res" where
  "tp_start startLoop p w = in_loop (tp_base p) w (assertR (\<not> tp_started p)
     (bindR (start_loops startLoop (nat (tp_numThreads p)) w) (\<lambda>(ls, w1).
        Inr (p\<lparr>tp_started := True, tp_loops := tp_loops p @ ls\<rparr>, w1))))"

definition getNextLoop :: "thread_pool \<Rightarrow> 'z serverw_scheme \<Rightarrow> (nat \<times> thread_pool) res" where
  "getNextLoop p w = in_loop (tp_base p) w
     (assertR (tp_next p \<ge> 0 \<and> tp_next p \<le> tp_numThreads p)
       (if tp_loops p \<noteq> []
        then if tp_next p < int (length (tp_loops p))
             then let n = tp_next p + 1
                  in Inr (tp_loops p ! nat (tp_next p),
                       p\<lparr>tp_next := if n \<ge> int (length (tp_loops p)) then 0 else n\<rparr>)
             else Inl UndefinedBehaviour
        else Inr (tp_base p, p)))"

section \<open>The server\<close>

definition new_server ::
  "nat \<Rightarrow> nat \<Rightarrow> nat \<Rightarrow> nat \<Rightarrow> inet_address \<Rightarrow> string \<Rightarrow> 'z serverw_scheme \<Rightarrow> 'z serverw_scheme res" where
  "new_server s a ch l addr name w = bindR (new_acceptor a ch l addr w) (\<lambda>w1.
     bindR (ac_get a w1) (\<lambda>x.
       let server = \<lparr>ts_loop = l, ts_name = name, ts_hostPort = inet_toHostPort addr, ts_acceptor = a,
             ts_pool = new_pool l, ts_connectionCb = None, ts_messageCb = None, ts_writeCompleteCb = None,
             ts_started = False, ts_nextConnId = 1, ts_connections = (\<lambda>_. None)\<rparr>
       in Inr (ac_put a (setNewConnectionCallback (Some s) x) (ts_put s server w1))))"

definition ts_setConnectionCallback :: "nat option \<Rightarrow> tcp_server \<Rightarrow> tcp_server" where
  "ts_setConnectionCallback cb x = x\<lparr>ts_connectionCb := cb\<rparr>"

definition ts_setMessageCallback :: "nat option \<Rightarrow> tcp_server \<Rightarrow> tcp_server" where
  "ts_setMessageCallback cb x = x\<lparr>ts_messageCb := cb\<rparr>"

definition setWriteComleteCallback :: "nat option \<Rightarrow> tcp_server \<Rightarrow> tcp_server" where
  "setWriteComleteCallback cb x = x\<lparr>ts_writeCompleteCb := cb\<rparr>"

definition ts_setThreadNum :: "int \<Rightarrow> tcp_server \<Rightarrow> tcp_server res" where
  "ts_setThreadNum n x = assertR (n \<ge> 0) (Inr (x\<lparr>ts_pool := tp_setThreadNum n (ts_pool x)\<rparr>))"

definition server_conn_name :: "tcp_server \<Rightarrow> int \<Rightarrow> string" where
  "server_conn_name x n = ts_name x @ snprintf 32 ('':'' @ ts_hostPort x @ ''-'' @ decimal_int n)"

text \<open>\<open>nextConnId_++\<close> past the greatest \<open>int\<close> is undefined.\<close>

definition ts_newConnection ::
  "'z serverw_scheme hooks \<Rightarrow> nat \<Rightarrow> nat \<Rightarrow> nat \<Rightarrow> int \<Rightarrow> inet_address \<Rightarrow> 'z serverw_scheme \<Rightarrow> 'z serverw_scheme res" where
  "ts_newConnection hk a ch s sockfd peerAddr w = bindR (ts_get s w) (\<lambda>x.
     let (localAddr, w1) = getLocalAddr sockfd w
     in if ts_nextConnId x \<ge> 2 ^ 31 - 1 then Inl UndefinedBehaviour
        else
          let connName = server_conn_name x (ts_nextConnId x)
          in bindR (getNextLoop (ts_pool x) w1) (\<lambda>(ioLoop, pool).
               let w2 = ts_put s (x\<lparr>ts_nextConnId := ts_nextConnId x + 1, ts_pool := pool\<rparr>) w1;
                   w3 = new_connection a ch ioLoop connName sockfd localAddr peerAddr w2;
                   w4 = tc_mod a (setCloseCallback_conn (Some (CloseServer s)))
                          (tc_mod a (setWriteCompleteCallback (ts_writeCompleteCb x))
                            (tc_mod a (setMessageCallback (ts_messageCb x))
                              (tc_mod a (setConnectionCallback (ts_connectionCb x)) w3)))
               in bindR (runInLoop ioLoop (FnConnEstablished a) (connectionEstablished hk a) w4) (\<lambda>w5.
                    bindR (ts_get s w5) (\<lambda>y.
                      Inr (ts_put s (y\<lparr>ts_connections := (ts_connections y)(connName \<mapsto> a)\<rparr>) w5)))))"

definition server_start ::
  "('z serverw_scheme \<Rightarrow> (nat \<times> 'z serverw_scheme) res) \<Rightarrow> nat \<Rightarrow> 'z serverw_scheme \<Rightarrow> 'z serverw_scheme res" where
  "server_start startLoop s w = bindR (ts_get s w) (\<lambda>x. in_loop (ts_loop x) w
     (bindR (ac_get (ts_acceptor x) w) (\<lambda>ac.
      bindR (if ac_listening ac then Inr w else ac_listen (ts_acceptor x) w) (\<lambda>w1.
        if tp_started (ts_pool x) then Inr w1
        else bindR (tp_start startLoop (ts_pool x) w1) (\<lambda>(pool, w2).
               bindR (ts_get s w2) (\<lambda>y. Inr (ts_put s (y\<lparr>ts_pool := pool\<rparr>) w2)))))))"

definition removeConnectionInLoop :: "nat \<Rightarrow> nat \<Rightarrow> 'z serverw_scheme \<Rightarrow> 'z serverw_scheme res" where
  "removeConnectionInLoop s a w = bindR (ts_get s w) (\<lambda>x. in_loop (ts_loop x) w
     (bindR (tc_get a w) (\<lambda>c.
        assertR (ts_connections x (tc_name c) \<noteq> None)
          (queueInLoop (tc_loop c) (FnConnDestroyed a)
            (ts_put s (x\<lparr>ts_connections := (ts_connections x)(tc_name c := None)\<rparr>) w)))))"

definition ts_removeConnection :: "nat \<Rightarrow> nat \<Rightarrow> 'z serverw_scheme \<Rightarrow> 'z serverw_scheme res" where
  "ts_removeConnection s a w = bindR (ts_get s w) (\<lambda>x.
     runInLoop (ts_loop x) (FnRemoveConnection s a) (removeConnectionInLoop s a) w)"

section \<open>The loops are given out in turn\<close>

definition pool_ok :: "thread_pool \<Rightarrow> bool" where
  "pool_ok p \<longleftrightarrow> 0 \<le> tp_next p \<and> tp_next p \<le> tp_numThreads p \<and>
     int (length (tp_loops p)) \<le> tp_numThreads p \<and> (tp_loops p \<noteq> [] \<longrightarrow> tp_next p < int (length (tp_loops p)))"

text \<open>The reference: the loop of the \<open>i\<close>-th call from now on.\<close>

definition loop_in_turn :: "thread_pool \<Rightarrow> nat \<Rightarrow> nat" where
  "loop_in_turn p i = (if tp_loops p = [] then tp_base p
     else tp_loops p ! ((nat (tp_next p) + i) mod length (tp_loops p)))"

definition turned :: "nat \<Rightarrow> thread_pool \<Rightarrow> thread_pool" where
  "turned n p = (if tp_loops p = [] then p
     else p\<lparr>tp_next := int ((nat (tp_next p) + n) mod length (tp_loops p))\<rparr>)"

fun next_loops :: "nat \<Rightarrow> thread_pool \<Rightarrow> 'z serverw_scheme \<Rightarrow> (nat list \<times> thread_pool) res" where
  "next_loops 0 p w = Inr ([], p)"
| "next_loops (Suc n) p w = bindR (getNextLoop p w) (\<lambda>(l, p1).
     bindR (next_loops n p1 w) (\<lambda>(ls, p2). Inr (l # ls, p2)))"

lemma in_loop_thread: "loops w l \<noteq> None \<Longrightarrow> isInLoopThread l w \<Longrightarrow> in_loop l w k = k"
  by (auto simp: in_loop_def inLoopThread_def)

lemma getNextLoop_turn:
  assumes "pool_ok p" and "loops w (tp_base p) \<noteq> None" and "isInLoopThread (tp_base p) w"
  shows "getNextLoop p w = Inr (loop_in_turn p 0, turned 1 p)"
proof (cases "tp_loops p = []")
  case True
  then show ?thesis
    using assms by (simp add: getNextLoop_def in_loop_thread pool_ok_def loop_in_turn_def turned_def)
next
  case False
  define n where "n = nat (tp_next p)"
  have n: "tp_next p = int n" "n < length (tp_loops p)" using assms(1) False by (auto simp: pool_ok_def n_def)
  then have "(if 1 + int n \<ge> int (length (tp_loops p)) then 0 else 1 + int n) = int (Suc n mod length (tp_loops p))"
    by (cases "Suc n = length (tp_loops p)") auto
  then show ?thesis
    using assms False n by (simp add: getNextLoop_def in_loop_thread pool_ok_def loop_in_turn_def turned_def Let_def add.commute)
qed

lemma pool_ok_turned: "pool_ok p \<Longrightarrow> pool_ok (turned n p)"
proof (cases "tp_loops p = []")
  case False
  assume "pool_ok p"
  have "int ((nat (tp_next p) + n) mod length (tp_loops p)) < int (length (tp_loops p))"
    using False by (simp only: of_nat_less_iff) simp
  moreover from this have "int ((nat (tp_next p) + n) mod length (tp_loops p)) \<le> tp_numThreads p"
    using \<open>pool_ok p\<close> unfolding pool_ok_def by linarith
  ultimately show ?thesis using False \<open>pool_ok p\<close> by (simp add: pool_ok_def turned_def)
qed (simp add: turned_def)

lemma turned_fields [simp]:
  "tp_loops (turned n p) = tp_loops p" "tp_base (turned n p) = tp_base p" "tp_numThreads (turned n p) = tp_numThreads p"
  by (simp_all add: turned_def)

lemma loop_in_turn_turned: "pool_ok p \<Longrightarrow> loop_in_turn (turned 1 p) i = loop_in_turn p (Suc i)"
  by (simp add: loop_in_turn_def turned_def mod_simps)

lemma turned_turned: "pool_ok p \<Longrightarrow> turned n (turned 1 p) = turned (Suc n) p"
  by (simp add: turned_def mod_simps)

lemma turned_0: "pool_ok p \<Longrightarrow> turned 0 p = p"
  by (cases p) (auto simp: turned_def pool_ok_def)

section \<open>Names\<close>

text \<open>The name of the \<open>n\<close>-th connection is not cut off by the array of 32 bytes.\<close>

definition name_fits :: "tcp_server \<Rightarrow> int \<Rightarrow> bool" where
  "name_fits x n \<longleftrightarrow> 0 \<le> n \<and> length (ts_hostPort x) + length (decimal (nat n)) + 2 \<le> 31"

lemma server_conn_name_fits:
  "name_fits x n \<Longrightarrow> server_conn_name x n = ts_name x @ '':'' @ ts_hostPort x @ ''-'' @ decimal (nat n)"
  unfolding server_conn_name_def snprintf_def decimal_int_def name_fits_def
  by (subst take_all) auto

lemma server_names_distinct:
  assumes "name_fits x m" and "name_fits x n" and "server_conn_name x m = server_conn_name x n"
  shows "m = n"
proof -
  have "decimal (nat m) = decimal (nat n)"
    using assms by (simp add: server_conn_name_fits)
  then have "nat m = nat n" by (rule decimal_inj)
  then show ?thesis using assms(1,2) by (auto simp: name_fits_def)
qed

lemma name_fits_less: "name_fits x n \<Longrightarrow> 0 \<le> m \<Longrightarrow> m \<le> n \<Longrightarrow> name_fits x m"
  using decimal_longer [OF nat_mono, of m n] by (simp add: name_fits_def)

section \<open>The connections of a server\<close>

text \<open>
  A step may do much to connections, but not take them away from their owner: the objects, their
  names, loops, sockets, channels and callbacks stay, and the servers.
\<close>

definition same_identity :: "tcp_connection \<Rightarrow> tcp_connection \<Rightarrow> bool" where
  "same_identity c c' \<longleftrightarrow> tc_name c' = tc_name c \<and> tc_loop c' = tc_loop c \<and> tc_socket c' = tc_socket c \<and>
     tc_channel c' = tc_channel c \<and> tc_connectionCb c' = tc_connectionCb c \<and> tc_messageCb c' = tc_messageCb c \<and>
     tc_writeCompleteCb c' = tc_writeCompleteCb c \<and> tc_closeCb c' = tc_closeCb c"

definition keeps_conns :: "'z serverw_scheme \<Rightarrow> 'z serverw_scheme \<Rightarrow> bool" where
  "keeps_conns w w' \<longleftrightarrow> servers w' = servers w \<and> (\<forall>l. loops w' l = None \<longleftrightarrow> loops w l = None) \<and>
     (\<forall>l. isInLoopThread l w' = isInLoopThread l w) \<and> (\<forall>a. rel_option same_identity (conns w a) (conns w' a))"

lemma same_identity_refl [simp]: "same_identity c c"
  by (simp add: same_identity_def)

lemma same_identity_option [simp]: "rel_option same_identity x x"
  by (cases x) simp_all

lemma keeps_conns_refl [simp]: "keeps_conns w w"
  by (simp add: keeps_conns_def)

lemma keeps_conns_trans: "keeps_conns u v \<Longrightarrow> keeps_conns v w \<Longrightarrow> keeps_conns u w"
proof -
  have "rel_option same_identity x y \<Longrightarrow> rel_option same_identity y z \<Longrightarrow> rel_option same_identity x z" for x y z
    by (cases x; cases y; cases z) (auto simp: same_identity_def)
  then show "keeps_conns u v \<Longrightarrow> keeps_conns v w \<Longrightarrow> keeps_conns u w"
    unfolding keeps_conns_def by (metis (no_types, lifting))
qed

lemma keeps_conns_tc_mod: "(\<And>c. same_identity c (g c)) \<Longrightarrow> keeps_conns w (tc_mod a g w)"
  by (cases "conns w a") (auto simp: keeps_conns_def tc_mod_def isInLoopThread_def)

lemma keeps_conns_rest: "rest_same l w w' \<Longrightarrow> keeps_conns w w'"
proof -
  assume r: "rest_same l w w'"
  then have "servers w' = servers w" by (cases w; cases w') (auto simp: rest_same_def)
  moreover have "conns w' = conns w" using r by (rule rest_same_conns)
  ultimately show ?thesis using r by (auto simp: keeps_conns_def rest_same_def isInLoopThread_def split: if_splits)
qed

lemma serverw_fields [simp]:
  "servers (queued l fns calls w) = servers w" "servers (snd (sys call w)) = servers w"
  "servers (ts_put s x w) = (servers w)(s \<mapsto> x)" "conns (ts_put s x w) = conns w" "loops (ts_put s x w) = loops w"
  "isInLoopThread l (ts_put s x w) = isInLoopThread l w" "chans (ts_put s x w) = chans w"
  "kernel (ts_put s x w) = kernel w" "sysLog (ts_put s x w) = sysLog w"
  by (simp_all add: queued_def el_mod_def sys_def ts_put_def isInLoopThread_def)

lemma keeps_conns_queued: "loops w l \<noteq> None \<Longrightarrow> keeps_conns w (queued l fns calls w)"
  by (auto simp: keeps_conns_def)

text \<open>An entry of the map of connections.\<close>

definition entry_ok :: "nat \<Rightarrow> tcp_server \<Rightarrow> 'z serverw_scheme \<Rightarrow> string \<Rightarrow> nat \<Rightarrow> bool" where
  "entry_ok s x w name a \<longleftrightarrow> (\<exists>c n. conns w a = Some c \<and> tc_name c = name \<and> tc_closeCb c = Some (CloseServer s) \<and>
     loops w (tc_loop c) \<noteq> None \<and> 1 \<le> n \<and> n < ts_nextConnId x \<and> name_fits x n \<and> name = server_conn_name x n)"

definition server_ok :: "nat \<Rightarrow> 'z serverw_scheme \<Rightarrow> bool" where
  "server_ok s w \<longleftrightarrow> (\<exists>x. servers w s = Some x \<and> pool_ok (ts_pool x) \<and> tp_base (ts_pool x) = ts_loop x \<and>
     loops w (ts_loop x) \<noteq> None \<and> isInLoopThread (ts_loop x) w \<and> 1 \<le> ts_nextConnId x \<and>
     (\<forall>name a. ts_connections x name = Some a \<longrightarrow> entry_ok s x w name a))"

lemma entry_ok_keeps: "keeps_conns w w' \<Longrightarrow> entry_ok s x w name a \<Longrightarrow> entry_ok s x w' name a"
proof -
  assume k: "keeps_conns w w'" and "entry_ok s x w name a"
  then obtain c n where c: "conns w a = Some c" "tc_name c = name" "tc_closeCb c = Some (CloseServer s)"
    "loops w (tc_loop c) \<noteq> None" "1 \<le> n" "n < ts_nextConnId x" "name_fits x n" "name = server_conn_name x n"
    by (auto simp: entry_ok_def)
  from k c(1) have "rel_option same_identity (Some c) (conns w' a)" unfolding keeps_conns_def by metis
  then obtain c' where "conns w' a = Some c'" "same_identity c c'" by (auto simp: option_rel_Some1)
  moreover have "loops w' (tc_loop c) \<noteq> None" using k c(4) by (simp add: keeps_conns_def)
  ultimately show ?thesis using c unfolding entry_ok_def same_identity_def by metis
qed

lemma server_okE:
  assumes "server_ok s w"
  obtains x where "servers w s = Some x" "pool_ok (ts_pool x)" "tp_base (ts_pool x) = ts_loop x"
    "loops w (ts_loop x) \<noteq> None" "isInLoopThread (ts_loop x) w" "1 \<le> ts_nextConnId x"
    "\<And>name a. ts_connections x name = Some a \<Longrightarrow> entry_ok s x w name a"
  using assms by (auto simp: server_ok_def)

text \<open>The connections a server owns.\<close>

definition owned_conns :: "nat \<Rightarrow> 'z serverw_scheme \<Rightarrow> nat set" where
  "owned_conns s w = (case servers w s of None \<Rightarrow> {} | Some x \<Rightarrow> ran (ts_connections x))"

lemma server_ok_keeps: "keeps_conns w w' \<Longrightarrow> server_ok s w \<Longrightarrow> server_ok s w'"
proof (elim server_okE)
  fix x
  assume k: "keeps_conns w w'" and x: "servers w s = Some x" "pool_ok (ts_pool x)" "tp_base (ts_pool x) = ts_loop x"
    "loops w (ts_loop x) \<noteq> None" "isInLoopThread (ts_loop x) w" "1 \<le> ts_nextConnId x"
    "\<And>name a. ts_connections x name = Some a \<Longrightarrow> entry_ok s x w name a"
  have "\<forall>name a. ts_connections x name = Some a \<longrightarrow> entry_ok s x w' name a"
    using x(7) entry_ok_keeps [OF k] by blast
  moreover have "servers w' s = Some x" "loops w' (ts_loop x) \<noteq> None" "isInLoopThread (ts_loop x) w'"
    using k x(1,4,5) by (simp_all add: keeps_conns_def)
  ultimately show "server_ok s w'" using x(2,3,6) unfolding server_ok_def by blast
qed

lemma owned_once:
  assumes "server_ok s w" and "servers w s = Some x" and "ts_connections x m = Some a" and "ts_connections x n = Some a"
  shows "m = n"
proof -
  have "entry_ok s x w m a" "entry_ok s x w n a" using assms by (auto elim: server_okE)
  then show ?thesis by (auto simp: entry_ok_def)
qed

section \<open>A new connection\<close>

definition tame :: "'z serverw_scheme hooks \<Rightarrow> bool" where
  "tame hk \<longleftrightarrow> (\<forall>cb a w. conns w a \<noteq> None \<longrightarrow> (\<exists>w'. on_connection hk cb a w = Inr w' \<and> keeps_conns w w'))"

text \<open>The connection and the channel as the server makes them.\<close>

definition made_conn :: "nat \<Rightarrow> tcp_server \<Rightarrow> nat \<Rightarrow> nat \<Rightarrow> int \<Rightarrow> inet_address \<Rightarrow> inet_address \<Rightarrow> tcp_connection" where
  "made_conn s x l ch sockfd localAddr peerAddr = \<lparr>tc_state = KConnecting, tc_loop = l,
     tc_name = server_conn_name x (ts_nextConnId x), tc_socket = sockfd, tc_channel = ch,
     tc_peerAddr = localAddr, tc_localAddr = peerAddr, tc_input = new_buffer, tc_output = new_buffer,
     tc_connectionCb = ts_connectionCb x, tc_messageCb = ts_messageCb x,
     tc_writeCompleteCb = ts_writeCompleteCb x, tc_closeCb = Some (CloseServer s), tc_context = None\<rparr>"

definition conn_channel :: "nat \<Rightarrow> nat \<Rightarrow> int \<Rightarrow> channel" where
  "conn_channel a l fd = setErrorCallback (Some (CbConnError a)) (setCloseCallback (Some (CbConnClose a))
     (setWriteCallback (Some (CbConnWrite a)) (setReadCallback (Some (CbConnRead a)) (new_channel l fd))))"

lemma conn_channel_fields [simp]:
  "ch_loop (conn_channel a l fd) = l" "ch_fd (conn_channel a l fd) = fd" "ch_index (conn_channel a l fd) = -1"
  by (simp_all add: conn_channel_def new_channel_def setErrorCallback_def setCloseCallback_def setWriteCallback_def
      setReadCallback_def)

lemma set_up_eq:
  "tc_mod a (setCloseCallback_conn (Some (CloseServer s))) (tc_mod a (setWriteCompleteCallback (ts_writeCompleteCb x))
     (tc_mod a (setMessageCallback (ts_messageCb x)) (tc_mod a (setConnectionCallback (ts_connectionCb x))
       (new_connection a ch l (server_conn_name x (ts_nextConnId x)) sockfd localAddr peerAddr w)))) =
   (ch_put ch (conn_channel a l sockfd) w)\<lparr>conns := (conns w)(a \<mapsto> made_conn s x l ch sockfd localAddr peerAddr)\<rparr>"
  by (simp add: new_connection_def conn_channel_def made_conn_def tc_mod_def setCloseCallback_conn_def
      setWriteCompleteCallback_def setMessageCallback_def setConnectionCallback_def Let_def)

text \<open>
  What becomes of a connection that is set up: in the thread of its loop it is connected, its channel
  is registered, and the user's callback has run; another loop has got the functor that does that.
\<close>

definition brought_up ::
  "'z serverw_scheme hooks \<Rightarrow> nat \<Rightarrow> tcp_connection \<Rightarrow> 'z serverw_scheme \<Rightarrow> 'z serverw_scheme \<Rightarrow> bool" where
  "brought_up hk a c v w \<longleftrightarrow> (if isInLoopThread (tc_loop c) v
     then \<exists>u. conns u a = Some (setState KConnected c) \<and> registered (tc_loop c) u (tc_socket c) = Some (tc_channel c) \<and>
       (case tc_connectionCb c of None \<Rightarrow> w = u | Some cb \<Rightarrow> on_connection hk cb a u = Inr w)
     else FnConnEstablished a \<in> set (pending (tc_loop c) w))"

lemma establish_somewhere:
  assumes "conns v a = Some c" and "tc_state c = KConnecting" and "loops v (tc_loop c) \<noteq> None" and "tame hk"
    and "isInLoopThread (tc_loop c) v \<Longrightarrow> loop_ok (tc_loop c) v \<and> usable (tc_loop c) (tc_channel c) v"
    and "chans v (tc_channel c) = Some ch" and "ch_fd ch = tc_socket c"
  shows "\<exists>w. runInLoop (tc_loop c) (FnConnEstablished a) (connectionEstablished hk a) v = Inr w \<and> keeps_conns v w \<and>
    brought_up hk a c v w"
proof (cases "isInLoopThread (tc_loop c) v")
  case False
  then show ?thesis using assms(3) by (simp add: runInLoop_elsewhere keeps_conns_queued brought_up_def)
next
  case True
  with assms(5) have ok: "loop_ok (tc_loop c) v" "usable (tc_loop c) (tc_channel c) v" by simp_all
  from connectionEstablished_ok [OF ok(1) assms(1) ok(2) assms(2), of hk] obtain w1 where
    w1: "connectionEstablished hk a v = (case tc_connectionCb c of None \<Rightarrow> Inr w1 | Some cb \<Rightarrow> on_connection hk cb a w1)"
    "conns w1 = (conns v)(a \<mapsto> setState KConnected c)" "rest_same (tc_loop c) (tc_mod a (setState KConnected) v) w1"
    "registered (tc_loop c) w1 (tc_socket c) = Some (tc_channel c)" using assms(6,7) by fastforce
  have k: "keeps_conns v w1"
    using keeps_conns_trans [OF keeps_conns_tc_mod keeps_conns_rest [OF w1(3)]] by (simp add: setState_def same_identity_def)
  have "conns w1 a \<noteq> None" using w1(2) by simp
  then have "\<exists>w. connectionEstablished hk a v = Inr w \<and> keeps_conns w1 w \<and>
      (case tc_connectionCb c of None \<Rightarrow> w = w1 | Some cb \<Rightarrow> on_connection hk cb a w1 = Inr w)"
  proof (cases "tc_connectionCb c")
    case (Some cb)
    from assms(4) \<open>conns w1 a \<noteq> None\<close> obtain w where "on_connection hk cb a w1 = Inr w" "keeps_conns w1 w"
      unfolding tame_def by blast
    then show ?thesis using w1(1) Some by simp
  qed (use w1(1) in simp)
  then obtain w where w: "connectionEstablished hk a v = Inr w" "keeps_conns w1 w"
    "case tc_connectionCb c of None \<Rightarrow> w = w1 | Some cb \<Rightarrow> on_connection hk cb a w1 = Inr w" by blast
  have "brought_up hk a c v w" using True w(3) w1(2,4) by (auto simp: brought_up_def intro!: exI [of _ w1])
  then show ?thesis using keeps_conns_trans [OF k w(2)] w(1) True assms(3) by (simp add: runInLoop_here)
qed

text \<open>The loop that gets a new connection can take it.\<close>

definition can_take :: "nat \<Rightarrow> nat \<Rightarrow> int \<Rightarrow> 'z serverw_scheme \<Rightarrow> bool" where
  "can_take l ch fd w \<longleftrightarrow> loops w l \<noteq> None \<and> (isInLoopThread l w \<longrightarrow>
     loop_ok l w \<and> ch \<notin> ran (registered l w) \<and> valid_fd fd \<and> registered l w fd = None)"

lemma loop_ok_alike:
  assumes "loop_ok l w" and "chans v = chans w" and "kernel v = kernel w" and "sysLog v = sysLog w"
    and "isInLoopThread l v = isInLoopThread l w" and "loops v = loops w"
  shows "loop_ok l v"
  using assms po_ok_more unfolding loop_ok_def by metis

lemma taken_usable:
  assumes "loop_ok l w" and "ch \<notin> ran (registered l w)" and "valid_fd fd" and "registered l w fd = None"
  shows "loop_ok l (ch_put ch (conn_channel a l fd) w)" and "usable l ch (ch_put ch (conn_channel a l fd) w)"
  using assms po_put_other by (auto simp: loop_ok_def registered_def usable_def po.admissible_def)


lemma next_name_free:
  assumes "server_ok s w" and "servers w s = Some x" and "name_fits x (ts_nextConnId x)"
  shows "ts_connections x (server_conn_name x (ts_nextConnId x)) = None"
proof (rule ccontr)
  assume "ts_connections x (server_conn_name x (ts_nextConnId x)) \<noteq> None"
  then obtain a where "ts_connections x (server_conn_name x (ts_nextConnId x)) = Some a" by blast
  then have "entry_ok s x w (server_conn_name x (ts_nextConnId x)) a" using assms(1,2) by (auto elim: server_okE)
  then obtain n where "n < ts_nextConnId x" "name_fits x n" "server_conn_name x (ts_nextConnId x) = server_conn_name x n"
    by (auto simp: entry_ok_def)
  then show False using server_names_distinct [OF assms(3)] by fastforce
qed

definition with_next :: "tcp_server \<Rightarrow> tcp_server" where
  "with_next x = x\<lparr>ts_nextConnId := ts_nextConnId x + 1, ts_pool := turned 1 (ts_pool x)\<rparr>"

definition with_conn :: "string \<Rightarrow> nat \<Rightarrow> tcp_server \<Rightarrow> tcp_server" where
  "with_conn name a x = x\<lparr>ts_connections := (ts_connections x)(name \<mapsto> a)\<rparr>"

lemma with_next_fields [simp]:
  "ts_connections (with_next x) = ts_connections x" "ts_loop (with_next x) = ts_loop x"
  "ts_pool (with_next x) = turned 1 (ts_pool x)" "ts_nextConnId (with_next x) = ts_nextConnId x + 1"
  "server_conn_name (with_next x) n = server_conn_name x n" "name_fits (with_next x) n = name_fits x n"
  by (simp_all add: with_next_def server_conn_name_def name_fits_def)

lemma with_conn_fields [simp]:
  "ts_connections (with_conn name a x) = (ts_connections x)(name \<mapsto> a)" "ts_loop (with_conn name a x) = ts_loop x"
  "ts_pool (with_conn name a x) = ts_pool x" "ts_nextConnId (with_conn name a x) = ts_nextConnId x"
  "server_conn_name (with_conn name a x) n = server_conn_name x n" "name_fits (with_conn name a x) n = name_fits x n"
  by (simp_all add: with_conn_def server_conn_name_def name_fits_def)

text \<open>The state with the new connection set up, before it is established.\<close>

definition set_up :: "nat \<Rightarrow> tcp_server \<Rightarrow> nat \<Rightarrow> nat \<Rightarrow> int \<Rightarrow> inet_address \<Rightarrow> 'z serverw_scheme \<Rightarrow> 'z serverw_scheme" where
  "set_up s x a ch sockfd peerAddr w = (let l = loop_in_turn (ts_pool x) 0; (localAddr, w1) = getLocalAddr sockfd w in
     (ch_put ch (conn_channel a l sockfd) (ts_put s (with_next x) w1))
       \<lparr>conns := (conns w)(a \<mapsto> made_conn s x l ch sockfd localAddr peerAddr)\<rparr>)"

lemma newConnection_unfold:
  assumes "server_ok s w" and "servers w s = Some x" and "ts_nextConnId x < 2 ^ 31 - 1"
  shows "ts_newConnection hk a ch s sockfd peerAddr w =
    bindR (runInLoop (loop_in_turn (ts_pool x) 0) (FnConnEstablished a) (connectionEstablished hk a)
        (set_up s x a ch sockfd peerAddr w)) (\<lambda>w5. bindR (ts_get s w5) (\<lambda>y.
      Inr (ts_put s (with_conn (server_conn_name x (ts_nextConnId x)) a y) w5)))"
proof -
  define w1 where "w1 = snd (getLocalAddr sockfd w)"
  have w1: "w1 = snd (sys (SysGetsockname sockfd) w)" by (simp add: w1_def getLocalAddr_def split_beta)
  have "getNextLoop (ts_pool x) w1 = Inr (loop_in_turn (ts_pool x) 0, turned 1 (ts_pool x))"
    using assms(1,2) by (intro getNextLoop_turn) (auto simp: w1 elim!: server_okE)
  then show ?thesis
    using assms(2,3)
    by (simp add: ts_newConnection_def ts_get_def Let_def split_beta w1_def [symmetric] set_up_eq set_up_def with_next_def
        with_conn_def) (simp add: w1)
qed

lemma set_up_keeps:
  assumes "servers w s = Some x" and "conns w a = None"
  shows "servers (set_up s x a ch sockfd peerAddr w) = (servers w)(s \<mapsto> with_next x)"
    "loops (set_up s x a ch sockfd peerAddr w) = loops w"
    "isInLoopThread l (set_up s x a ch sockfd peerAddr w) = isInLoopThread l w"
    "\<And>b c. conns w b = Some c \<Longrightarrow> conns (set_up s x a ch sockfd peerAddr w) b = Some c"
    "conns (set_up s x a ch sockfd peerAddr w) a =
      Some (made_conn s x (loop_in_turn (ts_pool x) 0) ch sockfd (fst (getLocalAddr sockfd w)) peerAddr)"
    "chans (set_up s x a ch sockfd peerAddr w) ch = Some (conn_channel a (loop_in_turn (ts_pool x) 0) sockfd)"
  using assms by (auto simp: set_up_def Let_def split_beta getLocalAddr_def isInLoopThread_def ts_put_def ch_put_def sys_def)


lemma entry_ok_more:
  assumes "entry_ok s x w name a" and "\<And>c. conns w a = Some c \<Longrightarrow> conns w' a = Some c" and "loops w' = loops w"
    and "ts_nextConnId x \<le> ts_nextConnId y" and "\<And>n. server_conn_name y n = server_conn_name x n"
    and "\<And>n. name_fits y n = name_fits x n"
  shows "entry_ok s y w' name a"
  using assms unfolding entry_ok_def by (metis order_less_le_trans)

lemma set_up_server_ok:
  assumes "server_ok s w" and "servers w s = Some x" and "conns w a = None"
  shows "server_ok s (set_up s x a ch sockfd peerAddr w)"
proof -
  note k = set_up_keeps [OF assms(2,3)]
  have "entry_ok s (with_next x) (set_up s x a ch sockfd peerAddr w) name b" if "ts_connections x name = Some b" for name b
  proof (rule entry_ok_more)
    show "entry_ok s x w name b" using that assms(1,2) by (auto elim: server_okE)
  qed (use k in simp_all)
  then show ?thesis
    using assms k pool_ok_turned unfolding server_ok_def
    by (intro exI [of _ "with_next x"]) (auto simp: k)
qed

lemma set_up_usable:
  assumes "can_take l ch sockfd w" and "l = loop_in_turn (ts_pool x) 0" and "isInLoopThread l w"
  shows "loop_ok l (set_up s x a ch sockfd peerAddr w) \<and> usable l ch (set_up s x a ch sockfd peerAddr w)"
proof -
  define w1 where "w1 = snd (getLocalAddr sockfd w)"
  have w1: "w1 = snd (sys (SysGetsockname sockfd) w)" by (simp add: w1_def getLocalAddr_def split_beta)
  let ?v = "ts_put s (with_next x) w1"
  have "loop_ok l w1" using assms(1,3) loop_ok_sys [of l w "SysGetsockname sockfd"] by (simp add: can_take_def w1)
  then have "loop_ok l ?v" by (rule loop_ok_alike) simp_all
  moreover have "registered l ?v = registered l w" by (simp add: registered_def w1)
  ultimately have u: "loop_ok l (ch_put ch (conn_channel a l sockfd) ?v)" "usable l ch (ch_put ch (conn_channel a l sockfd) ?v)"
    using taken_usable [of l ?v ch sockfd a] assms(1,3) by (simp_all add: can_take_def)
  let ?u = "(ch_put ch (conn_channel a l sockfd) ?v)\<lparr>conns := (conns w)(a \<mapsto> made_conn s x l ch sockfd (fst (getLocalAddr sockfd w)) peerAddr)\<rparr>"
  have "set_up s x a ch sockfd peerAddr w = ?u" using assms(2) by (simp add: set_up_def Let_def split_beta w1_def)
  moreover have "loop_ok l ?u" using u(1) by (rule loop_ok_alike) (simp_all add: isInLoopThread_def)
  moreover have "usable l ch ?u" using u(2) by (simp add: usable_def)
  ultimately show ?thesis by simp
qed

lemma newConnection_ok:
  fixes peerAddr :: inet_address
  assumes ok: "server_ok s w" and x: "servers w s = Some x" and take: "can_take (loop_in_turn (ts_pool x) 0) ch sockfd w"
    and none: "conns w a = None" and id: "ts_nextConnId x < 2 ^ 31 - 1" "name_fits x (ts_nextConnId x)" and hk: "tame hk"
  defines "name \<equiv> server_conn_name x (ts_nextConnId x)"
    and "new \<equiv> made_conn s x (loop_in_turn (ts_pool x) 0) ch sockfd (fst (getLocalAddr sockfd w)) peerAddr"
  shows "\<exists>v. ts_newConnection hk a ch s sockfd peerAddr w = Inr (ts_put s (with_conn name a (with_next x)) v) \<and>
    server_ok s (ts_put s (with_conn name a (with_next x)) v) \<and> ts_connections x name = None \<and>
    rel_option same_identity (Some new) (conns v a) \<and> brought_up hk a new w v"
proof -
  let ?l = "loop_in_turn (ts_pool x) 0"
  define v where "v = set_up s x a ch sockfd peerAddr w"
  define c where "c = made_conn s x ?l ch sockfd (fst (getLocalAddr sockfd w)) peerAddr"
  note k = set_up_keeps [OF x none, where ch = ch and sockfd = sockfd and peerAddr = peerAddr, folded v_def]
  have c: "tc_loop c = ?l" "tc_channel c = ch" "tc_state c = KConnecting" "tc_name c = name" "tc_closeCb c = Some (CloseServer s)"
    "tc_socket c = sockfd" by (simp_all add: c_def made_conn_def name_def)
  have "\<exists>w5. runInLoop ?l (FnConnEstablished a) (connectionEstablished hk a) v = Inr w5 \<and> keeps_conns v w5 \<and> brought_up hk a c v w5"
    using establish_somewhere [of v a c hk "conn_channel a ?l sockfd"] set_up_usable [OF take refl] take hk c k(2,3,5,6)
    by (simp add: v_def c_def can_take_def)
  then obtain w5 where w5: "runInLoop ?l (FnConnEstablished a) (connectionEstablished hk a) v = Inr w5" "keeps_conns v w5"
    "brought_up hk a c w w5" using k(3) by (auto simp: brought_up_def)
  have s5: "servers w5 s = Some (with_next x)" using w5(2) k(1) by (simp add: keeps_conns_def)
  let ?w' = "ts_put s (with_conn name a (with_next x)) w5"
  have ok5: "server_ok s w5" using server_ok_keeps [OF w5(2)] set_up_server_ok [OF ok x none] by (simp add: v_def)
  have a5: "rel_option same_identity (Some c) (conns w5 a)" using w5(2) k(5) by (metis keeps_conns_def c_def)
  then obtain c' where c': "conns w5 a = Some c'" "same_identity c c'" by (auto simp: option_rel_Some1)
  have l5: "loops w5 ?l \<noteq> None" using w5(2) k(2) take by (simp add: keeps_conns_def can_take_def)
  have "1 \<le> ts_nextConnId x" using ok x by (auto elim: server_okE)
  then have "entry_ok s (with_conn name a (with_next x)) ?w' name a"
    using c c' l5 id(2) unfolding entry_ok_def
    by (intro exI [of _ c'] exI [of _ "ts_nextConnId x"]) (simp add: same_identity_def name_def)
  moreover have "entry_ok s (with_conn name a (with_next x)) ?w' m b" if "ts_connections x m = Some b" for m b
    by (rule entry_ok_more [of s "with_next x" w5]) (use ok5 s5 that in \<open>auto elim: server_okE\<close>)
  ultimately have "server_ok s ?w'"
    using ok5 s5 unfolding server_ok_def by (intro exI [of _ "with_conn name a (with_next x)"]) auto
  moreover have "ts_newConnection hk a ch s sockfd peerAddr w = Inr ?w'"
    using newConnection_unfold [OF ok x id(1)] w5(1) s5 by (simp add: v_def [symmetric] name_def ts_get_def)
  ultimately show ?thesis
    using next_name_free [OF ok x id(2)] a5 w5(3) by (intro exI [of _ w5]) (simp add: name_def c_def new_def)
qed

section \<open>A connection is given up\<close>

definition without_conn :: "string \<Rightarrow> tcp_server \<Rightarrow> tcp_server" where
  "without_conn name x = x\<lparr>ts_connections := (ts_connections x)(name := None)\<rparr>"

lemma without_conn_fields [simp]:
  "ts_connections (without_conn name x) = (ts_connections x)(name := None)" "ts_loop (without_conn name x) = ts_loop x"
  "ts_pool (without_conn name x) = ts_pool x" "ts_nextConnId (without_conn name x) = ts_nextConnId x"
  "server_conn_name (without_conn name x) n = server_conn_name x n" "name_fits (without_conn name x) n = name_fits x n"
  by (simp_all add: without_conn_def server_conn_name_def name_fits_def)

lemma removeConnectionInLoop_ok:
  assumes ok: "server_ok s w" and a: "a \<in> owned_conns s w"
  shows "\<exists>w'. removeConnectionInLoop s a w = Inr w' \<and> server_ok s w' \<and>
    owned_conns s w' = owned_conns s w - {a} \<and> doomed w' = insert a (doomed w)"
proof -
  from ok obtain x where x: "servers w s = Some x" "loops w (ts_loop x) \<noteq> None" "isInLoopThread (ts_loop x) w"
    "\<And>name a. ts_connections x name = Some a \<Longrightarrow> entry_ok s x w name a" by (auto elim: server_okE)
  from a x(1) obtain name where name: "ts_connections x name = Some a" by (auto simp: owned_conns_def ran_def)
  then have "entry_ok s x w name a" by (rule x(4))
  then obtain c where c: "conns w a = Some c" "tc_name c = name" "loops w (tc_loop c) \<noteq> None"
    unfolding entry_ok_def by blast
  let ?v = "ts_put s (without_conn name x) w"
  have "entry_ok s (without_conn name x) ?v m b" if "ts_connections x m = Some b" for m b
    by (rule entry_ok_more [OF x(4) [OF that]]) simp_all
  then have ok': "server_ok s ?v"
    using ok x(1) unfolding server_ok_def by (intro exI [of _ "without_conn name x"]) auto
  define calls where "calls = (if isInLoopThread (tc_loop c) w \<and> calling (tc_loop c) ?v then [wake_call (tc_loop c) ?v] else [])"
  let ?w' = "queued (tc_loop c) [FnConnDestroyed a] calls ?v"
  have "removeConnectionInLoop s a w = Inr ?w'"
    using x(1-3) c name by (simp add: removeConnectionInLoop_def ts_get_def tc_get_def in_loop_thread queueInLoop_eq
        without_conn_def calls_def)
  moreover have "server_ok s ?w'" using server_ok_keeps [OF keeps_conns_queued ok'] c(3) by simp
  moreover have "ran ((ts_connections x)(name := None)) = ran (ts_connections x) - {a}"
    using name by (auto simp: ran_def dest: owned_once [OF ok x(1) _ name]) (metis option.inject)
  then have "owned_conns s ?w' = owned_conns s w - {a}" using x(1) by (simp add: owned_conns_def)
  moreover have "doomed ?v = doomed w" by (simp add: doomed_def pending_def)
  then have "doomed ?w' = insert a (doomed w)" using c(3) by (simp add: doomed_queued)
  ultimately show ?thesis by blast
qed

interpretation owner: conn_owner "server_ok s" "owned_conns s" "removeConnectionInLoop s" for s
  by unfold_locales (rule removeConnectionInLoop_ok)

lemma removeConnection_unknown:
  assumes "server_ok s w" and "servers w s = Some x" and "conns w a = Some c" and "ts_connections x (tc_name c) = None"
  shows "removeConnectionInLoop s a w = Inl AssertFail"
  using assms by (auto simp: removeConnectionInLoop_def ts_get_def tc_get_def in_loop_thread elim!: server_okE)


section \<open>Properties\<close>

text \<open>
  A server at address 8 with the loop at address 0 and no threads, and a server over two more
  loops; the connection callback leaves everything as it is.
\<close>

definition example_server :: "nat list \<Rightarrow> tcp_server" where
  "example_server ls = \<lparr>ts_loop = 0, ts_name = ''S'', ts_hostPort = ''0.0.0.0:80'', ts_acceptor = 6,
     ts_pool = \<lparr>tp_base = 0, tp_started = True, tp_numThreads = int (length ls), tp_next = 0, tp_loops = ls\<rparr>,
     ts_connectionCb = Some 1, ts_messageCb = Some 2, ts_writeCompleteCb = None, ts_started = False,
     ts_nextConnId = 1, ts_connections = (\<lambda>_. None)\<rparr>"

definition example_serverw :: "nat list \<Rightarrow> serverw" where
  "example_serverw ls = \<lparr>kernel = zero_kernel, sysLog = [], curTid = 1, threadOf = (\<lambda>l. if l = 0 then 1 else 2),
     chans = (\<lambda>_. None), loops = (\<lambda>l. if l \<in> insert 0 (set ls) then Some (example_eventloop []) else None),
     threadLoop = [1 \<mapsto> 0], tqs = (\<lambda>_. None), timers = (\<lambda>_. None), numCreated = 0, conns = (\<lambda>_. None),
     acceptors = (\<lambda>_. None), servers = [8 \<mapsto> example_server ls]\<rparr>"

definition quiet_hooks :: "'w hooks" where
  "quiet_hooks = \<lparr>on_connection = \<lambda>_ _. Inr, on_message = \<lambda>_ _ _. Inr, on_close = \<lambda>_ _. Inr\<rparr>"

lemma quiet_tame: "tame quiet_hooks"
  by (simp add: tame_def quiet_hooks_def)

lemma example_serverw_fields [simp]:
  "servers (example_serverw ls) = [8 \<mapsto> example_server ls]" "conns (example_serverw ls) = (\<lambda>_. None)"
  "loops (example_serverw ls) l = (if l \<in> insert 0 (set ls) then Some (example_eventloop []) else None)"
  "isInLoopThread l (example_serverw ls) = (l = 0)" "kernel (example_serverw ls) = zero_kernel"
  by (auto simp: example_serverw_def isInLoopThread_def)

lemma example_server_ok: "server_ok 8 (example_serverw ls)"
  by (simp add: server_ok_def example_server_def pool_ok_def)

lemma example_name: "name_fits (example_server ls) 1" "server_conn_name (example_server ls) 1 = ''S:0.0.0.0:80-1''"
  by (simp_all add: name_fits_def server_conn_name_def snprintf_def decimal_int_def decimal_digit example_server_def
      digit_one)

lemma example_no_connections: "ts_connections (example_server ls) = (\<lambda>_. None)"
  by (simp add: example_server_def)

lemma example_can_take: "can_take 0 1 5 (example_serverw ls)"
  by (simp add: can_take_def loop_ok_def registered_def example_eventloop_def pp_ok_def pp_new_def keys_def valid_fd_def)

text \<open>C21: a server takes a connection that the acceptor hands it. The connection gets a name no
  other connection of this server has, the socket, the loop whose turn it is, all three of the
  server's callbacks, and \<open>removeConnection\<close> as its close callback, and the server knows it; everything the
  server knew before it still knows, and its invariant is kept. In the thread of its loop the connection is
  connected and its channel registered when the user's connection callback runs; another loop has been
  handed the functor that brings it up.\<close>

theorem server_takes_connection:
  assumes "server_ok s w" and "servers w s = Some x" and "can_take (loop_in_turn (ts_pool x) 0) ch sockfd w"
    and "conns w a = None" and "ts_nextConnId x < 2 ^ 31 - 1" and "name_fits x (ts_nextConnId x)" and "tame hk"
  shows "\<exists>v y c. ts_newConnection hk a ch s sockfd peerAddr w = Inr (ts_put s y v) \<and> server_ok s (ts_put s y v) \<and>
    conns v a = Some c \<and> tc_name c = server_conn_name x (ts_nextConnId x) \<and> ts_connections x (tc_name c) = None \<and>
    ts_connections y = (ts_connections x)(tc_name c \<mapsto> a) \<and> owned_conns s (ts_put s y v) = insert a (owned_conns s w) \<and>
    tc_socket c = sockfd \<and> tc_channel c = ch \<and> tc_loop c = loop_in_turn (ts_pool x) 0 \<and>
    tc_connectionCb c = ts_connectionCb x \<and> tc_messageCb c = ts_messageCb x \<and>
    tc_writeCompleteCb c = ts_writeCompleteCb x \<and> tc_closeCb c = Some (CloseServer s) \<and>
    (if isInLoopThread (tc_loop c) w
     then \<exists>u d. conns u a = Some d \<and> tc_state d = KConnected \<and> registered (tc_loop c) u sockfd = Some ch \<and>
       (case tc_connectionCb c of None \<Rightarrow> v = u | Some cb \<Rightarrow> on_connection hk cb a u = Inr v)
     else FnConnEstablished a \<in> set (pending (tc_loop c) v))"
proof -
  let ?m = "made_conn s x (loop_in_turn (ts_pool x) 0) ch sockfd (fst (getLocalAddr sockfd w)) peerAddr"
  let ?y = "with_conn (server_conn_name x (ts_nextConnId x)) a (with_next x)"
  from newConnection_ok [OF assms, of peerAddr] obtain v where
    v: "ts_newConnection hk a ch s sockfd peerAddr w = Inr (ts_put s ?y v)" "server_ok s (ts_put s ?y v)"
    "ts_connections x (server_conn_name x (ts_nextConnId x)) = None" "rel_option same_identity (Some ?m) (conns v a)"
    "brought_up hk a ?m w v" by blast
  then obtain c where c: "conns v a = Some c" "same_identity ?m c" by (auto simp: option_rel_Some1)
  have m: "tc_name ?m = server_conn_name x (ts_nextConnId x)" "tc_socket ?m = sockfd" "tc_channel ?m = ch"
    "tc_loop ?m = loop_in_turn (ts_pool x) 0" "tc_connectionCb ?m = ts_connectionCb x" "tc_messageCb ?m = ts_messageCb x"
    "tc_writeCompleteCb ?m = ts_writeCompleteCb x" "tc_closeCb ?m = Some (CloseServer s)" by (simp_all add: made_conn_def)
  have "owned_conns s (ts_put s ?y v) = insert a (owned_conns s w)" using v(3) assms(2) by (simp add: owned_conns_def)
  moreover have "tc_state (setState KConnected ?m) = KConnected" by (simp add: setState_def)
  ultimately show ?thesis using v(1-3,5) c m unfolding brought_up_def same_identity_def
    by (intro exI [of _ v] exI [of _ ?y] exI [of _ c]) (auto split: if_splits)
qed

theorem server_takes_connection_witness:
  "\<exists>v y c. ts_newConnection quiet_hooks 20 1 8 5 zero_address (example_serverw []) = Inr (ts_put 8 y v) \<and>
     ts_connections y = [''S:0.0.0.0:80-1'' \<mapsto> 20] \<and> conns v 20 = Some c \<and> tc_messageCb c = Some 2 \<and>
     registered 0 v 5 = Some 1"
proof -
  have "loop_in_turn (ts_pool (example_server [])) 0 = 0" "ts_nextConnId (example_server []) = 1"
    "ts_connectionCb (example_server []) = Some 1" "ts_messageCb (example_server []) = Some 2"
    by (simp_all add: loop_in_turn_def example_server_def)
  moreover have "on_connection quiet_hooks cb a w = Inr w" for cb a and w :: serverw by (simp add: quiet_hooks_def)
  ultimately show ?thesis
    using server_takes_connection [OF example_server_ok, of "[]" "example_server []" 1 5 20 quiet_hooks zero_address]
      example_can_take example_name
    by (simp add: example_no_connections quiet_tame) (elim exE conjE, intro exI conjI, assumption, simp_all)
qed

definition serving :: serverw where
  "serving = (example_serverw [])\<lparr>conns := [20 \<mapsto> made_conn 8 (example_server []) 0 1 5 zero_address zero_address],
     servers := [8 \<mapsto> with_conn ''S:0.0.0.0:80-1'' 20 (with_next (example_server []))]\<rparr>"

lemma serving_ok: "server_ok 8 serving"
proof -
  let ?x = "with_conn ''S:0.0.0.0:80-1'' 20 (with_next (example_server []))"
  have "entry_ok 8 ?x serving ''S:0.0.0.0:80-1'' 20"
    using example_name [of "[]"]
    by (simp add: entry_ok_def serving_def made_conn_def) (auto simp: example_server_def example_serverw_def intro: exI [of _ 1])
  moreover have "pool_ok (ts_pool ?x)" "tp_base (ts_pool ?x) = ts_loop ?x" "1 \<le> ts_nextConnId ?x" "ts_loop ?x = 0"
    by (simp_all add: example_server_def pool_ok_def turned_def)
  ultimately show ?thesis
    by (simp add: server_ok_def serving_def example_no_connections)
      (simp add: example_serverw_def isInLoopThread_def)
qed

lemma serving_owned: "owned_conns 8 serving = {20}"
  by (simp add: owned_conns_def serving_def example_no_connections)

text \<open>C22: connections that close, in any order: \<open>removeConnectionInLoop\<close> finds each of them (its
  assertion holds), forgets it, and leaves \<open>connectionDestroyed\<close> pending in a loop for exactly the
  connections that closed; the other connections stay.\<close>

theorem server_gives_up_connections:
  assumes "server_ok s w" and "distinct xs" and "set xs \<subseteq> owned_conns s w"
  shows "\<exists>w'. foldR (removeConnectionInLoop s) xs w = Inr w' \<and> server_ok s w' \<and>
    owned_conns s w' = owned_conns s w - set xs \<and> doomed w' = doomed w \<union> set xs"
  by (rule owner.release_all [OF assms])

theorem server_gives_up_connections_witness:
  "\<exists>w'. foldR (removeConnectionInLoop 8) [20] serving = Inr w' \<and> owned_conns 8 w' = {} \<and> 20 \<in> doomed w'"
  using server_gives_up_connections [OF serving_ok, of "[20]"] by (auto simp: serving_owned)

text \<open>C23: the pool hands out its loops in turn: the \<open>i\<close>-th call gives the loop at the position the
  counter has now plus \<open>i\<close>, modulo the number of loops, and the loop of the pool's owner when the
  pool has none. Over as many calls as there are loops every one is given out exactly once.\<close>

theorem loops_in_turn:
  assumes "pool_ok p" and "loops w (tp_base p) \<noteq> None" and "isInLoopThread (tp_base p) w"
  shows "next_loops n p w = Inr (map (loop_in_turn p) [0..<n], turned n p)"
  using assms
proof (induction n arbitrary: p)
  case 0
  then show ?case by (simp add: turned_0)
next
  case (Suc n)
  have "next_loops n (turned 1 p) w = Inr (map (loop_in_turn (turned 1 p)) [0..<n], turned n (turned 1 p))"
    using Suc.prems by (intro Suc.IH) (simp_all add: pool_ok_turned)
  moreover have "map (loop_in_turn p) [0..<Suc n] = loop_in_turn p 0 # map (loop_in_turn (turned 1 p)) [0..<n]"
    using loop_in_turn_turned [OF Suc.prems(1)] by (simp add: map_upt_Suc del: upt_Suc)
  ultimately show ?case
    using getNextLoop_turn [OF Suc.prems] turned_turned [OF Suc.prems(1), of n] by (simp del: upt_Suc)
qed

theorem loops_in_turn_witness:
  "next_loops 3 (ts_pool (example_server [4, 7])) (example_serverw [4, 7]) =
   Inr ([4, 7, 4], (ts_pool (example_server [4, 7]))\<lparr>tp_next := 1\<rparr>)"
proof -
  let ?p = "ts_pool (example_server [4, 7])"
  have "pool_ok ?p" "tp_base ?p = 0" by (simp_all add: example_server_def pool_ok_def)
  then show ?thesis
    using loops_in_turn [of ?p "example_serverw [4, 7]" 3]
    by (simp add: loop_in_turn_def turned_def example_server_def upt_rec numeral_2_eq_2 [symmetric])
qed

end
