(* ===== verification/Tcp_Client.thy ===== *)
theory Tcp_Client
  imports Tcp_Server
begin

text \<open>
  \<^verbatim>\<open>net/Connector.cc\<close> and \<^verbatim>\<open>net/TcpClient.cc\<close>: the connector makes a socket, waits until it is
  writable and hands it on, or tries again later with a growing delay; the client makes the one
  connection out of it. Addresses of new channels (\<open>ch\<close>), timers (\<open>p\<close>) and connections (\<open>a\<close>) are
  arguments.
\<close>

section \<open>State\<close>

datatype connector_state = KDisConnected | KConnectedC | KConnectingC

record connector =
  co_loop :: nat
  co_state :: connector_state
  co_serverAddr :: inet_address
  co_channel :: "nat option"
  co_newConnection :: "nat option"
  co_retryDelayMs :: int

record tcp_client =
  cl_loop :: nat
  cl_connector :: nat
  cl_name :: string
  cl_messageCb :: "nat option"
  cl_writeCompleteCb :: "nat option"
  cl_connectionCb :: "nat option"
  cl_connect :: bool
  cl_retry :: bool
  cl_nextConnId :: int
  cl_connection :: "nat option"

record clientw = serverw +
  connectors :: "nat \<Rightarrow> connector option"
  clients :: "nat \<Rightarrow> tcp_client option"

definition co_get :: "nat \<Rightarrow> 'z clientw_scheme \<Rightarrow> connector res" where
  "co_get c w = (case connectors w c of None \<Rightarrow> Inl UndefinedBehaviour | Some x \<Rightarrow> Inr x)"

definition co_mod :: "nat \<Rightarrow> (connector \<Rightarrow> connector) \<Rightarrow> 'z clientw_scheme \<Rightarrow> 'z clientw_scheme" where
  "co_mod c f w = w\<lparr>connectors := (connectors w)(c := map_option f (connectors w c))\<rparr>"

definition cl_get :: "nat \<Rightarrow> 'z clientw_scheme \<Rightarrow> tcp_client res" where
  "cl_get k w = (case clients w k of None \<Rightarrow> Inl UndefinedBehaviour | Some x \<Rightarrow> Inr x)"

definition cl_mod :: "nat \<Rightarrow> (tcp_client \<Rightarrow> tcp_client) \<Rightarrow> 'z clientw_scheme \<Rightarrow> 'z clientw_scheme" where
  "cl_mod k f w = w\<lparr>clients := (clients w)(k := map_option f (clients w k))\<rparr>"

section \<open>The connector\<close>

definition kMaxRetryDelayMs :: int where "kMaxRetryDelayMs = 30 * 1000"

definition kInitRetryDelayMs :: int where "kInitRetryDelayMs = 500"

definition new_connector :: "nat \<Rightarrow> inet_address \<Rightarrow> connector" where
  "new_connector l addr = \<lparr>co_loop = l, co_state = KDisConnected, co_serverAddr = addr, co_channel = None,
     co_newConnection = None, co_retryDelayMs = kInitRetryDelayMs\<rparr>"

definition co_setState :: "connector_state \<Rightarrow> connector \<Rightarrow> connector" where
  "co_setState s x = x\<lparr>co_state := s\<rparr>"

definition co_setNewConnectionCallback :: "nat option \<Rightarrow> connector \<Rightarrow> connector" where
  "co_setNewConnectionCallback cb x = x\<lparr>co_newConnection := cb\<rparr>"

definition co_retry :: "nat \<Rightarrow> nat \<Rightarrow> int \<Rightarrow> 'z clientw_scheme \<Rightarrow> 'z clientw_scheme res" where
  "co_retry c p sockfd w = bindR (co_get c w) (\<lambda>x. bindR (sk_close sockfd w) (\<lambda>w1.
     bindR (runAfter (co_loop x) p (double_div (of_int (co_retryDelayMs x)) 1000) (FnConnectorStart c)
              (co_mod c (co_setState KDisConnected) w1)) (\<lambda>(_, w2).
       Inr (co_mod c (\<lambda>x. x\<lparr>co_retryDelayMs := min (co_retryDelayMs x * 2) kMaxRetryDelayMs\<rparr>) w2))))"

definition connecting :: "nat \<Rightarrow> nat \<Rightarrow> int \<Rightarrow> 'z clientw_scheme \<Rightarrow> 'z clientw_scheme res" where
  "connecting c ch sockfd w = bindR (co_get c w) (\<lambda>x.
     let w1 = co_mod c (co_setState KConnectingC) w
     in assertR (co_channel x = None)
          (let channel = setErrorCallback (Some (CbConnectorError c))
                 (setWriteCallback (Some (CbConnectorWrite c)) (new_channel (co_loop x) sockfd))
           in enableWriting ch (ch_put ch channel (co_mod c (\<lambda>x. x\<lparr>co_channel := Some ch\<rparr>) w1))))"

definition connect_progress :: "int set" where
  "connect_progress = {0, EINPROGRESS, EINTR, EISCONN}"

definition connect_retry :: "int set" where
  "connect_retry = {EAGAIN, EADDRINUSE, EADDRNOTAVAIL, ECONNREFUSED, ENETUNREACH}"

text \<open>The remaining cases of the \<open>switch\<close>, \<open>default\<close> included, log and close the socket.\<close>

definition startInLoop :: "nat \<Rightarrow> nat \<Rightarrow> nat \<Rightarrow> 'z clientw_scheme \<Rightarrow> 'z clientw_scheme res" where
  "startInLoop c ch p w = bindR (co_get c w) (\<lambda>x. in_loop (co_loop x) w
     (assertR (co_state x = KDisConnected)
       (bindR (createNonblockingOrDie w) (\<lambda>(sockfd, w1).
          let (r, w2) = sk_connect sockfd (co_serverAddr x) w1;
              savedErrno = (if kret r = 0 then 0 else kerrno r)
          in if savedErrno \<in> connect_progress then connecting c ch sockfd w2
             else if savedErrno \<in> connect_retry then co_retry c p sockfd w2
             else sk_close sockfd w2))))"

definition co_start :: "nat \<Rightarrow> nat \<Rightarrow> nat \<Rightarrow> 'z clientw_scheme \<Rightarrow> 'z clientw_scheme res" where
  "co_start c ch p w = bindR (co_get c w) (\<lambda>x.
     runInLoop (co_loop x) (FnConnectorStart c) (startInLoop c ch p) w)"

definition co_restart :: "nat \<Rightarrow> nat \<Rightarrow> nat \<Rightarrow> 'z clientw_scheme \<Rightarrow> 'z clientw_scheme res" where
  "co_restart c ch p w = bindR (co_get c w) (\<lambda>_. startInLoop c ch p
     (co_mod c (\<lambda>x. (co_setState KDisConnected x)\<lparr>co_retryDelayMs := kInitRetryDelayMs\<rparr>) w))"

definition removeAndResetChannel :: "nat \<Rightarrow> 'z clientw_scheme \<Rightarrow> (int \<times> 'z clientw_scheme) res" where
  "removeAndResetChannel c w = bindR (co_get c w) (\<lambda>x.
     case co_channel x of
       None \<Rightarrow> Inl UndefinedBehaviour
     | Some ch \<Rightarrow> bindR (disableAll ch w) (\<lambda>w1. bindR (ch_get ch w1) (\<lambda>channel.
         bindR (el_removeChannel (co_loop x) ch w1) (\<lambda>w2.
         bindR (queueInLoop (co_loop x) (FnConnectorReset c) w2) (\<lambda>w3. Inr (ch_fd channel, w3))))))"

definition resetChannel :: "nat \<Rightarrow> 'z clientw_scheme \<Rightarrow> 'z clientw_scheme res" where
  "resetChannel c w = bindR (co_get c w) (\<lambda>x.
     let w1 = co_mod c (\<lambda>x. x\<lparr>co_channel := None\<rparr>) w
     in case co_channel x of None \<Rightarrow> Inr w1 | Some ch \<Rightarrow> delete_channel ch w1)"

text \<open>\<open>arrived k fd\<close> is the effect of the callback, \<open>TcpClient::newConnection\<close> of the client \<open>k\<close>.\<close>

definition co_handleWrite ::
  "(nat \<Rightarrow> int \<Rightarrow> 'z clientw_scheme \<Rightarrow> 'z clientw_scheme res) \<Rightarrow> nat \<Rightarrow> nat \<Rightarrow>
   'z clientw_scheme \<Rightarrow> 'z clientw_scheme res" where
  "co_handleWrite arrived c p w = bindR (co_get c w) (\<lambda>x.
     if co_state x = KConnectingC
     then bindR (removeAndResetChannel c w) (\<lambda>(sockfd, w1).
            let (self, w2) = isSelfConnect sockfd w1
            in if self then co_retry c p sockfd w2
               else let w3 = co_mod c (co_setState KConnectedC) w2
                    in bindR (co_get c w3) (\<lambda>x3. call_hook (co_newConnection x3) (\<lambda>k. arrived k sockfd w3)))
     else assertR (co_state x = KDisConnected) (Inr w))"

definition co_handleError :: "nat \<Rightarrow> nat \<Rightarrow> 'z clientw_scheme \<Rightarrow> 'z clientw_scheme res" where
  "co_handleError c p w = bindR (co_get c w) (\<lambda>x. assertR (co_state x = KConnectingC)
     (bindR (removeAndResetChannel c w) (\<lambda>(sockfd, w1).
        co_retry c p sockfd (snd (getSocketError sockfd w1)))))"

text \<open>\<open>~Connector()\<close>.\<close>

definition delete_connector :: "nat \<Rightarrow> 'z clientw_scheme \<Rightarrow> 'z clientw_scheme res" where
  "delete_connector c w = bindR (co_get c w) (\<lambda>x. assertR (co_channel x = None)
     (Inr (w\<lparr>connectors := (connectors w)(c := None)\<rparr>)))"

section \<open>The client\<close>

text \<open>The default callbacks only log; their number is 0.\<close>

definition default_cb :: nat where "default_cb = 0"

definition new_client :: "nat \<Rightarrow> nat \<Rightarrow> nat \<Rightarrow> inet_address \<Rightarrow> string \<Rightarrow> 'z clientw_scheme \<Rightarrow> 'z clientw_scheme" where
  "new_client k c l addr name w =
     w\<lparr>connectors := (connectors w)(c \<mapsto> co_setNewConnectionCallback (Some k) (new_connector l addr)),
       clients := (clients w)(k \<mapsto> \<lparr>cl_loop = l, cl_connector = c, cl_name = name, cl_messageCb = Some default_cb,
         cl_writeCompleteCb = None, cl_connectionCb = Some default_cb, cl_connect = True, cl_retry = False,
         cl_nextConnId = 1, cl_connection = None\<rparr>)\<rparr>"

definition cl_setMessageCallback :: "nat option \<Rightarrow> tcp_client \<Rightarrow> tcp_client" where
  "cl_setMessageCallback cb x = x\<lparr>cl_messageCb := cb\<rparr>"

definition cl_setConnectionCallback :: "nat option \<Rightarrow> tcp_client \<Rightarrow> tcp_client" where
  "cl_setConnectionCallback cb x = x\<lparr>cl_connectionCb := cb\<rparr>"

definition cl_setWriteCompleteCallback :: "nat option \<Rightarrow> tcp_client \<Rightarrow> tcp_client" where
  "cl_setWriteCompleteCallback cb x = x\<lparr>cl_writeCompleteCb := cb\<rparr>"

definition enableRetry :: "tcp_client \<Rightarrow> tcp_client" where
  "enableRetry x = x\<lparr>cl_retry := True\<rparr>"

definition client_connect :: "nat \<Rightarrow> nat \<Rightarrow> nat \<Rightarrow> 'z clientw_scheme \<Rightarrow> 'z clientw_scheme res" where
  "client_connect k ch p w = bindR (cl_get k w) (\<lambda>x.
     co_start (cl_connector x) ch p (cl_mod k (\<lambda>x. x\<lparr>cl_connect := True\<rparr>) w))"

definition client_disconnect :: "nat \<Rightarrow> 'z clientw_scheme \<Rightarrow> 'z clientw_scheme res" where
  "client_disconnect k w = bindR (cl_get k w) (\<lambda>x.
     let w1 = cl_mod k (\<lambda>x. x\<lparr>cl_connect := False\<rparr>) w
     in case cl_connection x of None \<Rightarrow> Inr w1 | Some a \<Rightarrow> tc_shutdown a w1)"

definition client_conn_name :: "tcp_client \<Rightarrow> inet_address \<Rightarrow> string" where
  "client_conn_name x peer = cl_name x @ snprintf 32 (inet_toHostPort peer @ ''#'' @ decimal_int (cl_nextConnId x))"

definition cl_newConnection ::
  "'z clientw_ext serverw_scheme hooks \<Rightarrow> nat \<Rightarrow> nat \<Rightarrow> nat \<Rightarrow> int \<Rightarrow> 'z clientw_scheme \<Rightarrow> 'z clientw_scheme res" where
  "cl_newConnection hk a ch k sockfd w = bindR (cl_get k w) (\<lambda>x. in_loop (cl_loop x) w
     (let (peerAddr, w1) = getPeerAddr sockfd w;
          connName = client_conn_name x peerAddr
      in if cl_nextConnId x \<ge> 2 ^ 31 - 1 then Inl UndefinedBehaviour
         else
           let w2 = cl_mod k (\<lambda>x. x\<lparr>cl_nextConnId := cl_nextConnId x + 1\<rparr>) w1;
               (localAddr, w3) = getLocalAddr sockfd w2;
               w4 = new_connection a ch (cl_loop x) connName sockfd peerAddr localAddr w3;
               w5 = tc_mod a (setCloseCallback_conn (Some (CloseClient k)))
                      (tc_mod a (setConnectionCallback (cl_connectionCb x))
                        (tc_mod a (setWriteCompleteCallback (cl_writeCompleteCb x))
                          (tc_mod a (setMessageCallback (cl_messageCb x)) w4)))
           in connectionEstablished hk a (cl_mod k (\<lambda>x. x\<lparr>cl_connection := Some a\<rparr>) w5)))"

definition cl_removeConnection :: "nat \<Rightarrow> nat \<Rightarrow> nat \<Rightarrow> nat \<Rightarrow> 'z clientw_scheme \<Rightarrow> 'z clientw_scheme res" where
  "cl_removeConnection k ch p a w = bindR (cl_get k w) (\<lambda>x. in_loop (cl_loop x) w
     (assertR (cl_connection x = Some a)
       (bindR (queueInLoop (cl_loop x) (FnConnDestroyed a) (cl_mod k (\<lambda>x. x\<lparr>cl_connection := None\<rparr>) w)) (\<lambda>w1.
          if cl_retry x \<and> cl_connect x then co_restart (cl_connector x) ch p w1 else Inr w1))))"

section \<open>Trying again\<close>

lemma clientw_fields [simp]:
  "connectors (co_mod c f w) = (connectors w)(c := map_option f (connectors w c))" "clients (co_mod c f w) = clients w"
  "clients (cl_mod k g w) = (clients w)(k := map_option g (clients w k))" "connectors (cl_mod k g w) = connectors w"
  "chans (co_mod c f w) = chans w" "loops (co_mod c f w) = loops w" "kernel (co_mod c f w) = kernel w"
  "sysLog (co_mod c f w) = sysLog w" "isInLoopThread l (co_mod c f w) = isInLoopThread l w"
  "chans (cl_mod k g w) = chans w" "loops (cl_mod k g w) = loops w" "kernel (cl_mod k g w) = kernel w"
  "sysLog (cl_mod k g w) = sysLog w" "isInLoopThread l (cl_mod k g w) = isInLoopThread l w"
  "connectors (snd (sys call w)) = connectors w" "clients (snd (sys call w)) = clients w"
  "tqs (co_mod c f w) = tqs w" "timers (co_mod c f w) = timers w" "conns (co_mod c f w) = conns w"
  "conns (cl_mod k g w) = conns w" "tqs (cl_mod k g w) = tqs w" "timers (cl_mod k g w) = timers w"
  by (simp_all add: co_mod_def cl_mod_def sys_def isInLoopThread_def)

text \<open>The delays a connector goes through.\<close>

definition retry_delays :: "int set" where
  "retry_delays = {500, 1000, 2000, 4000, 8000, 16000, 30000}"

lemma half_second: "double_div (of_int 500) 1000 = 1 / 2"
  by code_simp

lemma whole_seconds: "0 \<le> n \<Longrightarrow> n < 2 ^ 53 \<Longrightarrow> double_div (of_int (1000 * n)) 1000 = of_int n"
  using double_round_int [of n] by (simp add: double_div_def)

lemma retry_delay_exact:
  assumes "d \<in> retry_delays"
  shows "of_int kMicroSecondPerSecond * double_div (of_int d) 1000 = (of_int (1000 * d) :: rat)"
proof -
  consider "d = 500" | n where "d = 1000 * n" "0 \<le> n" "n < 2 ^ 53"
  proof -
    have "d = 500 \<or> d mod 1000 = 0 \<and> 0 \<le> d \<and> d \<le> 30000" using assms by (auto simp: retry_delays_def)
    then have "d = 500 \<or> d = 1000 * (d div 1000) \<and> 0 \<le> d div 1000 \<and> d div 1000 \<le> 30" by auto
    then show ?thesis using that by fastforce
  qed
  then show ?thesis
    by cases (use half_second whole_seconds in \<open>simp_all add: kMicroSecondPerSecond_def\<close>)
qed

lemma retry_delays_closed: "d \<in> retry_delays \<Longrightarrow> min (d * 2) kMaxRetryDelayMs \<in> retry_delays"
  by (auto simp: retry_delays_def kMaxRetryDelayMs_def)

lemma timers_ready_alike:
  assumes "timers_ready l p a q w" and "loops v = loops w" and "isInLoopThread l v = isInLoopThread l w"
    and "tqs v = tqs w" and "timers v = timers w" and "kernel v = kernel w"
  shows "timers_ready l p a q v"
  using assms tq_ok_timers [OF assms(5)] unfolding timers_ready_def by metis

lemma clientw_more: "timerw.more w' = timerw.more w \<Longrightarrow> conns w' = conns w \<and> servers w' = servers w \<and>
    acceptors w' = acceptors w \<and> connectors w' = connectors w \<and> clients w' = clients w"
  for w w' :: "'z clientw_scheme"
  by (cases w; cases w') auto

text \<open>
  \<open>retry\<close>: the socket is closed and the next attempt is due exactly after the delay; the delay
  doubles up to 30 seconds.
\<close>

lemma co_retry_ok:
  assumes x: "connectors w c = Some x" and d: "co_retryDelayMs x \<in> retry_delays"
    and ready: "timers_ready (co_loop x) p a q w" and close: "0 \<le> kret (kernel w (sysLog w) (SysClose fd))"
    and now: "clock (snd (sys (SysClose fd) w)) = now" "now < 2 ^ 62"
  shows "\<exists>w'. co_retry c p fd w = Inr w' \<and>
    connectors w' c = Some (x\<lparr>co_state := KDisConnected, co_retryDelayMs := min (co_retryDelayMs x * 2) kMaxRetryDelayMs\<rparr>) \<and>
    has_timer a q p (FnConnectorStart c) (now + 1000 * co_retryDelayMs x) w' \<and> loops w' = loops w \<and> chans w' = chans w \<and>
    conns w' = conns w \<and> clients w' = clients w \<and> curTid w' = curTid w \<and> threadOf w' = threadOf w"
proof -
  let ?w1 = "snd (sys (SysClose fd) w)"
  let ?v = "co_mod c (co_setState KDisConnected) ?w1"
  let ?d = "co_retryDelayMs x"
  have ready': "timers_ready (co_loop x) p a q ?v" by (rule timers_ready_alike [OF ready]) simp_all
  have clk: "clock ?v = now" using now(1) by (simp add: clock_def ts_now_def sys_def co_mod_def)
  have n: "0 \<le> 1000 * ?d" "1000 * ?d < 2 ^ 53" using d by (auto simp: retry_delays_def)
  have "clock ?v < 2 ^ 62" using clk now(2) by simp
  from runAfter_ok [OF ready' retry_delay_exact [OF d] n this, of "FnConnectorStart c"] obtain i w' where
    w': "runAfter (co_loop x) p (double_div (of_int ?d) 1000) (FnConnectorStart c) ?v = Inr (i, w')"
    "has_timer a q p (FnConnectorStart c) (now + 1000 * ?d) w'" "timerw.more w' = timerw.more ?v" "loops w' = loops ?v"
    "chans w' = chans ?v" "curTid w' = curTid ?v" "threadOf w' = threadOf ?v"
    unfolding clk by blast
  let ?u = "co_mod c (\<lambda>x. x\<lparr>co_retryDelayMs := min (co_retryDelayMs x * 2) kMaxRetryDelayMs\<rparr>) w'"
  have "co_retry c p fd w = Inr ?u"
    using x close w'(1) by (simp add: co_retry_def co_get_def sk_close_def sys_def Let_def)
  moreover have "has_timer a q p (FnConnectorStart c) (now + 1000 * ?d) ?u"
    using w'(2) tq_ok_timers [of ?u w'] by (simp add: has_timer_def)
  ultimately show ?thesis
    using x w'(4-7) clientw_more [OF w'(3)]
    by (intro exI [of _ ?u]) (simp add: co_setState_def, simp add: co_mod_def sys_def)
qed

section \<open>System calls that change nothing else\<close>

definition only_calls :: "'z kworld_scheme \<Rightarrow> 'z kworld_scheme \<Rightarrow> bool" where
  "only_calls w w' \<longleftrightarrow> (\<exists>calls. w' = w\<lparr>sysLog := sysLog w @ calls\<rparr> \<and> list_all harmless calls)"

lemma only_calls_sys: "harmless call \<Longrightarrow> only_calls w (snd (sys call w))"
  by (auto simp: only_calls_def sys_def)

lemma only_calls_trans: "only_calls u v \<Longrightarrow> only_calls v w \<Longrightarrow> only_calls u w"
  by (auto simp: only_calls_def)

lemma only_calls_fields:
  "only_calls w w' \<Longrightarrow> kernel w' = kernel w \<and> chans w' = chans w \<and> loops w' = loops w \<and> threadLoop w' = threadLoop w \<and>
     isInLoopThread l w' = isInLoopThread l w \<and> registered l w' = registered l w"
  for w w' :: "'z reactor_scheme"
  by (auto simp: only_calls_def isInLoopThread_def registered_def)

lemma only_calls_clientw:
  "only_calls w w' \<Longrightarrow> tqs w' = tqs w \<and> timers w' = timers w \<and> conns w' = conns w \<and> servers w' = servers w \<and>
     connectors w' = connectors w \<and> clients w' = clients w"
  for w w' :: "'z clientw_scheme"
  by (auto simp: only_calls_def)

lemma only_calls_loop_ok: "only_calls w w' \<Longrightarrow> loop_ok l w \<Longrightarrow> loop_ok l w'"
proof -
  assume o: "only_calls w w'" and "loop_ok l w"
  then obtain e calls where e: "loops w l = Some e" "po_ok l (el_poller e) w" "w' = w\<lparr>sysLog := sysLog w @ calls\<rparr>"
    "list_all harmless calls" by (auto simp: only_calls_def loop_ok_def)
  then have "po_ok l (el_poller e) w'" by (intro po_ok_log [OF e(2) _ _ _ e(4)]) (simp_all add: isInLoopThread_def)
  with e show ?thesis by (simp add: loop_ok_def)
qed

lemma setNonBlock_calls: "only_calls w (setNonBlockAndCloseOnExec fd w)"
  by (auto simp: setNonBlockAndCloseOnExec_def only_calls_def sys_def Let_def)

text \<open>A socket is made and the connection requested.\<close>

definition requested :: "int \<Rightarrow> inet_address \<Rightarrow> 'z kworld_scheme \<Rightarrow> kres \<times> 'z kworld_scheme" where
  "requested fd addr w = sk_connect fd addr (setNonBlockAndCloseOnExec fd (snd (sys SysSocket w)))"

lemma requested_calls: "only_calls w (snd (requested fd addr w))"
proof -
  have "only_calls w (snd (sys SysSocket w))" by (rule only_calls_sys) simp
  moreover have "only_calls u (snd (sk_connect fd addr u))" for u :: "'a kworld_scheme"
    unfolding sk_connect_def by (rule only_calls_sys) simp
  ultimately show ?thesis unfolding requested_def by (blast intro: only_calls_trans setNonBlock_calls)
qed

lemma startInLoop_unfold:
  assumes "connectors w c = Some x" and "loops w (co_loop x) \<noteq> None" and "isInLoopThread (co_loop x) w"
    and "co_state x = KDisConnected" and "kret (kernel w (sysLog w) SysSocket) = fd" and "0 \<le> fd"
    and "requested fd (co_serverAddr x) w = (r, w2)" and "err = (if kret r = 0 then 0 else kerrno r)"
  shows "startInLoop c ch p w = (if err \<in> connect_progress then connecting c ch fd w2
    else if err \<in> connect_retry then co_retry c p fd w2 else sk_close fd w2)"
proof -
  let ?w1 = "setNonBlockAndCloseOnExec fd (snd (sys SysSocket w))"
  have sys: "sys SysSocket w = (kernel w (sysLog w) SysSocket, snd (sys SysSocket w))" by (simp add: sys_def)
  have "createNonblockingOrDie w = Inr (fd, ?w1)"
    unfolding createNonblockingOrDie_def by (subst sys) (use assms(5,6) in \<open>simp add: Let_def\<close>)
  moreover have "sk_connect fd (co_serverAddr x) ?w1 = (r, w2)" using assms(7) by (simp add: requested_def)
  ultimately show ?thesis
    using assms(1-4,8) by (simp add: startInLoop_def co_get_def in_loop_thread Let_def)
qed

section \<open>Waiting for the connection\<close>

lemma connecting_ok:
  assumes x: "connectors w c = Some x" "co_channel x = None" and ok: "loop_ok (co_loop x) w"
    and fresh: "ch \<notin> ran (registered (co_loop x) w)" and fd: "valid_fd fd" "registered (co_loop x) w fd = None"
  shows "\<exists>w' chan. connecting c ch fd w = Inr w' \<and> loop_ok (co_loop x) w' \<and>
    connectors w' c = Some (x\<lparr>co_state := KConnectingC, co_channel := Some ch\<rparr>) \<and>
    registered (co_loop x) w' = (registered (co_loop x) w)(fd \<mapsto> ch) \<and> chans w' ch = Some chan \<and> isWriting chan \<and>
    ch_fd chan = fd \<and> ch_loop chan = co_loop x \<and> ch_write chan = Some (CbConnectorWrite c) \<and>
    ch_error chan = Some (CbConnectorError c) \<and> clients w' = clients w"
proof -
  let ?l = "co_loop x"
  define chan where "chan = setErrorCallback (Some (CbConnectorError c))
    (setWriteCallback (Some (CbConnectorWrite c)) (new_channel ?l fd))"
  have f: "ch_loop chan = ?l" "ch_fd chan = fd" "ch_index chan = -1" "ch_events chan = kNoneEvent"
    "ch_write chan = Some (CbConnectorWrite c)" "ch_error chan = Some (CbConnectorError c)"
    by (simp_all add: chan_def setErrorCallback_def setWriteCallback_def new_channel_def kNoneEvent_def)
  define w1 where "w1 = co_mod c (\<lambda>x. x\<lparr>co_channel := Some ch\<rparr>) (co_mod c (co_setState KConnectingC) w)"
  have w1: "chans w1 = chans w" "loops w1 = loops w" "registered ?l w1 = registered ?l w" "clients w1 = clients w"
    "connectors w1 c = Some (x\<lparr>co_state := KConnectingC, co_channel := Some ch\<rparr>)"
    using x(1) by (simp_all add: w1_def registered_def co_setState_def)
  have "loop_ok ?l w1" using ok by (rule loop_ok_alike) (simp_all add: w1_def)
  with fresh fd w1(3) obtain e where e: "loops w1 ?l = Some e" "po_ok ?l (el_poller e) w1"
    "ch \<notin> ran (po_channels (el_poller e))" "po_channels (el_poller e) fd = None"
    by (auto simp: loop_ok_def registered_def)
  let ?v = "ch_put ch chan w1"
  have "loop_ok ?l ?v" using e po_put_other by (auto simp: loop_ok_def)
  moreover have "usable ?l ch ?v" using e fd(1) f by (simp add: usable_def po.admissible_def)
  moreover have "chans ?v ch = Some chan" by simp
  ultimately obtain w' chan' where
    u: "ch_update ch (ch_put ch (chan\<lparr>ch_events := ch_events chan OR kWriteEvent\<rparr>) ?v) = Inr w'" "loop_ok ?l w'"
    "same_but_index (chan\<lparr>ch_events := ch_events chan OR kWriteEvent\<rparr>) chan'" "chans w' = (chans ?v)(ch \<mapsto> chan')"
    "registered ?l w' = (registered ?l ?v)(ch_fd chan \<mapsto> ch)" "rest_same ?l ?v w'"
    using change_events_ok [of ?l ?v ch chan "ch_events chan OR kWriteEvent"] by blast
  have "connecting c ch fd w = enableWriting ch ?v"
    using x by (simp add: connecting_def co_get_def Let_def chan_def w1_def)
  also have "\<dots> = Inr w'" using u(1) by (simp add: enableWriting_def ch_get_def ev_enableWriting_def)
  finally have run: "connecting c ch fd w = Inr w'" .
  have "connectors w' = connectors ?v \<and> clients w' = clients ?v"
    using u(6) by (cases w'; cases ?v) (auto simp: rest_same_def)
  then have "connectors w' = connectors w1" "clients w' = clients w1" by (simp_all add: ch_put_def)
  moreover have "isWriting chan'" using u(3) f(4) by (auto simp: same_but_index_def isWriting_def poll_bits)
  moreover have "registered ?l ?v = registered ?l w1" by (simp add: registered_def)
  ultimately show ?thesis
    using run u(2-5) w1 f by (intro exI [of _ w'] exI [of _ chan']) (auto simp: same_but_index_def)
qed

section \<open>The connector gives its channel up\<close>

lemma loop_ok_queued:
  assumes "loop_ok l w" and "list_all harmless calls"
  shows "loop_ok l (queued k fns calls w)"
proof -
  from assms(1) obtain e where e: "loops w l = Some e" "po_ok l (el_poller e) w" by (auto simp: loop_ok_def)
  have "po_ok l (el_poller e) (queued k fns calls w)"
    by (rule po_ok_log [OF e(2) _ _ _ assms(2)]) (simp_all add: queued_def isInLoopThread_def el_mod_def)
  with e(1) show ?thesis by (cases "l = k") (simp_all add: loop_ok_def)
qed

lemma registered_queued [simp]: "registered l (queued k fns calls w) = registered l w"
  by (auto simp: registered_def fun_eq_iff split: option.splits)

lemma rest_same_clientw: "rest_same l w w' \<Longrightarrow> connectors w' = connectors w \<and> clients w' = clients w \<and>
    conns w' = conns w \<and> servers w' = servers w \<and> kernel w' = kernel w \<and> (\<forall>k. isInLoopThread k w' = isInLoopThread k w)"
  by (cases w; cases w') (auto simp: rest_same_def isInLoopThread_def)

lemma queued_clientw [simp]:
  "connectors (queued l fns calls w) = connectors w" "clients (queued l fns calls w) = clients w"
  by (simp_all add: queued_def el_mod_def)

lemma loop_ok_loops: "loop_ok l w \<Longrightarrow> loops w l \<noteq> None"
  by (auto simp: loop_ok_def)

lemma timers_ready_kept:
  "rest_same l w w' \<Longrightarrow> timers_ready l p a q w \<Longrightarrow> timers_ready l p a q w'" for w w' :: "'z clientw_scheme"
proof -
  assume r: "rest_same l w w'" and t: "timers_ready l p a q w"
  then have "tqs w' = tqs w" "timers w' = timers w" by (cases w; cases w'; auto simp: rest_same_def)+
  then show ?thesis
    using r t rest_same_clientw [OF r] tq_ok_timers [of w' w]
    by (auto simp: timers_ready_def rest_same_def set_poller_def)
qed

lemma timers_ready_queued: "timers_ready l p a q w \<Longrightarrow> timers_ready l p a q (queued k fns calls w)"
  for w :: "'z clientw_scheme"
proof -
  assume t: "timers_ready l p a q w"
  have f: "tqs (queued k fns calls w) = tqs w" "timers (queued k fns calls w) = timers w"
    "kernel (queued k fns calls w) = kernel w" by (simp_all add: queued_def el_mod_def)
  then show ?thesis
    using t tq_ok_timers [OF f(2)] by (cases "l = k") (auto simp: timers_ready_def)
qed

lemma chans_queued [simp]: "chans (queued k fns calls w) = chans w" "kernel (queued k fns calls w) = kernel w"
  by (simp_all add: queued_def el_mod_def)

lemma removeAndResetChannel_ok:
  assumes x: "connectors w c = Some x" "co_channel x = Some ch" and att: "attached (co_loop x) ch w"
    and chan: "chans w ch = Some chan"
  shows "\<exists>w'. removeAndResetChannel c w = Inr (ch_fd chan, w') \<and> loop_ok (co_loop x) w' \<and>
    registered (co_loop x) w' = (registered (co_loop x) w)(ch_fd chan := None) \<and> connectors w' = connectors w \<and>
    clients w' = clients w \<and> conns w' = conns w \<and> kernel w' = kernel w \<and>
    FnConnectorReset c \<in> set (pending (co_loop x) w') \<and> chans w' ch = Some (ev_disableAll chan) \<and>
    (\<forall>p a q. timers_ready (co_loop x) p a q w \<longrightarrow> timers_ready (co_loop x) p a q w')"
proof -
  let ?l = "co_loop x"
  from disableAll_parks [OF att chan] obtain w1 where
    w1: "disableAll ch w = Inr w1" "parked_at ?l ch w1" "rest_same ?l w w1" "chans w1 = (chans w)(ch \<mapsto> ev_disableAll chan)"
    "registered ?l w1 = registered ?l w" by blast
  have ch1: "chans w1 ch = Some (ev_disableAll chan)" "ch_fd (ev_disableAll chan) = ch_fd chan"
    using w1(4) by (simp_all add: ev_disableAll_def)
  from parked_removed [OF w1(2) ch1(1)] obtain w2 where
    w2: "el_removeChannel ?l ch w1 = Inr w2" "loop_ok ?l w2" "registered ?l w2 = (registered ?l w1)(ch_fd chan := None)"
    "rest_same ?l w1 w2" "chans w2 ch = Some (ev_disableAll chan)" using ch1(2) by auto
  define calls where "calls = (if isInLoopThread ?l w2 \<and> calling ?l w2 then [wake_call ?l w2] else [])"
  let ?w' = "queued ?l [FnConnectorReset c] calls w2"
  have "list_all harmless calls" using loop_ok_loops [OF w2(2)] by (auto simp: calls_def wake_call_def)
  moreover have "removeAndResetChannel c w = Inr (ch_fd chan, ?w')"
    using x w1(1) ch1 w2(1) loop_ok_loops [OF w2(2)]
    by (simp add: removeAndResetChannel_def co_get_def ch_get_def queueInLoop_eq calls_def)
  moreover have "FnConnectorReset c \<in> set (pending ?l ?w')" using loop_ok_loops [OF w2(2)] by simp
  moreover have "\<forall>p a q. timers_ready ?l p a q w \<longrightarrow> timers_ready ?l p a q ?w'"
    using timers_ready_kept [OF w1(3)] timers_ready_kept [OF w2(4)] timers_ready_queued by blast
  ultimately show ?thesis
    using w1(5) w2(2,3,5) rest_same_clientw [OF w1(3)] rest_same_clientw [OF w2(4)] loop_ok_queued [OF w2(2)]
    by (intro exI [of _ ?w']) simp
qed

section \<open>The client's connection\<close>

definition client_conn :: "nat \<Rightarrow> tcp_client \<Rightarrow> nat \<Rightarrow> int \<Rightarrow> inet_address \<Rightarrow> inet_address \<Rightarrow> tcp_connection" where
  "client_conn k x ch sockfd peerAddr localAddr = \<lparr>tc_state = KConnecting, tc_loop = cl_loop x,
     tc_name = client_conn_name x peerAddr, tc_socket = sockfd, tc_channel = ch,
     tc_peerAddr = peerAddr, tc_localAddr = localAddr, tc_input = new_buffer, tc_output = new_buffer,
     tc_connectionCb = cl_connectionCb x, tc_messageCb = cl_messageCb x,
     tc_writeCompleteCb = cl_writeCompleteCb x, tc_closeCb = Some (CloseClient k), tc_context = None\<rparr>"

definition client_set_up :: "nat \<Rightarrow> tcp_client \<Rightarrow> nat \<Rightarrow> nat \<Rightarrow> int \<Rightarrow> 'z clientw_scheme \<Rightarrow> 'z clientw_scheme" where
  "client_set_up k x a ch sockfd w = (let (peer, w1) = getPeerAddr sockfd w;
       (local, w3) = getLocalAddr sockfd (cl_mod k (\<lambda>x. x\<lparr>cl_nextConnId := cl_nextConnId x + 1\<rparr>) w1)
     in cl_mod k (\<lambda>x. x\<lparr>cl_connection := Some a\<rparr>)
          ((ch_put ch (conn_channel a (cl_loop x) sockfd) w3)
             \<lparr>conns := (conns w)(a \<mapsto> client_conn k x ch sockfd peer local)\<rparr>))"

lemma cl_newConnection_unfold:
  assumes "clients w k = Some x" and "loops w (cl_loop x) \<noteq> None" and "isInLoopThread (cl_loop x) w"
    and "cl_nextConnId x < 2 ^ 31 - 1"
  shows "cl_newConnection hk a ch k sockfd w = connectionEstablished hk a (client_set_up k x a ch sockfd w)"
  using assms
  by (simp add: cl_newConnection_def cl_get_def in_loop_thread client_set_up_def Let_def split_beta new_connection_def
      conn_channel_def client_conn_def tc_mod_def setCloseCallback_conn_def setWriteCompleteCallback_def
      setMessageCallback_def setConnectionCallback_def getPeerAddr_def getLocalAddr_def)

lemma registered_chans [simp]:
  "registered l (ch_put ch x w) = registered l w" "registered l (cl_mod k f v) = registered l v"
  "registered l (co_mod c g v) = registered l v" "registered l (v\<lparr>conns := cs\<rparr>) = registered l v"
  for v :: "'z clientw_scheme"
  by (simp_all add: registered_def)

lemma client_set_up_ok:
  fixes w :: "'z clientw_scheme"
  assumes "loop_ok (cl_loop y) w" and "ch \<notin> ran (registered (cl_loop y) w)" and "valid_fd fd"
    and "registered (cl_loop y) w fd = None" and "clients w k = Some y"
  shows "loop_ok (cl_loop y) (client_set_up k y a ch fd w)" "usable (cl_loop y) ch (client_set_up k y a ch fd w)"
    "registered (cl_loop y) (client_set_up k y a ch fd w) = registered (cl_loop y) w"
    "clients (client_set_up k y a ch fd w) k = Some (y\<lparr>cl_nextConnId := cl_nextConnId y + 1, cl_connection := Some a\<rparr>)"
    "connectors (client_set_up k y a ch fd w) = connectors w" "loops (client_set_up k y a ch fd w) = loops w"
    "\<exists>peer local. conns (client_set_up k y a ch fd w) = (conns w)(a \<mapsto> client_conn k y ch fd peer local)"
    "chans (client_set_up k y a ch fd w) ch = Some (conn_channel a (cl_loop y) fd)"
proof -
  let ?l = "cl_loop y"
  define peer where "peer = fst (getPeerAddr fd w)"
  define w1 where "w1 = cl_mod k (\<lambda>x. x\<lparr>cl_nextConnId := cl_nextConnId x + 1\<rparr>) (snd (getPeerAddr fd w))"
  define w3 where "w3 = snd (getLocalAddr fd w1)"
  have w1: "w1 = cl_mod k (\<lambda>x. x\<lparr>cl_nextConnId := cl_nextConnId x + 1\<rparr>) (snd (sys (SysGetpeername fd) w))"
    by (simp add: w1_def getPeerAddr_def split_beta Let_def)
  have w3: "w3 = snd (sys (SysGetsockname fd) w1)" by (simp add: w3_def getLocalAddr_def split_beta Let_def)
  define v where "v = ch_put ch (conn_channel a ?l fd) w3"
  have u: "client_set_up k y a ch fd w = cl_mod k (\<lambda>x. x\<lparr>cl_connection := Some a\<rparr>)
      (v\<lparr>conns := (conns w)(a \<mapsto> client_conn k y ch fd peer (fst (getLocalAddr fd w1)))\<rparr>)"
    by (simp add: client_set_up_def split_beta Let_def peer_def w1_def w3_def v_def)
  have "loop_ok ?l (snd (sys (SysGetpeername fd) w))" using assms(1) loop_ok_sys [of ?l w "SysGetpeername fd"] by simp
  then have "loop_ok ?l w1" unfolding w1 by (rule loop_ok_alike) simp_all
  then have l3: "loop_ok ?l w3" unfolding w3 using loop_ok_sys [of ?l w1 "SysGetsockname fd"] by simp
  have r3: "registered ?l w3 = registered ?l w" by (simp add: w3 w1 registered_def)
  note t = taken_usable [OF l3, of ch fd a, folded v_def, unfolded r3, OF assms(2-4)]
  show "loop_ok ?l (client_set_up k y a ch fd w)" unfolding u using t(1) by (rule loop_ok_alike) (simp_all add: isInLoopThread_def cl_mod_def)
  show "usable ?l ch (client_set_up k y a ch fd w)" using t(2) unfolding u usable_def by simp
  show "registered ?l (client_set_up k y a ch fd w) = registered ?l w" by (simp add: u v_def r3)
  show "clients (client_set_up k y a ch fd w) k = Some (y\<lparr>cl_nextConnId := cl_nextConnId y + 1, cl_connection := Some a\<rparr>)"
    using assms(5) by (simp add: u v_def w3 w1 ch_put_def)
  show "connectors (client_set_up k y a ch fd w) = connectors w" "loops (client_set_up k y a ch fd w) = loops w"
    by (simp_all add: u v_def w3 w1 ch_put_def)
  show "\<exists>peer local. conns (client_set_up k y a ch fd w) = (conns w)(a \<mapsto> client_conn k y ch fd peer local)"
    by (auto simp: u)
  show "chans (client_set_up k y a ch fd w) ch = Some (conn_channel a ?l fd)" by (simp add: u v_def)
qed

text \<open>\<open>handleWrite\<close> of the connector up to \<open>connectionEstablished\<close>.\<close>

lemma rest_same_pending: "rest_same l w w' \<Longrightarrow> pending l w' = pending l w"
  by (auto simp: rest_same_def pending_def set_poller_def split: option.splits)

lemma established_kept:
  fixes w :: "'z clientw_scheme"
  assumes "rest_same l (tc_mod a f w) w'"
  shows "connectors w' = connectors w" "clients w' = clients w" "pending l w' = pending l w"
  using rest_same_clientw [OF assms] rest_same_pending [OF assms] by (simp_all add: tc_mod_def pending_def)

lemma isSelfConnect_calls: "only_calls w (snd (isSelfConnect fd w))"
proof -
  have "only_calls w (snd (getLocalAddr fd w))" "\<And>v. only_calls v (snd (getPeerAddr fd v))"
    by (auto simp: getLocalAddr_def getPeerAddr_def split_beta Let_def intro!: only_calls_sys)
  then show ?thesis by (auto simp: isSelfConnect_def split_beta Let_def intro: only_calls_trans)
qed

section \<open>The client gives its connection up\<close>

definition client_ok :: "nat \<Rightarrow> 'z clientw_scheme \<Rightarrow> bool" where
  "client_ok k w \<longleftrightarrow> (\<exists>y. clients w k = Some y \<and> loops w (cl_loop y) \<noteq> None \<and> isInLoopThread (cl_loop y) w \<and>
     \<not> (cl_retry y \<and> cl_connect y))"

definition client_owns :: "nat \<Rightarrow> 'z clientw_scheme \<Rightarrow> nat set" where
  "client_owns k w = (case clients w k of None \<Rightarrow> {} | Some y \<Rightarrow> set_option (cl_connection y))"

lemma cl_removeConnection_ok:
  assumes "client_ok k w" and "a \<in> client_owns k w"
  shows "\<exists>w'. cl_removeConnection k ch p a w = Inr w' \<and> client_ok k w' \<and> client_owns k w' = client_owns k w - {a} \<and>
    doomed w' = insert a (doomed w)"
proof -
  from assms obtain y where y: "clients w k = Some y" "loops w (cl_loop y) \<noteq> None" "isInLoopThread (cl_loop y) w"
    "\<not> (cl_retry y \<and> cl_connect y)" "cl_connection y = Some a" by (auto simp: client_ok_def client_owns_def)
  let ?l = "cl_loop y" and ?v = "cl_mod k (\<lambda>x. x\<lparr>cl_connection := None\<rparr>) w"
  let ?calls = "if isInLoopThread ?l ?v \<and> calling ?l ?v then [wake_call ?l ?v] else []"
  let ?w' = "queued ?l [FnConnDestroyed a] ?calls ?v"
  have "cl_removeConnection k ch p a w = Inr ?w'"
    using y by (auto simp: cl_removeConnection_def cl_get_def in_loop_thread queueInLoop_eq)
  moreover have "client_ok k ?w'" using y(1-4) unfolding client_ok_def by simp
  moreover have "client_owns k ?w' = client_owns k w - {a}" using y(1,5) by (simp add: client_owns_def)
  moreover have "doomed ?v = doomed w" by (simp add: doomed_def pending_def)
  then have "doomed ?w' = insert a (doomed w)" using y(2) by (simp add: doomed_queued)
  ultimately show ?thesis by blast
qed

interpretation client_owner: conn_owner "client_ok k" "client_owns k" "cl_removeConnection k ch p" for k ch p
  by unfold_locales (rule cl_removeConnection_ok)

section \<open>Properties\<close>

text \<open>
  A kernel whose \<open>connect\<close> fails with a given error, a loop at address 0, a connector at address 6
  and its client at address 7; the connector's channel, when it waits for socket 5, is at address 1.
\<close>

definition client_kernel :: "int \<Rightarrow> syscall list \<Rightarrow> syscall \<Rightarrow> kres" where
  "client_kernel err calls call = (case call of
     SysSocket \<Rightarrow> ret 5
   | SysConnect fd port addr \<Rightarrow> (ret (-1))\<lparr>kerrno := err\<rparr>
   | SysGetpeername fd \<Rightarrow> (ret 0)\<lparr>kport := 80\<rparr>
   | _ \<Rightarrow> ret 0)"

definition idle_queue :: timer_queue where
  "idle_queue = \<lparr>tq_loop = 0, tq_timerfd = 8, tq_channel = 2, tq_timers = [], tq_active = [],
     tq_doing = False, tq_cancel = [], tq_end = (0, 0), tq_end_active = (0, 0)\<rparr>"

definition example_client :: tcp_client where
  "example_client = \<lparr>cl_loop = 0, cl_connector = 6, cl_name = ''C'', cl_messageCb = Some 2, cl_writeCompleteCb = None,
     cl_connectionCb = Some 1, cl_connect = True, cl_retry = False, cl_nextConnId = 1, cl_connection = None\<rparr>"

definition example_clientw :: "int \<Rightarrow> poller_obj \<Rightarrow> (nat \<Rightarrow> channel option) \<Rightarrow> connector \<Rightarrow> clientw" where
  "example_clientw err po chs x = \<lparr>kernel = client_kernel err, sysLog = [], curTid = 1, threadOf = (\<lambda>_. 1),
     chans = chs, loops = [0 \<mapsto> set_poller po (example_eventloop [])], threadLoop = [1 \<mapsto> 0],
     tqs = [3 \<mapsto> idle_queue], timers = (\<lambda>_. None), numCreated = 0, conns = (\<lambda>_. None),
     acceptors = (\<lambda>_. None), servers = (\<lambda>_. None), connectors = [6 \<mapsto> x], clients = [7 \<mapsto> example_client]\<rparr>"

abbreviation starting :: "int \<Rightarrow> clientw" where
  "starting err \<equiv> example_clientw err (PollObj pp_new) (\<lambda>_. None) (co_setNewConnectionCallback (Some 7) (new_connector 0 zero_address))"

definition waiting_connector :: connector where
  "waiting_connector = \<lparr>co_loop = 0, co_state = KConnectingC, co_serverAddr = zero_address, co_channel = Some 1,
     co_newConnection = Some 7, co_retryDelayMs = 4000\<rparr>"

definition waiting_channel :: channel where
  "waiting_channel = (new_channel 0 5)\<lparr>ch_events := kWriteEvent, ch_index := 0\<rparr>"

abbreviation waiting :: clientw where
  "waiting \<equiv> example_clientw 0 (PollObj \<lparr>pollfds = [\<lparr>pfd_fd = 5, pfd_events = 4, pfd_revents = 0\<rparr>], pp_channels = [5 \<mapsto> 1]\<rparr>)
     [1 \<mapsto> waiting_channel] waiting_connector"

lemma example_clientw_fields [simp]:
  "kernel (example_clientw err po chs x) = client_kernel err" "sysLog (example_clientw err po chs x) = []"
  "isInLoopThread l (example_clientw err po chs x)" "chans (example_clientw err po chs x) = chs"
  "loops (example_clientw err po chs x) = [0 \<mapsto> set_poller po (example_eventloop [])]"
  "connectors (example_clientw err po chs x) = [6 \<mapsto> x]" "clients (example_clientw err po chs x) = [7 \<mapsto> example_client]"
  "registered 0 (example_clientw err po chs x) = po_channels po"
  "conns (example_clientw err po chs x) = (\<lambda>_. None)"
  by (simp_all add: example_clientw_def isInLoopThread_def registered_def set_poller_def)

lemma client_clock: "kernel w = client_kernel err \<Longrightarrow> clock w = 0" for w :: clientw
  by (simp add: clock_def ts_now_def sys_def client_kernel_def ret_def ts_of_timeval_def int64_def kMicroSecondPerSecond_def)

lemma client_timers_ready: "timers_ready 0 40 3 idle_queue (example_clientw err po chs x)"
proof -
  have "tq_ok idle_queue (example_clientw err po chs x)" by (simp add: tq_ok_def idle_queue_def entries_ok_def)
  moreover have "sane_clock (client_kernel err)"
    by (simp add: sane_clock_def client_kernel_def ret_def ts_of_timeval_def int64_def kMicroSecondPerSecond_def)
  moreover have "tqs (example_clientw err po chs x) = [3 \<mapsto> idle_queue]" by (simp add: example_clientw_def)
  ultimately show ?thesis
    by (simp add: timers_ready_def set_poller_def example_eventloop_def UINTPTR_MAX_def) (simp add: idle_queue_def)
qed

lemma starting_loop_ok: "loop_ok 0 (starting err)"
  by (simp add: loop_ok_def set_poller_def pp_ok_def pp_new_def keys_def)

lemma waiting_attached: "attached 0 1 waiting"
  by (simp add: attached_def set_poller_def pp_ok_def keys_def pfd_key_def valid_fd_def owned_def waiting_channel_def
      new_channel_def kWriteEvent_def)


text \<open>C24: one attempt of a connector to connect. While the connection is in progress the connector
  waits, in the state \<open>kConnecting\<close>, for its new channel to become writable; on an error that may
  pass it closes the socket and has a timer start it again exactly its delay later, and the delay
  doubles up to 30 seconds; on any other error it closes the socket and nothing is scheduled.\<close>

theorem connect_attempt:
  assumes "connectors w c = Some x" and "co_state x = KDisConnected" and "co_channel x = None"
    and "co_retryDelayMs x \<in> retry_delays" and "loop_ok (co_loop x) w" and "timers_ready (co_loop x) p a q w"
    and "ch \<notin> ran (registered (co_loop x) w)" and "kret (kernel w (sysLog w) SysSocket) = fd"
    and "valid_fd fd" and "registered (co_loop x) w fd = None"
    and "requested fd (co_serverAddr x) w = (r, v)" and "err = (if kret r = 0 then 0 else kerrno r)"
    and "\<And>calls. 0 \<le> kret (kernel w calls (SysClose fd))"
    and "clock (snd (sys (SysClose fd) v)) = now" and "now < 2 ^ 62"
  shows "\<exists>w'. startInLoop c ch p w = Inr w' \<and>
    (if err \<in> connect_progress then
       connectors w' c = Some (x\<lparr>co_state := KConnectingC, co_channel := Some ch\<rparr>) \<and>
       registered (co_loop x) w' = (registered (co_loop x) w)(fd \<mapsto> ch) \<and>
       (\<exists>chan. chans w' ch = Some chan \<and> isWriting chan \<and> ch_fd chan = fd \<and>
          ch_write chan = Some (CbConnectorWrite c) \<and> ch_error chan = Some (CbConnectorError c))
     else if err \<in> connect_retry then
       connectors w' c = Some (x\<lparr>co_retryDelayMs := min (co_retryDelayMs x * 2) kMaxRetryDelayMs\<rparr>) \<and>
       has_timer a q p (FnConnectorStart c) (now + 1000 * co_retryDelayMs x) w' \<and>
       registered (co_loop x) w' = registered (co_loop x) w
     else connectors w' = connectors w \<and> timers w' = timers w \<and> loops w' = loops w)"
proof -
  have o: "only_calls w v" using requested_calls [of w fd "co_serverAddr x"] assms(11) by simp
  note v = only_calls_fields [OF o] only_calls_clientw [OF o]
  have run: "startInLoop c ch p w = (if err \<in> connect_progress then connecting c ch fd v
    else if err \<in> connect_retry then co_retry c p fd v else sk_close fd v)"
    using assms(9) loop_ok_thread [OF assms(5)] loop_ok_loops [OF assms(5)]
    by (intro startInLoop_unfold [OF assms(1) _ _ assms(2,8) _ assms(11,12)]) (simp_all add: valid_fd_def)
  consider "err \<in> connect_progress" | "err \<notin> connect_progress" "err \<in> connect_retry"
    | "err \<notin> connect_progress" "err \<notin> connect_retry" by blast
  then show ?thesis
  proof cases
    case 1
    have "\<exists>w' chan. connecting c ch fd v = Inr w' \<and> loop_ok (co_loop x) w' \<and>
      connectors w' c = Some (x\<lparr>co_state := KConnectingC, co_channel := Some ch\<rparr>) \<and>
      registered (co_loop x) w' = (registered (co_loop x) v)(fd \<mapsto> ch) \<and> chans w' ch = Some chan \<and> isWriting chan \<and>
      ch_fd chan = fd \<and> ch_loop chan = co_loop x \<and> ch_write chan = Some (CbConnectorWrite c) \<and>
      ch_error chan = Some (CbConnectorError c) \<and> clients w' = clients v"
      using assms(1,3,7,9,10) only_calls_loop_ok [OF o assms(5)] v by (intro connecting_ok) simp_all
    then show ?thesis using 1 run v by fastforce
  next
    case 2
    have "timers_ready (co_loop x) p a q v" by (rule timers_ready_alike [OF assms(6)]) (use v in simp_all)
    then have "\<exists>w'. co_retry c p fd v = Inr w' \<and>
      connectors w' c = Some (x\<lparr>co_state := KDisConnected, co_retryDelayMs := min (co_retryDelayMs x * 2) kMaxRetryDelayMs\<rparr>) \<and>
      has_timer a q p (FnConnectorStart c) (now + 1000 * co_retryDelayMs x) w' \<and> loops w' = loops v \<and> chans w' = chans v \<and>
      conns w' = conns v \<and> clients w' = clients v \<and> curTid w' = curTid v \<and> threadOf w' = threadOf v"
      using assms(1,4,13-15) v by (intro co_retry_ok) simp_all
    moreover have "x\<lparr>co_state := KDisConnected\<rparr> = x" using assms(2) by simp
    ultimately show ?thesis using 2 run v by (auto simp: registered_def)
  next
    case 3
    have "\<not> kret (kernel v (sysLog v) (SysClose fd)) < 0" using assms(13) [of "sysLog v"] v by simp
    with 3 have "startInLoop c ch p w = Inr (snd (sys (SysClose fd) v))"
      using run by (simp add: sk_close_def sys_def Let_def)
    then show ?thesis using 3 v by simp
  qed
qed

theorem connect_attempt_witness:
  "\<exists>w' t. startInLoop 6 1 40 (starting ECONNREFUSED) = Inr w' \<and> map_option co_retryDelayMs (connectors w' 6) = Some 1000 \<and>
     timers w' 40 = Some t \<and> tm_expiration t = 500000 \<and> tm_callback t = FnConnectorStart 6"
proof -
  let ?w = "starting ECONNREFUSED" and ?x = "co_setNewConnectionCallback (Some 7) (new_connector 0 zero_address)"
  define v where "v = snd (requested 5 zero_address ?w)"
  define r where "r = fst (requested 5 zero_address ?w)"
  have o: "only_calls ?w v" unfolding v_def by (rule requested_calls)
  have r: "r = (ret (-1))\<lparr>kerrno := ECONNREFUSED\<rparr>"
    using only_calls_fields [OF setNonBlock_calls [of "snd (sys SysSocket ?w)" 5]]
    by (simp add: r_def requested_def sk_connect_def sys_def client_kernel_def)
  have "clock (snd (sys (SysClose 5) v)) = 0" using only_calls_fields [OF o] by (intro client_clock) simp
  moreover have "err \<in> connect_retry" "err \<notin> connect_progress" if "err = ECONNREFUSED" for err
    using that by (simp_all add: connect_retry_def connect_progress_def ECONNREFUSED_def EINPROGRESS_def EINTR_def EISCONN_def)
  ultimately show ?thesis
    using connect_attempt [of ?w 6 ?x 40 3 idle_queue 1 5 r v ECONNREFUSED 0] client_timers_ready starting_loop_ok r
    by (auto simp: has_timer_def v_def r_def client_kernel_def ret_def valid_fd_def pp_new_def new_connector_def
        co_setNewConnectionCallback_def kInitRetryDelayMs_def retry_delays_def kMaxRetryDelayMs_def)
qed

text \<open>C25: the channel of a connector that waits for its connection reports an error, and then, in the
  same round, that it is writable. \<open>handleError\<close> takes the channel out of the poller, closes the
  socket and has a timer start the connector again after its delay, and \<open>handleWrite\<close> then does
  nothing: no connection is made and there is one timer, not two. A second error fails the
  assertion of \<open>handleError\<close>.\<close>

theorem connect_error_retries_once:
  fixes w :: "'z clientw_scheme"
  assumes "connectors w c = Some x" and "co_state x = KConnectingC" and "co_channel x = Some ch"
    and "attached (co_loop x) ch w" and "chans w ch = Some chan"
    and "co_retryDelayMs x \<in> retry_delays" and "timers_ready (co_loop x) p a q w"
    and "\<And>calls. 0 \<le> kret (kernel w calls (SysClose (ch_fd chan)))"
    and "\<And>v :: 'z clientw_scheme. kernel v = kernel w \<Longrightarrow> clock v < 2 ^ 62"
  shows "\<exists>w1 w2. removeAndResetChannel c w = Inr (ch_fd chan, w1) \<and>
    registered (co_loop x) w1 = (registered (co_loop x) w)(ch_fd chan := None) \<and> co_handleError c p w = Inr w2 \<and>
    connectors w2 c = Some (x\<lparr>co_state := KDisConnected, co_retryDelayMs := min (co_retryDelayMs x * 2) kMaxRetryDelayMs\<rparr>) \<and>
    has_timer a q p (FnConnectorStart c)
      (clock (snd (sys (SysClose (ch_fd chan)) (snd (getSocketError (ch_fd chan) w1)))) + 1000 * co_retryDelayMs x) w2 \<and>
    FnConnectorReset c \<in> set (pending (co_loop x) w2) \<and> conns w2 = conns w \<and>
    co_handleWrite arrived c p' w2 = Inr w2 \<and> co_handleError c p' w2 = Inl AssertFail"
proof -
  from removeAndResetChannel_ok [OF assms(1,3-5)] assms(7) obtain w1 where
    w1: "removeAndResetChannel c w = Inr (ch_fd chan, w1)" "connectors w1 c = Some x" "kernel w1 = kernel w" "conns w1 = conns w"
    "registered (co_loop x) w1 = (registered (co_loop x) w)(ch_fd chan := None)" "timers_ready (co_loop x) p a q w1"
    "FnConnectorReset c \<in> set (pending (co_loop x) w1)" using assms(1) by auto
  let ?v = "snd (getSocketError (ch_fd chan) w1)"
  let ?u = "snd (sys (SysClose (ch_fd chan)) ?v)"
  have v: "?v = snd (sys (SysGetSoError (ch_fd chan)) w1)" by (simp add: getSocketError_def split_beta Let_def)
  have "timers_ready (co_loop x) p a q ?v" by (rule timers_ready_alike [OF w1(6)]) (simp_all add: v)
  moreover have "clock ?u < 2 ^ 62" by (rule assms(9)) (simp add: v w1(3))
  moreover have "0 \<le> kret (kernel ?v (sysLog ?v) (SysClose (ch_fd chan)))" using assms(8) by (simp add: v w1(3))
  moreover have "connectors ?v c = Some x" by (simp add: v w1(2))
  ultimately obtain w2 where w2: "co_retry c p (ch_fd chan) ?v = Inr w2"
    "connectors w2 c = Some (x\<lparr>co_state := KDisConnected, co_retryDelayMs := min (co_retryDelayMs x * 2) kMaxRetryDelayMs\<rparr>)"
    "has_timer a q p (FnConnectorStart c) (clock ?u + 1000 * co_retryDelayMs x) w2" "loops w2 = loops ?v" "conns w2 = conns ?v"
    using co_retry_ok [of ?v c x p a q "ch_fd chan" "clock ?u"] assms(6) by blast
  have "co_handleError c p w = Inr w2"
    using assms(1,2) w1(1) w2(1) by (simp add: co_handleError_def co_get_def)
  moreover have "co_handleWrite arrived c p' w2 = Inr w2" "co_handleError c p' w2 = Inl AssertFail"
    using w2(2) by (simp_all add: co_handleWrite_def co_handleError_def co_get_def)
  moreover have "pending (co_loop x) w2 = pending (co_loop x) w1" using w2(4) by (simp add: pending_def v)
  ultimately show ?thesis
    using w1 w2 by (intro exI [of _ w1] exI [of _ w2]) (simp add: v)
qed

theorem connect_error_retries_once_witness:
  "\<exists>w2 t. co_handleError 6 40 waiting = Inr w2 \<and> timers w2 40 = Some t \<and> tm_expiration t = 4000000 \<and>
     map_option co_retryDelayMs (connectors w2 6) = Some 8000 \<and> co_handleWrite (\<lambda>_ _. Inr) 6 41 w2 = Inr w2"
proof -
  have "\<And>v :: clientw. kernel v = kernel waiting \<Longrightarrow> clock v = 0" by (rule client_clock) simp
  moreover obtain w1 where "removeAndResetChannel 6 waiting = Inr (5, w1)" "kernel w1 = kernel waiting"
    using removeAndResetChannel_ok [of waiting 6 waiting_connector 1 waiting_channel] waiting_attached
    by (auto simp: waiting_connector_def waiting_channel_def new_channel_def)
  ultimately show ?thesis
    using connect_error_retries_once [of waiting 6 waiting_connector 1 waiting_channel 40 3 idle_queue "\<lambda>_ _. Inr" 41]
      client_timers_ready waiting_attached
    by (auto simp: has_timer_def waiting_connector_def waiting_channel_def new_channel_def client_kernel_def ret_def
        retry_delays_def kMaxRetryDelayMs_def getSocketError_def split_beta Let_def)
qed

text \<open>C26: the socket of a connector becomes writable and is not connected to itself. Before anything
  else the connector's channel leaves the poller and its deletion is put off, so that the
  connection's channel takes over the descriptor in the same round; the client has a new, connected
  connection over that socket, with the client's callbacks and its own close callback, which waits
  for input, and then the user's connection callback runs.\<close>

theorem client_connected:
  fixes w :: "'z clientw_scheme"
  assumes "connectors w c = Some x" and "co_state x = KConnectingC" and "co_channel x = Some ch"
    and "co_newConnection x = Some k" and "attached (co_loop x) ch w" and "chans w ch = Some chan"
    and "clients w k = Some y" and "cl_loop y = co_loop x" and "cl_nextConnId y < 2 ^ 31 - 1"
    and "ch' \<notin> ran (registered (co_loop x) w)" and "valid_fd (ch_fd chan)"
    and "\<And>v :: 'z clientw_scheme. kernel v = kernel w \<Longrightarrow> \<not> fst (isSelfConnect (ch_fd chan) v)"
  shows "\<exists>w' conn. co_handleWrite (cl_newConnection hk a ch') c p w =
      (case cl_connectionCb y of None \<Rightarrow> Inr w' | Some cb \<Rightarrow> on_connection hk cb a w') \<and>
    connectors w' c = Some (x\<lparr>co_state := KConnectedC\<rparr>) \<and>
    clients w' k = Some (y\<lparr>cl_nextConnId := cl_nextConnId y + 1, cl_connection := Some a\<rparr>) \<and>
    loop_ok (co_loop x) w' \<and> registered (co_loop x) w' = (registered (co_loop x) w)(ch_fd chan \<mapsto> ch') \<and>
    FnConnectorReset c \<in> set (pending (co_loop x) w') \<and>
    conns w' = (conns w)(a \<mapsto> conn) \<and> tc_state conn = KConnected \<and> tc_socket conn = ch_fd chan \<and>
    tc_channel conn = ch' \<and> tc_messageCb conn = cl_messageCb y \<and> tc_closeCb conn = Some (CloseClient k) \<and>
    (\<exists>chan'. chans w' ch' = Some chan' \<and> ch_events chan' AND kReadEvent = kReadEvent)"
proof -
  let ?l = "co_loop x" and ?fd = "ch_fd chan"
  from removeAndResetChannel_ok [OF assms(1,3,5,6)] obtain w1 where
    w1: "removeAndResetChannel c w = Inr (?fd, w1)" "loop_ok ?l w1" "registered ?l w1 = (registered ?l w)(?fd := None)"
    "connectors w1 = connectors w" "clients w1 = clients w" "conns w1 = conns w" "kernel w1 = kernel w"
    "FnConnectorReset c \<in> set (pending ?l w1)" by blast
  define w2 where "w2 = snd (isSelfConnect ?fd w1)"
  have o: "only_calls w1 w2" unfolding w2_def by (rule isSelfConnect_calls)
  note f2 = only_calls_fields [OF o] only_calls_clientw [OF o]
  define w3 where "w3 = co_mod c (co_setState KConnectedC) w2"
  have l3: "loop_ok ?l w3" using only_calls_loop_ok [OF o w1(2)] unfolding w3_def by (rule loop_ok_alike) simp_all
  have r3: "registered ?l w3 = (registered ?l w)(?fd := None)" by (simp add: w3_def f2 w1(3))
  have k3: "clients w3 k = Some y" using assms(7) by (simp add: w3_def f2 w1(5))
  with l3 r3 have s: "loop_ok ?l (client_set_up k y a ch' ?fd w3)" "usable ?l ch' (client_set_up k y a ch' ?fd w3)"
      "registered ?l (client_set_up k y a ch' ?fd w3) = registered ?l w3"
      "clients (client_set_up k y a ch' ?fd w3) k = Some (y\<lparr>cl_nextConnId := cl_nextConnId y + 1, cl_connection := Some a\<rparr>)"
      "connectors (client_set_up k y a ch' ?fd w3) = connectors w3" "loops (client_set_up k y a ch' ?fd w3) = loops w3"
      "\<exists>peer local. conns (client_set_up k y a ch' ?fd w3) = (conns w3)(a \<mapsto> client_conn k y ch' ?fd peer local)"
      "chans (client_set_up k y a ch' ?fd w3) ch' = Some (conn_channel a ?l ?fd)"
    using client_set_up_ok [of y w3 ch' ?fd k a] assms(8,10,11) by (auto simp: ran_def)
  let ?v = "client_set_up k y a ch' ?fd w3"
  from s(7) obtain peer local where conn: "conns ?v = (conns w3)(a \<mapsto> client_conn k y ch' ?fd peer local)" by blast
  let ?c = "client_conn k y ch' ?fd peer local"
  have c: "tc_loop ?c = ?l" "tc_channel ?c = ch'" "tc_state ?c = KConnecting" "tc_connectionCb ?c = cl_connectionCb y"
    using assms(8) by (simp_all add: client_conn_def)
  have "conns ?v a = Some ?c" by (simp add: conn)
  from connectionEstablished_ok [of ?c ?v a hk, unfolded c, OF s(1) this s(2) refl] obtain w' chan' where
    w': "connectionEstablished hk a ?v = (case cl_connectionCb y of None \<Rightarrow> Inr w' | Some cb \<Rightarrow> on_connection hk cb a w')"
    "conns w' = (conns ?v)(a \<mapsto> setState KConnected ?c)" "loop_ok ?l w'" "chans w' ch' = Some chan'"
    "ch_events chan' AND kReadEvent = kReadEvent" "registered ?l w' = (registered ?l ?v)(ch_fd chan' \<mapsto> ch')"
    "rest_same ?l (tc_mod a (setState KConnected) ?v) w'" "ch_fd chan' = ch_fd (conn_channel a ?l ?fd)"
    using s(8) by blast
  have "co_handleWrite (cl_newConnection hk a ch') c p w = cl_newConnection hk a ch' k ?fd w3"
    using assms(1,2,4,12) w1(1,4,7) f2
    by (simp add: co_handleWrite_def co_get_def split_beta Let_def call_hook_def co_setState_def w3_def w2_def)
  also have "\<dots> = connectionEstablished hk a ?v"
    using loop_ok_loops [OF l3] loop_ok_thread [OF l3] assms(8,9) by (intro cl_newConnection_unfold [OF k3]) simp_all
  finally have run: "co_handleWrite (cl_newConnection hk a ch') c p w =
    (case cl_connectionCb y of None \<Rightarrow> Inr w' | Some cb \<Rightarrow> on_connection hk cb a w')" using w'(1) by simp
  have "connectors w' c = Some (x\<lparr>co_state := KConnectedC\<rparr>)"
    using established_kept(1) [OF w'(7)] s(5) assms(1) f2 w1(4) by (simp add: w3_def co_setState_def)
  moreover have "pending ?l w' = pending ?l w1"
    using established_kept(3) [OF w'(7)] s(6) f2 by (simp add: pending_def w3_def)
  moreover have "registered ?l w' = (registered ?l w)(?fd \<mapsto> ch')"
    using w'(6,8) s(3) r3 by simp
  moreover have "conns w' = (conns w)(a \<mapsto> setState KConnected ?c)"
    using w'(2) conn f2 w1(6) by (simp add: w3_def)
  moreover have "clients w' = clients ?v" by (rule established_kept(2) [OF w'(7)])
  ultimately show ?thesis
    using run w'(3-5) s(4) w1(8)
    by (intro exI [of _ w'] exI [of _ "setState KConnected ?c"]) (simp add: setState_def client_conn_def)
qed

theorem client_connected_witness:
  "\<exists>w' conn. co_handleWrite (cl_newConnection quiet_hooks 20 9) 6 40 waiting = Inr w' \<and> conns w' = [20 \<mapsto> conn] \<and>
     tc_state conn = KConnected \<and> tc_socket conn = 5 \<and> registered 0 w' = [5 \<mapsto> 9]"
proof -
  have "\<not> fst (isSelfConnect 5 v)" if "kernel v = client_kernel 0" for v :: clientw
    using that by (simp add: isSelfConnect_def getLocalAddr_def getPeerAddr_def sys_def client_kernel_def ret_def Let_def)
  then show ?thesis
    using client_connected [of waiting 6 waiting_connector 1 7 waiting_channel example_client 9 quiet_hooks 20 40] waiting_attached
    by (auto simp: waiting_connector_def waiting_channel_def new_channel_def example_client_def valid_fd_def quiet_hooks_def)
qed

end
