(* ===== verification/Hub.thy ===== *)
theory Hub
  imports Tcp_Delivery Tcp_Client Codec "HOL-Library.Char_ord" "HOL-Library.List_Lexorder"
begin

text \<open>
  \<^verbatim>\<open>net/hub/hub.cc\<close>: the message hub. A topic keeps its last message and the connections that
  subscribed to it; the hub keeps the topics and carries out the commands that come in. A
  connection stands for its \<open>shared_ptr\<close>, and connections are numbered in the order of these in a
  \<open>std::set\<close>; strings are ordered as \<open>std::string\<close> orders them.
\<close>

section \<open>Topics\<close>

record topic =
  to_topic :: string
  to_lastPubTime :: timestamp
  to_content :: string
  to_audiences :: "nat set"

definition new_topic :: "string \<Rightarrow> topic" where
  "new_topic topic = \<lparr>to_topic = topic, to_lastPubTime = ts_invalid, to_content = [], to_audiences = {}\<rparr>"

definition makeMessage :: "topic \<Rightarrow> string" where
  "makeMessage t = ''pub '' @ to_topic t @ kCRLF @ to_content t @ kCRLF"

definition topic_add :: "nat \<Rightarrow> topic \<Rightarrow> 'z netw_scheme \<Rightarrow> (topic \<times> 'z netw_scheme) res" where
  "topic_add a t w = (let t' = t\<lparr>to_audiences := insert a (to_audiences t)\<rparr>
     in if ts_valid (to_lastPubTime t') then bindR (tc_send a (makeMessage t') w) (\<lambda>w'. Inr (t', w'))
        else Inr (t', w))"

definition topic_remove :: "nat \<Rightarrow> topic \<Rightarrow> topic" where
  "topic_remove a t = t\<lparr>to_audiences := to_audiences t - {a}\<rparr>"

definition topic_publish :: "string \<Rightarrow> timestamp \<Rightarrow> topic \<Rightarrow> 'z netw_scheme \<Rightarrow> (topic \<times> 'z netw_scheme) res" where
  "topic_publish content timestamp t w =
     (let t' = t\<lparr>to_content := content, to_lastPubTime := timestamp\<rparr>; message = makeMessage t'
      in bindR (foldR (\<lambda>a. tc_send a message) (sorted_list_of_set (to_audiences t')) w) (\<lambda>w'. Inr (t', w')))"

section \<open>The hub\<close>

record hub =
  hb_loop :: nat
  hb_server :: nat
  hb_topics :: "string \<Rightarrow> topic option"

record hubw = clientw +
  hubs :: "nat \<Rightarrow> hub option"

definition hb_get :: "nat \<Rightarrow> 'z hubw_scheme \<Rightarrow> hub res" where
  "hb_get h w = (case hubs w h of None \<Rightarrow> Inl UndefinedBehaviour | Some x \<Rightarrow> Inr x)"

definition hb_put :: "nat \<Rightarrow> hub \<Rightarrow> 'z hubw_scheme \<Rightarrow> 'z hubw_scheme" where
  "hb_put h x w = w\<lparr>hubs := (hubs w)(h \<mapsto> x)\<rparr>"

text \<open>\<open>cc\<close> and \<open>mc\<close> are the numbers of the two callbacks, \<open>onConnection\<close> and \<open>onMessage\<close> of this hub.\<close>

definition new_hub ::
  "nat \<Rightarrow> nat \<Rightarrow> nat \<Rightarrow> nat \<Rightarrow> nat \<Rightarrow> nat \<Rightarrow> nat \<Rightarrow> inet_address \<Rightarrow> 'z hubw_scheme \<Rightarrow> 'z hubw_scheme res" where
  "new_hub h s ac ch cc mc l addr w = bindR (new_server s ac ch l addr ''HubServer'' w) (\<lambda>w1. bindR (ts_get s w1) (\<lambda>x.
     Inr (hb_put h \<lparr>hb_loop = l, hb_server = s, hb_topics = (\<lambda>_. None)\<rparr>
       (ts_put s (ts_setMessageCallback (Some mc) (ts_setConnectionCallback (Some cc) x)) w1))))"

definition hub_start ::
  "('z hubw_scheme \<Rightarrow> (nat \<times> 'z hubw_scheme) res) \<Rightarrow> nat \<Rightarrow> 'z hubw_scheme \<Rightarrow> 'z hubw_scheme res" where
  "hub_start startLoop h w = bindR (hb_get h w) (\<lambda>x. server_start startLoop (hb_server x) w)"

definition getTopic :: "string \<Rightarrow> hub \<Rightarrow> topic \<times> hub" where
  "getTopic topic x = (case hb_topics x topic of
     Some t \<Rightarrow> (t, x)
   | None \<Rightarrow> (new_topic topic, x\<lparr>hb_topics := (hb_topics x)(topic \<mapsto> new_topic topic)\<rparr>))"

definition put_topic :: "nat \<Rightarrow> string \<Rightarrow> topic \<Rightarrow> 'z hubw_scheme \<Rightarrow> 'z hubw_scheme res" where
  "put_topic h topic t w = bindR (hb_get h w) (\<lambda>x. Inr (hb_put h (x\<lparr>hb_topics := (hb_topics x)(topic \<mapsto> t)\<rparr>) w))"

text \<open>\<open>any_cast\<close> of a context that holds no set throws. The set that is changed is a copy.\<close>

definition context_topics :: "nat \<Rightarrow> 'z netw_scheme \<Rightarrow> string set res" where
  "context_topics a w = bindR (tc_get a w) (\<lambda>c. case tc_context c of None \<Rightarrow> Inl CppException | Some ts \<Rightarrow> Inr ts)"

definition doUnSubscribe :: "nat \<Rightarrow> nat \<Rightarrow> string \<Rightarrow> 'z hubw_scheme \<Rightarrow> 'z hubw_scheme res" where
  "doUnSubscribe h a topic w = bindR (context_topics a w) (\<lambda>topics.
     let topics' = topics - {topic}
     in bindR (hb_get h w) (\<lambda>x. let (t, x') = getTopic topic x
          in put_topic h topic (topic_remove a t) (hb_put h x' w)))"

definition doSubscribe :: "nat \<Rightarrow> nat \<Rightarrow> string \<Rightarrow> 'z hubw_scheme \<Rightarrow> 'z hubw_scheme res" where
  "doSubscribe h a topic w = bindR (context_topics a w) (\<lambda>topics.
     let topics' = insert topic topics
     in bindR (hb_get h w) (\<lambda>x. let (t, x') = getTopic topic x
          in bindR (topic_add a t (hb_put h x' w)) (\<lambda>(t', w'). put_topic h topic t' w')))"

definition doPublish :: "nat \<Rightarrow> string \<Rightarrow> string \<Rightarrow> timestamp \<Rightarrow> 'z hubw_scheme \<Rightarrow> 'z hubw_scheme res" where
  "doPublish h topic content timestamp w = bindR (hb_get h w) (\<lambda>x. let (t, x') = getTopic topic x
     in bindR (topic_publish content timestamp t (hb_put h x' w)) (\<lambda>(t', w'). put_topic h topic t' w'))"

definition hub_onConnection :: "nat \<Rightarrow> nat \<Rightarrow> 'z hubw_scheme \<Rightarrow> 'z hubw_scheme res" where
  "hub_onConnection h a w = bindR (tc_get a w) (\<lambda>c.
     if connected c then Inr (tc_mod a (setContext (Some {})) w)
     else bindR (context_topics a w) (\<lambda>topics.
            foldR (doUnSubscribe h a) (sorted_list_of_set topics) w))"

text \<open>One message that was parsed, and the loop of \<open>onMessage\<close>, whose local strings keep their values.\<close>

definition hub_do :: "nat \<Rightarrow> nat \<Rightarrow> string \<times> string \<times> string \<Rightarrow> 'z hubw_scheme \<Rightarrow> 'z hubw_scheme res" where
  "hub_do h a out w = (case out of (cmd, topic, content) \<Rightarrow>
     if cmd = ''pub'' then (let (now, w1) = ts_now w in doPublish h topic content now w1)
     else if cmd = ''sub'' then doSubscribe h a topic w
     else if cmd = ''unsub'' then doUnSubscribe h a topic w
     else Inr w)"

partial_function (option) hub_loop ::
  "nat \<Rightarrow> nat \<Rightarrow> string \<times> string \<times> string \<Rightarrow> 'z hubw_scheme \<Rightarrow> 'z hubw_scheme res option" where
  "hub_loop h a out w =
     (case bindR (tc_get a w) (\<lambda>c. parseMessage (tc_input c) out) of
        Inl f \<Rightarrow> Some (Inl f)
      | Inr (r, input, out') \<Rightarrow>
          (case (if r = KSuccess then hub_do h a out' else Inr) (tc_mod a (\<lambda>c. c\<lparr>tc_input := input\<rparr>) w) of
             Inl f \<Rightarrow> Some (Inl f)
           | Inr w' \<Rightarrow> if r = KSuccess then hub_loop h a out' w' else Some (Inr w')))"

definition hub_onMessage :: "nat \<Rightarrow> nat \<Rightarrow> 'z hubw_scheme \<Rightarrow> 'z hubw_scheme res option" where
  "hub_onMessage h a w = hub_loop h a ([], [], []) w"

section \<open>What the state changes of the hub leave alone\<close>

lemma conn_ok_alike:
  assumes "conn_ok b w" and "conns v b = conns w b" and "chans v = chans w" and "kernel v = kernel w" and "sysLog v = sysLog w"
    and "\<And>l. isInLoopThread l v = isInLoopThread l w" and "loops v = loops w"
  shows "conn_ok b v"
proof -
  from assms(1) obtain c ch e where k: "conns w b = Some c" "chans w (tc_channel c) = Some ch"
    "ch_fd ch = tc_socket c" "loops w (tc_loop c) = Some e" "el_wakeupFd e \<noteq> tc_socket c"
    "loop_ok (tc_loop c) w" "usable (tc_loop c) (tc_channel c) w" "buf_inv (tc_output c)"
    "isWriting ch \<longleftrightarrow> contents (tc_output c) \<noteq> []" by (elim conn_okE)
  have "loop_ok (tc_loop c) v" using k(6) assms(3-7) by (rule loop_ok_alike)
  moreover have "usable (tc_loop c) (tc_channel c) v" using k(7) assms(3,7) by (simp add: usable_def)
  ultimately show ?thesis
    using k assms(2,3,7) by (intro conn_ok_def [THEN iffD2] exI [of _ c] exI [of _ ch] exI [of _ e]) simp
qed

lemma hubw_fields [simp]:
  "conns (hb_put h x w) = conns w" "chans (hb_put h x w) = chans w" "loops (hb_put h x w) = loops w"
  "kernel (hb_put h x w) = kernel w" "sysLog (hb_put h x w) = sysLog w" "isInLoopThread l (hb_put h x w) = isInLoopThread l w"
  "hubs (hb_put h x w) = (hubs w)(h \<mapsto> x)" "hubs (snd (sys call w)) = hubs w" "hubs (tc_mod a f w) = hubs w" "hubw.more (hb_put h x w) = hubw.more w" "hubw.more (tc_mod a f w) = hubw.more w"
  "hubw.more (snd (ts_now w)) = hubw.more w" "hubs (snd (ts_now w)) = hubs w"
  by (simp_all add: hb_put_def sys_def tc_mod_def isInLoopThread_def ts_now_def Let_def)

lemma hub_more: "same_rest w w' \<Longrightarrow> hubs w' = hubs w \<and> kernel w' = kernel w \<and> hubw.more w' = hubw.more w" for w w' :: "'z hubw_scheme"
  by (cases w; cases w') (auto simp: same_rest_def)

lemma recipients_ok_alike:
  assumes "recipients_ok S w" and "kernel v = kernel w" and "\<And>b. conn_ok b w \<Longrightarrow> conn_ok b v"
    and "\<And>b. rel_option (\<lambda>c c'. tc_state c' = tc_state c \<and> tc_loop c' = tc_loop c \<and> tc_channel c' = tc_channel c \<and>
      tc_socket c' = tc_socket c) (conns w b) (conns v b)"
  shows "recipients_ok S v"
  unfolding recipients_ok_def
proof (intro conjI ballI impI)
  show "write_documented (kernel v)" using assms(1,2) by (simp add: recipients_ok_def)
  show "conn_ok b v" if "b \<in> S" for b using assms(1,3) that by (simp add: recipients_ok_def)
  show "\<exists>c. conns v b = Some c \<and> tc_state c = KConnected" if "b \<in> S" for b
  proof -
    from assms(1) that obtain c where "conns w b = Some c" "tc_state c = KConnected" by (auto simp: recipients_ok_def)
    with assms(4) [of b] show ?thesis by (auto simp: option_rel_Some1)
  qed
  show "apart a b v" if ab: "a \<in> S" "b \<in> S" "a \<noteq> b" for a b
  proof -
    from assms(1) ab have "apart a b w" by (simp add: recipients_ok_def)
    then obtain c d where "conns w a = Some c" "conns w b = Some d" "tc_loop c = tc_loop d"
      "tc_channel c \<noteq> tc_channel d" "tc_socket c \<noteq> tc_socket d" by (auto simp: apart_def)
    with assms(4) [of a] assms(4) [of b] ab(3) show ?thesis by (auto simp: option_rel_Some1 apart_def)
  qed
qed

lemma recipients_ok_hb_put [simp]: "recipients_ok S (hb_put h x w) = recipients_ok S w"
proof -
  have "conn_ok b (hb_put h x w) = conn_ok b w" for b
    using conn_ok_alike [of b w "hb_put h x w"] conn_ok_alike [of b "hb_put h x w" w] by auto
  then show ?thesis by (simp add: recipients_ok_def apart_def)
qed

lemma has_room_hb_put [simp]: "has_room b n (hb_put h x w) = has_room b n w"
  "out_stream b (hb_put h x w) = out_stream b w"
  by (simp_all add: has_room_def out_stream_def sent_def split: option.split)

lemma clock_read:
  assumes "recipients_ok S w"
  shows "recipients_ok S (snd (ts_now w))" "has_room b n (snd (ts_now w)) = has_room b n w"
    "out_stream b (snd (ts_now w)) = out_stream b w" "conns (snd (ts_now w)) = conns w" "kernel (snd (ts_now w)) = kernel w"
proof -
  have s: "snd (ts_now w) = snd (sys SysGettimeofday w)" by (simp add: ts_now_def split_beta Let_def)
  have calm: "calm fd w (snd (ts_now w))" for fd
    unfolding s by (simp add: calm_def option.rel_refl writes_to_def half_closes_def sys_def isInLoopThread_def)
  show "conns (snd (ts_now w)) = conns w" "kernel (snd (ts_now w)) = kernel w" by (simp_all add: s)
  then show "has_room b n (snd (ts_now w)) = has_room b n w" by (simp add: has_room_def)
  show "out_stream b (snd (ts_now w)) = out_stream b w"
    using calm_sent [OF calm] by (simp add: out_stream_def s split: option.split)
  show "recipients_ok S (snd (ts_now w))"
    by (rule recipients_ok_alike [OF assms _ calm_conn_ok [OF calm]]) (simp_all add: s option.rel_refl)
qed

lemma input_changed:
  shows "recipients_ok S w \<Longrightarrow> recipients_ok S (tc_mod a (\<lambda>c. c\<lparr>tc_input := b\<rparr>) w)"
    "has_room d n (tc_mod a (\<lambda>c. c\<lparr>tc_input := b\<rparr>) w) = has_room d n w"
    "out_stream d (tc_mod a (\<lambda>c. c\<lparr>tc_input := b\<rparr>) w) = out_stream d w"
proof -
  let ?v = "tc_mod a (\<lambda>c. c\<lparr>tc_input := b\<rparr>) w"
  have ok: "conn_ok d w \<Longrightarrow> conn_ok d ?v" for d unfolding conn_ok_def by force
  have rel: "rel_option (\<lambda>c c'. tc_state c' = tc_state c \<and> tc_loop c' = tc_loop c \<and> tc_channel c' = tc_channel c \<and>
      tc_socket c' = tc_socket c) (conns w d) (conns ?v d)" for d
    by (cases "conns w d") auto
  show "recipients_ok S w \<Longrightarrow> recipients_ok S ?v" by (rule recipients_ok_alike [where w = w]) (assumption | rule rel | simp add: ok)+
  show "has_room d n ?v = has_room d n w" by (cases "conns w d") (auto simp: has_room_def)
  show "out_stream d ?v = out_stream d w" by (cases "conns w d") (auto simp: out_stream_def)
qed

section \<open>A broker\<close>

text \<open>
  What a hub promises, without buffers, sockets and clocks: who listens to a topic and what was
  last said in it. \<open>receives a m br b\<close> is what connection \<open>b\<close> gets when \<open>a\<close> says \<open>m\<close>.
\<close>

record broker =
  br_subs :: "string \<Rightarrow> nat set"
  br_kept :: "string \<Rightarrow> string option"

fun broker_do :: "nat \<Rightarrow> message \<Rightarrow> broker \<Rightarrow> broker" where
  "broker_do a (Pub k c) br = br\<lparr>br_kept := (br_kept br)(k \<mapsto> c)\<rparr>"
| "broker_do a (Sub k) br = br\<lparr>br_subs := (br_subs br)(k := insert a (br_subs br k))\<rparr>"
| "broker_do a (Unsub k) br = br\<lparr>br_subs := (br_subs br)(k := br_subs br k - {a})\<rparr>"

fun receives :: "nat \<Rightarrow> message \<Rightarrow> broker \<Rightarrow> nat \<Rightarrow> string" where
  "receives a (Pub k c) br b = (if b \<in> br_subs br k then publish_message k c else [])"
| "receives a (Sub k) br b = (case br_kept br k of Some c \<Rightarrow> if b = a then publish_message k c else [] | None \<Rightarrow> [])"
| "receives a (Unsub k) br b = []"

fun broker_run :: "nat \<Rightarrow> message list \<Rightarrow> broker \<Rightarrow> broker" where
  "broker_run a [] br = br"
| "broker_run a (m # ms) br = broker_run a ms (broker_do a m br)"

fun received :: "nat \<Rightarrow> message list \<Rightarrow> broker \<Rightarrow> nat \<Rightarrow> string" where
  "received a [] br b = []"
| "received a (m # ms) br b = receives a m br b @ received a ms (broker_do a m br) b"

lemma broker_run_append [simp]: "broker_run a (xs @ ys) br = broker_run a ys (broker_run a xs br)"
  by (induction xs arbitrary: br) simp_all

lemma received_append: "received a (xs @ ys) br b = received a xs br b @ received a ys (broker_run a xs br) b"
  by (induction xs arbitrary: br) simp_all

text \<open>The broker a hub stands for.\<close>

definition kept_in :: "topic \<Rightarrow> string option" where
  "kept_in t = (if ts_valid (to_lastPubTime t) then Some (to_content t) else None)"

definition topic_broker :: "hub \<Rightarrow> broker" where
  "topic_broker x = \<lparr>br_subs = (\<lambda>k. case hb_topics x k of None \<Rightarrow> {} | Some t \<Rightarrow> to_audiences t),
     br_kept = (\<lambda>k. case hb_topics x k of None \<Rightarrow> None | Some t \<Rightarrow> kept_in t)\<rparr>"

definition hub_broker :: "nat \<Rightarrow> 'z hubw_scheme \<Rightarrow> broker" where
  "hub_broker h w = (case hubs w h of None \<Rightarrow> \<lparr>br_subs = (\<lambda>_. {}), br_kept = (\<lambda>_. None)\<rparr> | Some x \<Rightarrow> topic_broker x)"

text \<open>
  A hub whose subscribers are among the connections \<open>S\<close>, all of them connected, on one loop, and
  with a set as context; the clock reads later than 1970.
\<close>

definition topics_ok :: "nat set \<Rightarrow> hub \<Rightarrow> bool" where
  "topics_ok S x \<longleftrightarrow> (\<forall>k t. hb_topics x k = Some t \<longrightarrow> to_topic t = k \<and> to_audiences t \<subseteq> S)"

definition running_clock :: "(syscall list \<Rightarrow> syscall \<Rightarrow> kres) \<Rightarrow> bool" where
  "running_clock k \<longleftrightarrow> (\<forall>calls. 0 < ts_of_timeval (kfst (k calls SysGettimeofday)) (ksnd (k calls SysGettimeofday)))"

definition hub_ok :: "nat \<Rightarrow> nat set \<Rightarrow> 'z hubw_scheme \<Rightarrow> bool" where
  "hub_ok h S w \<longleftrightarrow> (\<exists>x. hubs w h = Some x \<and> topics_ok S x) \<and> finite S \<and> recipients_ok S w \<and>
     (\<forall>b\<in>S. \<exists>c. conns w b = Some c \<and> tc_context c \<noteq> None) \<and> running_clock (kernel w)"

definition found :: "string \<Rightarrow> hub \<Rightarrow> topic" where
  "found k x = (case hb_topics x k of None \<Rightarrow> new_topic k | Some t \<Rightarrow> t)"

definition with_topic :: "string \<Rightarrow> topic \<Rightarrow> hub \<Rightarrow> hub" where
  "with_topic k t x = x\<lparr>hb_topics := (hb_topics x)(k \<mapsto> t)\<rparr>"

lemma getTopic_found: "getTopic k x = (found k x, with_topic k (found k x) x)"
  by (simp add: getTopic_def found_def with_topic_def fun_upd_idem split: option.splits)

lemma with_topic_again [simp]: "with_topic k t (with_topic k u x) = with_topic k t x"
  by (simp add: with_topic_def)

lemma found_broker:
  assumes "topics_ok S x"
  shows "to_topic (found k x) = k" "to_audiences (found k x) \<subseteq> S" "to_audiences (found k x) = br_subs (topic_broker x) k"
    "kept_in (found k x) = br_kept (topic_broker x) k"
  using assms
  by (auto simp: found_def topics_ok_def topic_broker_def new_topic_def kept_in_def ts_valid_def ts_invalid_def split: option.splits)

lemma with_topic_broker:
  "topic_broker (with_topic k t x) = (topic_broker x)\<lparr>br_subs := (br_subs (topic_broker x))(k := to_audiences t),
     br_kept := (br_kept (topic_broker x))(k := kept_in t)\<rparr>"
  by (auto simp: topic_broker_def with_topic_def fun_eq_iff)

lemma with_topic_ok: "topics_ok S x \<Longrightarrow> to_topic t = k \<Longrightarrow> to_audiences t \<subseteq> S \<Longrightarrow> topics_ok S (with_topic k t x)"
  by (auto simp: topics_ok_def with_topic_def)

lemma put_topic_ok: "hubs w h = Some x \<Longrightarrow> put_topic h k t w = Inr (hb_put h (with_topic k t x) w)"
  by (simp add: put_topic_def hb_get_def with_topic_def)

lemma hb_put_again [simp]: "hb_put h x (hb_put h y w) = hb_put h x w"
  by (simp add: hb_put_def)

section \<open>The hub carries out what the broker does\<close>

definition passes :: "nat set \<Rightarrow> (nat \<Rightarrow> string) \<Rightarrow> 'z netw_scheme \<Rightarrow> 'z netw_scheme \<Rightarrow> bool" where
  "passes S f w w' \<longleftrightarrow> (\<forall>b\<in>S. out_stream b w' = out_stream b w @ f b \<and>
       (\<forall>n. has_room b (n + length (f b)) w \<longrightarrow> has_room b n w')) \<and>
     (\<forall>b. rel_option same_but_output (conns w b) (conns w' b))"

lemma passes_gets: "mail.gets S f w w' \<Longrightarrow> passes S f w w' \<and> recipients_ok S w' \<and> same_rest w w'"
  by (simp add: mail.gets_def passes_def only_outputs_def)

lemma passes_nothing: "conns w' = conns w \<Longrightarrow> (\<And>b. out_stream b w' = out_stream b w) \<Longrightarrow> passes S (\<lambda>_. []) w w'"
  by (simp add: passes_def has_room_def option.rel_refl)

lemma hub_ok_context: "hub_ok h S w \<Longrightarrow> a \<in> S \<Longrightarrow> \<exists>ts. context_topics a w = Inr ts"
  by (auto simp: hub_ok_def context_topics_def tc_get_def)

lemma hub_ok_after:
  assumes "hub_ok h S w" and "passes S f w v" and "recipients_ok S v" and "kernel v = kernel w" and "topics_ok S x"
  shows "hub_ok h S (hb_put h x v)"
proof -
  have "\<exists>c. conns v b = Some c \<and> tc_context c \<noteq> None" if "b \<in> S" for b
  proof -
    from assms(1) that obtain c where "conns w b = Some c" "tc_context c \<noteq> None" by (auto simp: hub_ok_def)
    moreover have "rel_option same_but_output (conns w b) (conns v b)" using assms(2) by (simp add: passes_def)
    ultimately show ?thesis by (auto simp: option_rel_Some1 same_but_output_def)
  qed
  then show ?thesis using assms by (simp add: hub_ok_def)
qed

lemma passes_hb_put [simp]: "passes S f w (hb_put h x v) = passes S f w v" "passes S f (hb_put h x w) v = passes S f w v"
  by (simp_all add: passes_def)

lemma makeMessage_publish: "makeMessage t = publish_message (to_topic t) (to_content t)"
  by (simp add: makeMessage_def publish_message_def)

lemma receives_nothing:
  "receives a (Unsub k) br = (\<lambda>_. [])" "br_kept br k = None \<Longrightarrow> receives a (Sub k) br = (\<lambda>_. [])"
  by (simp_all add: fun_eq_iff)

text \<open>What carrying out one message comes to, for one of the connections.\<close>

definition carries_out :: "nat \<Rightarrow> nat set \<Rightarrow> nat \<Rightarrow> message \<Rightarrow> 'z hubw_scheme \<Rightarrow> 'z hubw_scheme res \<Rightarrow> bool" where
  "carries_out h S a m w r \<longleftrightarrow> (\<exists>w'. r = Inr w' \<and> hub_ok h S w' \<and>
     hub_broker h w' = broker_do a m (hub_broker h w) \<and> passes S (receives a m (hub_broker h w)) w w' \<and>
     kernel w' = kernel w \<and> hubw.more w' = hubw.more w)"

lemma topic_done:
  assumes ok: "hub_ok h S w" and x: "hubs w h = Some x" "topics_ok S x" and t: "to_topic t = k" "to_audiences t \<subseteq> S"
    and v: "passes S (receives a m (hub_broker h w)) w v" "recipients_ok S v" "kernel v = kernel w" "hubs v h = Some (with_topic k (found k x) x)"
      "hubw.more v = hubw.more w"
    and r: "r = put_topic h k t v"
    and br: "broker_do a m (topic_broker x) = (topic_broker x)\<lparr>br_subs := (br_subs (topic_broker x))(k := to_audiences t),
      br_kept := (br_kept (topic_broker x))(k := kept_in t)\<rparr>"
  shows "carries_out h S a m w r"
proof -
  have "r = Inr (hb_put h (with_topic k t x) v)" using put_topic_ok [OF v(4), of k t] r by simp
  moreover have "hub_ok h S (hb_put h (with_topic k t x) v)"
    by (rule hub_ok_after [OF ok v(1-3) with_topic_ok [OF x(2) t]])
  ultimately show ?thesis
    using v(1,3,5) x(1) br with_topic_broker [of k t x] by (simp add: carries_out_def hub_broker_def)
qed

lemma unsubscribe_ok:
  assumes ok: "hub_ok h S w" and a: "a \<in> S"
  shows "carries_out h S a (Unsub k) w (doUnSubscribe h a k w)"
proof -
  from ok obtain x where x: "hubs w h = Some x" "topics_ok S x" and rec: "recipients_ok S w" by (auto simp: hub_ok_def)
  from hub_ok_context [OF ok a] obtain ts where ts: "context_topics a w = Inr ts" by blast
  note f = found_broker [OF x(2), of k]
  let ?v = "hb_put h (with_topic k (found k x) x) w"
  show ?thesis
  proof (rule topic_done [OF ok x, of "topic_remove a (found k x)" k _ _ ?v])
    show "doUnSubscribe h a k w = put_topic h k (topic_remove a (found k x)) ?v"
      using x(1) ts by (simp add: doUnSubscribe_def hb_get_def getTopic_found)
    show "passes S (receives a (Unsub k) (hub_broker h w)) w ?v" by (simp add: passes_nothing receives_nothing)
    have "kept_in (topic_remove a (found k x)) = kept_in (found k x)" by (simp add: kept_in_def topic_remove_def)
    with f(4) have "kept_in (topic_remove a (found k x)) = br_kept (topic_broker x) k" by simp
    then show "broker_do a (Unsub k) (topic_broker x) = (topic_broker x)
        \<lparr>br_subs := (br_subs (topic_broker x))(k := to_audiences (topic_remove a (found k x))),
         br_kept := (br_kept (topic_broker x))(k := kept_in (topic_remove a (found k x)))\<rparr>"
      using f(3) by (simp add: topic_remove_def)
  qed (use f rec in \<open>auto simp: topic_remove_def\<close>)
qed

lemma subscribe_ok:
  assumes ok: "hub_ok h S w" and a: "a \<in> S" and room: "has_room a (length (receives a (Sub k) (hub_broker h w) a)) w"
  shows "carries_out h S a (Sub k) w (doSubscribe h a k w)"
proof -
  from ok obtain x where x: "hubs w h = Some x" "topics_ok S x" and rec: "recipients_ok S w" by (auto simp: hub_ok_def)
  from hub_ok_context [OF ok a] obtain ts where ts: "context_topics a w = Inr ts" by blast
  note f = found_broker [OF x(2), of k]
  define t where "t = (found k x)\<lparr>to_audiences := insert a (to_audiences (found k x))\<rparr>"
  have t: "to_topic t = k" "to_audiences t \<subseteq> S" "kept_in t = br_kept (topic_broker x) k"
    "to_audiences t = insert a (br_subs (topic_broker x) k)"
    using f a by (auto simp: t_def kept_in_def)
  have br: "broker_do a (Sub k) (topic_broker x) = (topic_broker x)\<lparr>br_subs := (br_subs (topic_broker x))(k := to_audiences t),
      br_kept := (br_kept (topic_broker x))(k := kept_in t)\<rparr>" by (simp add: t(3,4))
  let ?u = "hb_put h (with_topic k (found k x) x) w"
  have run: "doSubscribe h a k w = bindR (topic_add a (found k x) ?u) (\<lambda>(t', w'). put_topic h k t' w')"
    using x(1) ts by (simp add: doSubscribe_def hb_get_def getTopic_found)
  have hb: "hub_broker h w = topic_broker x" using x(1) by (simp add: hub_broker_def)
  show ?thesis
  proof (cases "kept_in (found k x)")
    case None
    then have "topic_add a (found k x) ?u = Inr (t, ?u)"
      by (simp add: topic_add_def t_def kept_in_def split: if_splits)
    with run have "doSubscribe h a k w = put_topic h k t ?u" by simp
    moreover have "passes S (receives a (Sub k) (hub_broker h w)) w ?u"
      using None f(4) hb passes_nothing [of ?u w] by (simp add: receives_nothing)
    ultimately show ?thesis using rec by (intro topic_done [OF ok x t(1,2) _ _ _ _ _ _ br]) simp_all
  next
    case (Some c)
    have msg: "makeMessage t = publish_message k c" "ts_valid (to_lastPubTime t)"
      using Some f(1) by (auto simp: makeMessage_publish t_def kept_in_def split: if_splits)
    have kept: "br_kept (topic_broker x) k = Some c" using Some f(4) by simp
    have "has_room a (length (makeMessage t)) ?u" using room kept msg(1) hb by simp
    with mail.post_one [of S ?u a "makeMessage t"] rec a obtain v where
      v: "tc_send a (makeMessage t) ?u = Inr v" "mail.gets S (\<lambda>d. if d = a then makeMessage t else []) ?u v" by auto
    have "topic_add a (found k x) ?u = Inr (t, v)" using v(1) msg(2) by (simp add: topic_add_def t_def Let_def)
    with run have "doSubscribe h a k w = put_topic h k t v" by simp
    moreover have "(\<lambda>d. if d = a then makeMessage t else []) = receives a (Sub k) (hub_broker h w)"
      using kept msg(1) hb by auto
    then have "passes S (receives a (Sub k) (hub_broker h w)) w v \<and> recipients_ok S v \<and> same_rest ?u v"
      using passes_gets [OF v(2)] by simp
    ultimately show ?thesis using hub_more [of ?u v] by (intro topic_done [OF ok x t(1,2) _ _ _ _ _ _ br]) simp_all
  qed
qed

lemma publish_ok:
  assumes ok: "hub_ok h S w" and room: "\<And>b. b \<in> S \<Longrightarrow> has_room b (length (receives a (Pub k c) (hub_broker h w) b)) w"
  shows "carries_out h S a (Pub k c) w (hub_do h a (''pub'', k, c) w)"
proof -
  from ok obtain x where x: "hubs w h = Some x" "topics_ok S x" and rec: "recipients_ok S w" and fin: "finite S"
    by (auto simp: hub_ok_def)
  note f = found_broker [OF x(2), of k]
  define now where "now = fst (ts_now w)"
  let ?w1 = "snd (ts_now w)"
  have now: "ts_valid now"
    using ok by (simp add: now_def ts_now_def sys_def ts_valid_def hub_ok_def running_clock_def)
  note r1 = clock_read [OF rec]
  have h1: "hubs ?w1 = hubs w" by (simp add: ts_now_def split_beta Let_def)
  let ?t = "(found k x)\<lparr>to_content := c, to_lastPubTime := now\<rparr>"
  have t: "to_topic ?t = k" "to_audiences ?t \<subseteq> S" "kept_in ?t = Some c" "to_audiences ?t = br_subs (topic_broker x) k"
    using f now by (simp_all add: kept_in_def)
  have br: "broker_do a (Pub k c) (topic_broker x) = (topic_broker x)\<lparr>br_subs := (br_subs (topic_broker x))(k := to_audiences ?t),
      br_kept := (br_kept (topic_broker x))(k := kept_in ?t)\<rparr>" by (simp only: t(3,4)) simp
  have hb: "hub_broker h w = topic_broker x" using x(1) by (simp add: hub_broker_def)
  have msg: "makeMessage ?t = publish_message k c" using f(1) by (simp add: makeMessage_publish)
  let ?u = "hb_put h (with_topic k (found k x) x) ?w1"
  let ?bs = "sorted_list_of_set (to_audiences ?t)"
  have bs: "set ?bs = br_subs (topic_broker x) k" "distinct ?bs" "set ?bs \<subseteq> S"
    using t(2,4) finite_subset [OF t(2) fin] by simp_all
  have "has_room b (length (makeMessage ?t)) ?u" if "b \<in> set ?bs" for b
    using room [of b] that bs(1,3) msg hb r1(2) by auto
  with mail.post_all [of S ?u ?bs "makeMessage ?t"] r1(1) bs(2,3) obtain v where
    v: "foldR (\<lambda>b. tc_send b (makeMessage ?t)) ?bs ?u = Inr v"
    "mail.gets S (\<lambda>d. if d \<in> set ?bs then makeMessage ?t else []) ?u v" by auto
  have "hub_do h a (''pub'', k, c) w = bindR (topic_publish c now (found k x) ?u) (\<lambda>(t', w'). put_topic h k t' w')"
    using x(1) h1 by (simp add: hub_do_def split_beta Let_def doPublish_def hb_get_def getTopic_found now_def)
  also have "topic_publish c now (found k x) ?u = Inr (?t, v)" using v(1) by (simp add: topic_publish_def Let_def)
  finally have run: "hub_do h a (''pub'', k, c) w = put_topic h k ?t v" by simp
  have "(\<lambda>d. if d \<in> set ?bs then makeMessage ?t else []) = receives a (Pub k c) (hub_broker h w)"
    using bs(1) msg hb by auto
  then have "passes S (receives a (Pub k c) (hub_broker h w)) ?w1 v \<and> recipients_ok S v \<and> same_rest ?u v"
    using passes_gets [OF v(2)] by simp
  then have "passes S (receives a (Pub k c) (hub_broker h w)) w v \<and> recipients_ok S v \<and> kernel v = kernel w \<and>
      hubs v h = Some (with_topic k (found k x) x) \<and> hubw.more v = hubw.more w"
    using r1 hub_more [of ?u v] by (simp add: passes_def)
  then show ?thesis using run by (intro topic_done [OF ok x t(1,2) _ _ _ _ _ _ br]) simp_all
qed

lemma hub_do_ok:
  assumes "hub_ok h S w" and "a \<in> S" and "\<And>b. b \<in> S \<Longrightarrow> has_room b (length (receives a m (hub_broker h w) b)) w"
  shows "carries_out h S a m w (hub_do h a (as_triple c0 m) w)"
proof (cases m)
  case (Pub k c)
  then show ?thesis using publish_ok [of h S w a k c] assms by simp
next
  case (Sub k)
  then show ?thesis using subscribe_ok [OF assms(1,2), of k] assms(2,3) by (simp add: hub_do_def)
next
  case (Unsub k)
  then show ?thesis using unsubscribe_ok [OF assms(1,2), of k] by (simp add: hub_do_def)
qed

section \<open>A batch of messages\<close>

text \<open>Nothing more can be read: the message is not there yet, or the line is refused.\<close>

definition no_more :: "string \<Rightarrow> bool" where
  "no_more d \<longleftrightarrow> parse_bytes d = More \<or> parse_bytes d = Bad"

lemma input_hub_ok:
  fixes w :: "'z hubw_scheme"
  assumes "hub_ok h S w"
  shows "hub_ok h S (tc_mod a (\<lambda>c. c\<lparr>tc_input := b\<rparr>) w)"
    "hub_broker h (tc_mod a (\<lambda>c. c\<lparr>tc_input := b\<rparr>) w) = hub_broker h w"
  using assms input_changed(1) [of S w a b] by (auto simp: hub_ok_def hub_broker_def)

text \<open>A batch of one connection changes its own buffers and the outputs of the others.\<close>

definition same_but_buffers :: "tcp_connection \<Rightarrow> tcp_connection \<Rightarrow> bool" where
  "same_but_buffers c c' \<longleftrightarrow> (\<exists>i out. c' = c\<lparr>tc_input := i, tc_output := out\<rparr>)"

definition serves :: "nat \<Rightarrow> nat set \<Rightarrow> (nat \<Rightarrow> string) \<Rightarrow> 'z hubw_scheme \<Rightarrow> 'z hubw_scheme \<Rightarrow> bool" where
  "serves a S f w w' \<longleftrightarrow> (\<forall>b\<in>S. out_stream b w' = out_stream b w @ f b \<and>
       (\<forall>n. has_room b (n + length (f b)) w \<longrightarrow> has_room b n w')) \<and>
     (\<forall>b. rel_option (if b = a then same_but_buffers else same_but_output) (conns w b) (conns w' b)) \<and>
     kernel w' = kernel w \<and> hubw.more w' = hubw.more w"

lemma same_but_buffersI: "same_but_output c c' \<Longrightarrow> same_but_buffers c c'" "same_but_buffers c (c\<lparr>tc_input := i\<rparr>)"
proof -
  have c: "c = c\<lparr>tc_input := tc_input c\<rparr>" "c\<lparr>tc_input := i\<rparr> = c\<lparr>tc_input := i, tc_output := tc_output c\<rparr>" by simp_all
  show "same_but_output c c' \<Longrightarrow> same_but_buffers c c'"
    unfolding same_but_output_def same_but_buffers_def using c(1) by metis
  show "same_but_buffers c (c\<lparr>tc_input := i\<rparr>)" unfolding same_but_buffers_def using c(2) by metis
qed

lemma same_but_buffers_trans: "same_but_buffers c d \<Longrightarrow> same_but_buffers d e \<Longrightarrow> same_but_buffers c e"
  unfolding same_but_buffers_def by (elim exE, rule exI, rule exI) simp

lemma serves_nothing: "serves a S (\<lambda>_. []) w w"
proof -
  have "same_but_buffers c c" for c using same_but_buffersI(1) by simp
  then show ?thesis by (simp add: serves_def option.rel_refl)
qed

lemma serves_trans:
  assumes "serves a S f u v" and "serves a S g v w"
  shows "serves a S (\<lambda>b. f b @ g b) u w"
proof -
  let ?R = "\<lambda>b. if b = a then same_but_buffers else same_but_output"
  have "rel_option (?R b) (conns u b) (conns w b)" for b
  proof -
    have "rel_option (?R b) (conns u b) (conns v b)" "rel_option (?R b) (conns v b) (conns w b)"
      using assms by (simp_all add: serves_def)
    then show ?thesis
      by (cases "conns u b"; cases "conns v b"; cases "conns w b")
        (auto intro: same_but_buffers_trans same_but_output_trans split: if_splits)
  qed
  moreover have "has_room b n w" if "b \<in> S" "has_room b (n + length (f b @ g b)) u" for b n
  proof -
    have "has_room b ((n + length (g b)) + length (f b)) u" using that(2) by (simp add: algebra_simps)
    then show ?thesis using assms that(1) by (simp add: serves_def)
  qed
  ultimately show ?thesis using assms by (simp add: serves_def)
qed

lemma serves_input: "serves a S (\<lambda>_. []) w (tc_mod a (\<lambda>c. c\<lparr>tc_input := b\<rparr>) w)"
proof -
  have "rel_option (if d = a then same_but_buffers else same_but_output) (conns w d)
      (conns (tc_mod a (\<lambda>c. c\<lparr>tc_input := b\<rparr>) w) d)" for d
    using same_but_buffersI(2) by (cases "conns w d") auto
  then show ?thesis by (simp add: serves_def input_changed)
qed

lemma serves_passes:
  assumes "passes S f w w'" and "kernel w' = kernel w" and "hubw.more w' = hubw.more w"
  shows "serves a S f w w'"
proof -
  have "rel_option (if b = a then same_but_buffers else same_but_output) (conns w b) (conns w' b)" for b
    using assms(1) same_but_buffersI(1) by (cases "conns w b"; cases "conns w' b") (auto simp: passes_def dest: spec [of _ b])
  then show ?thesis using assms by (simp add: serves_def passes_def)
qed

text \<open>A command that is no message does nothing.\<close>

lemma hub_do_triple: "message_of (cmd, topic, content) = Some m \<Longrightarrow> hub_do h a (cmd, topic, content) = hub_do h a (as_triple content m)"
  by (auto simp: message_of_def split: if_splits)

lemma hub_do_ignored: "message_of (cmd, topic, content) = None \<Longrightarrow> hub_do h a (cmd, topic, content) w = Inr w"
  by (auto simp: message_of_def hub_do_def split: if_splits)

text \<open>
  What \<open>onMessage\<close> is to make of the bytes \<open>d\<close> in the input of \<open>a\<close>, a vector of \<open>n\<close> bytes: the messages
  among them are carried out and the rest is kept, or, with the first line of a \<open>pub\<close> at the end, it
  runs into the null pointer.
\<close>

definition batch_done :: "nat \<Rightarrow> nat set \<Rightarrow> nat \<Rightarrow> string \<Rightarrow> int \<Rightarrow> 'z hubw_scheme \<Rightarrow> 'z hubw_scheme \<Rightarrow> bool" where
  "batch_done h S a d n w w' \<longleftrightarrow> hub_ok h S w' \<and> hub_broker h w' = broker_run a (fst (digest d)) (hub_broker h w) \<and>
     serves a S (received a (fst (digest d)) (hub_broker h w)) w w' \<and>
     (\<exists>c'. conns w' a = Some c' \<and> buf_inv (tc_input c') \<and> contents (tc_input c') = snd (digest d) \<and> bufsize (tc_input c') = n)"

definition batch :: "nat \<Rightarrow> nat set \<Rightarrow> nat \<Rightarrow> string \<Rightarrow> int \<Rightarrow> 'z hubw_scheme \<Rightarrow> 'z hubw_scheme res option \<Rightarrow> bool" where
  "batch h S a d n w r \<longleftrightarrow> (if parse_bytes (snd (digest d)) = Crash then r = Some (Inl UndefinedBehaviour)
     else \<exists>w'. r = Some (Inr w') \<and> batch_done h S a d n w w')"

text \<open>One command in front, carried out, and then the rest.\<close>

lemma batch_step:
  assumes "hub_broker h u = broker_run a (orders cmd topic content) (hub_broker h w)"
    and "serves a S (received a (orders cmd topic content) (hub_broker h w)) w u"
    and "parse_bytes d = Done cmd topic content rest" and "batch h S a rest n u r"
  shows "batch h S a d n w r"
proof -
  let ?o = "orders cmd topic content"
  show ?thesis
  proof (cases "parse_bytes (snd (digest rest)) = Crash")
    case True
    with assms(4) show ?thesis by (simp add: batch_def digest_step [OF assms(3)])
  next
    case False
    with assms(4) obtain w' where w': "r = Some (Inr w')" "batch_done h S a rest n u w'" by (auto simp: batch_def)
    have "serves a S (received a (fst (digest d)) (hub_broker h w)) w w'"
      using serves_trans [OF assms(2), of "received a (fst (digest rest)) (hub_broker h u)" w'] w'(2)
      by (simp add: batch_done_def digest_step [OF assms(3)] received_append [abs_def] assms(1))
    with w'(2) have "batch_done h S a d n w w'"
      by (simp add: batch_done_def digest_step [OF assms(3)] assms(1))
    with w'(1) False show ?thesis by (simp add: batch_def digest_step [OF assms(3)])
  qed
qed

lemma hub_command_ok:
  fixes w :: "'z hubw_scheme"
  assumes "hub_ok h S w" and "a \<in> S" and "parse_bytes d = Done cmd topic content rest"
    and "\<And>b. b \<in> S \<Longrightarrow> has_room b (length (received a (orders cmd topic content) (hub_broker h w) b)) w"
  shows "\<exists>u. hub_do h a (cmd, topic, case_option c0 id content) w = Inr u \<and> hub_ok h S u \<and>
    hub_broker h u = broker_run a (orders cmd topic content) (hub_broker h w) \<and>
    passes S (received a (orders cmd topic content) (hub_broker h w)) w u \<and> kernel u = kernel w \<and> hubw.more u = hubw.more w"
proof -
  let ?c = "case_option c0 id content"
  have same: "message_of (cmd, topic, ?c) = message_of (cmd, topic, case_option [] id content)"
    using parsed_free(3) [OF assms(3)] by (auto simp: message_of_def)
  show ?thesis
  proof (cases "message_of (cmd, topic, ?c)")
    case None
    then have "orders cmd topic content = []" using same by (simp add: orders_def)
    moreover have "received a [] br = (\<lambda>_. [])" for br by (simp add: fun_eq_iff)
    ultimately show ?thesis using assms(1) None by (simp add: hub_do_ignored passes_nothing)
  next
    case (Some m)
    then have o: "orders cmd topic content = [m]" using same by (simp add: orders_def)
    have rec: "received a [m] br = receives a m br" for br by (simp add: fun_eq_iff)
    from hub_do_ok [OF assms(1,2), of m ?c] assms(4) show ?thesis
      unfolding o rec hub_do_triple [OF Some] carries_out_def by simp
  qed
qed

lemma hub_loop_batch:
  fixes w :: "'z hubw_scheme"
  assumes "hub_ok h S w" and "a \<in> S" and "conns w a = Some c" and "buf_inv (tc_input c)" and "contents (tc_input c) = d"
    and "\<And>b. b \<in> S \<Longrightarrow> has_room b (length (received a (fst (digest d)) (hub_broker h w) b)) w"
  shows "batch h S a d (bufsize (tc_input c)) w (hub_loop h a out w)"
  using assms
proof (induction d arbitrary: w c out rule: digest.induct)
  case (1 d)
  obtain cmd0 topic0 content0 where out: "out = (cmd0, topic0, content0)" by (cases out) auto
  note p = parseMessage_contents [OF 1(5), of cmd0 topic0 content0, unfolded 1(6), folded out]
  show ?case
  proof (cases "unread d")
    case True
    have idem: "tc_mod a (\<lambda>e. e\<lparr>tc_input := tc_input c\<rparr>) w = w" using 1(4) by (rule tc_mod_idem) simp
    have "received a [] br = (\<lambda>_. [])" for br by (simp add: fun_eq_iff)
    then have "batch_done h S a d (bufsize (tc_input c)) w w"
      using True 1 serves_nothing [of a S w] by (simp add: batch_done_def digest_unread)
    moreover have "hub_loop h a out w = (if parse_bytes d = Crash then Some (Inl UndefinedBehaviour) else Some (Inr w))"
      using True p 1(4) by (subst hub_loop.simps) (auto simp: tc_get_def idem unread_def split: parsed.splits)
    ultimately show ?thesis using True by (simp add: batch_def digest_unread)
  next
    case False
    then obtain cmd topic content rest where d: "parse_bytes d = Done cmd topic content rest"
      by (auto simp: unread_def split: parsed.splits)
    let ?b = "consume rest (tc_input c)" and ?out = "(cmd, topic, case_option content0 id content)"
      and ?o = "orders cmd topic content" and ?br = "hub_broker h w"
    let ?v = "tc_mod a (\<lambda>e. e\<lparr>tc_input := ?b\<rparr>) w"
    note b = consume_ok [OF 1(5), unfolded 1(6), OF d]
    note v = input_hub_ok [OF 1(2), of a ?b]
    have rooms: "has_room b (length (received a (fst (digest rest)) (broker_run a ?o ?br) b) + length (received a ?o ?br b)) w"
      if "b \<in> S" for b using 1(7) [OF that] by (simp add: digest_step [OF d] received_append add.commute)
    have "has_room b (length (received a ?o (hub_broker h ?v) b)) ?v" if "b \<in> S" for b
    proof -
      have "has_room b (length (received a ?o ?br b)) w" using rooms [OF that] by (auto simp: has_room_def)
      then show ?thesis by (simp add: v(2) input_changed(2))
    qed
    from hub_command_ok [OF v(1) 1(3) d this, where ?c0.0 = content0] obtain u where
      u: "hub_do h a ?out ?v = Inr u" "hub_ok h S u" "hub_broker h u = broker_run a ?o ?br" "passes S (received a ?o ?br) ?v u"
      "kernel u = kernel ?v" "hubw.more u = hubw.more ?v" unfolding v(2) by blast
    have su: "serves a S (received a ?o ?br) w u"
      using serves_trans [OF serves_input serves_passes [OF u(4-6)]] by simp
    have "rel_option same_but_output (conns ?v a) (conns u a)" using u(4) unfolding passes_def by blast
    then obtain e where e: "conns u a = Some e" "tc_input e = ?b"
      using 1(4) by (auto simp: option_rel_Some1 same_but_output_def)
    have "has_room b (length (received a (fst (digest rest)) (hub_broker h u) b)) u" if "b \<in> S" for b
      using rooms [OF that] u(3) su that by (simp add: serves_def)
    from 1(1) [OF d u(2) 1(3) e(1) _ _ this, of ?out] b e(2)
    have "batch h S a rest (bufsize (tc_input c)) u (hub_loop h a ?out u)" by simp
    moreover have "hub_loop h a out w = hub_loop h a ?out u"
      using 1(4) p d u(1) by (subst hub_loop.simps) (simp add: tc_get_def)
    ultimately show ?thesis using batch_step [OF u(3) su d] by simp
  qed
qed

lemma no_more_unread: "no_more d \<longleftrightarrow> unread d \<and> parse_bytes d \<noteq> Crash"
  by (auto simp: no_more_def unread_def split: parsed.splits)

lemma hub_loop_run:
  fixes w :: "'z hubw_scheme"
  assumes "hub_ok h S w" and "a \<in> S" and "conns w a = Some c" and "buf_inv (tc_input c)"
    and "contents (tc_input c) = concat (map write_message ms) @ tail" and "list_all message_ok ms" and "no_more tail"
    and "\<And>b. b \<in> S \<Longrightarrow> has_room b (length (received a ms (hub_broker h w) b)) w"
  shows "\<exists>w' c'. hub_loop h a out w = Some (Inr w') \<and> hub_ok h S w' \<and> hub_broker h w' = broker_run a ms (hub_broker h w) \<and>
    (\<forall>b\<in>S. out_stream b w' = out_stream b w @ received a ms (hub_broker h w) b) \<and>
    conns w' a = Some c' \<and> buf_inv (tc_input c') \<and> contents (tc_input c') = tail"
proof -
  have "digest (concat (map write_message ms) @ tail) = (ms, tail)"
    using assms(6,7) by (intro digest_written) (simp_all add: no_more_unread)
  with hub_loop_batch [OF assms(1-5), of out] assms(7,8) show ?thesis
    by (auto simp: batch_def batch_done_def serves_def no_more_unread)
qed

section \<open>Properties\<close>

text \<open>
  A hub at address 9 on the loop at address 0, with the connections 20 and 21 on the sockets 5 and 6;
  connection 21 listens to the topic \<open>t\<close>, and connection 20 has sent two messages.
\<close>

definition hub_kernel :: "syscall list \<Rightarrow> syscall \<Rightarrow> kres" where
  "hub_kernel calls call = (case call of
     SysGettimeofday \<Rightarrow> (ret 0)\<lparr>ksnd := 150\<rparr>
   | SysWrite fd data \<Rightarrow> ret (int (length data))
   | _ \<Rightarrow> ret 0)"

definition input_of :: "string \<Rightarrow> buffer" where
  "input_of d = \<lparr>bytes = replicate 8 CHR ''.'' @ d @ replicate 500 CHR ''.'', readIndex = 8, writeIndex = 8 + int (length d)\<rparr>"

definition hub_conn :: "nat \<Rightarrow> int \<Rightarrow> string \<Rightarrow> tcp_connection" where
  "hub_conn ch fd d = (example_conn KConnected new_buffer)\<lparr>tc_channel := ch, tc_socket := fd,
     tc_input := input_of d, tc_context := Some {}\<rparr>"

definition example_hub :: hub where
  "example_hub = \<lparr>hb_loop = 0, hb_server = 8,
     hb_topics = [''t'' \<mapsto> (new_topic ''t'')\<lparr>to_audiences := {21}\<rparr>]\<rparr>"

definition example_hubw :: "string \<Rightarrow> hubw" where
  "example_hubw d = \<lparr>kernel = hub_kernel, sysLog = [], curTid = 1, threadOf = (\<lambda>_. 1),
     chans = [1 \<mapsto> new_channel 0 5, 2 \<mapsto> new_channel 0 6], loops = [0 \<mapsto> example_eventloop []], threadLoop = [1 \<mapsto> 0],
     tqs = (\<lambda>_. None), timers = (\<lambda>_. None), numCreated = 0, conns = [20 \<mapsto> hub_conn 1 5 d, 21 \<mapsto> hub_conn 2 6 []],
     acceptors = (\<lambda>_. None), servers = (\<lambda>_. None), connectors = (\<lambda>_. None), clients = (\<lambda>_. None), hubs = [9 \<mapsto> example_hub]\<rparr>"

lemma example_hubw_fields [simp]:
  "kernel (example_hubw d) = hub_kernel" "sysLog (example_hubw d) = []" "isInLoopThread l (example_hubw d)"
  "chans (example_hubw d) = [1 \<mapsto> new_channel 0 5, 2 \<mapsto> new_channel 0 6]" "loops (example_hubw d) = [0 \<mapsto> example_eventloop []]"
  "conns (example_hubw d) = [20 \<mapsto> hub_conn 1 5 d, 21 \<mapsto> hub_conn 2 6 []]" "hubs (example_hubw d) = [9 \<mapsto> example_hub]"
  "sent fd (example_hubw d) = []"
  by (simp_all add: example_hubw_def isInLoopThread_def sent_def)

lemma hub_conn_fields [simp]:
  "tc_state (hub_conn ch fd d) = KConnected" "tc_loop (hub_conn ch fd d) = 0" "tc_channel (hub_conn ch fd d) = ch"
  "tc_socket (hub_conn ch fd d) = fd" "tc_output (hub_conn ch fd d) = new_buffer" "tc_input (hub_conn ch fd d) = input_of d"
  "tc_context (hub_conn ch fd d) = Some {}"
  by (simp_all add: hub_conn_def)

lemma example_hub_ok: "hub_ok 9 {20, 21} (example_hubw d)"
proof -
  have "conn_ok b (example_hubw d)" if "b \<in> {20, 21}" for b
    using that
    by (auto simp: conn_ok_def loop_ok_def usable_def example_eventloop_def pp_ok_def pp_new_def keys_def po.admissible_def
        new_channel_def valid_fd_def buf_inv_new contents_new isWriting_def kNoneEvent_def)
  moreover have "write_documented hub_kernel" by (simp add: write_documented_def hub_kernel_def ret_def)
  moreover have "running_clock hub_kernel"
    by (simp add: running_clock_def hub_kernel_def ret_def ts_of_timeval_def int64_def kMicroSecondPerSecond_def)
  moreover have "topics_ok {20, 21} example_hub" by (auto simp: topics_ok_def example_hub_def new_topic_def)
  ultimately show ?thesis by (auto simp: hub_ok_def recipients_ok_def apart_def)
qed

lemma example_broker [simp]:
  "hub_broker 9 (example_hubw d) = \<lparr>br_subs = (\<lambda>k. if k = ''t'' then {21} else {}), br_kept = (\<lambda>_. None)\<rparr>"
  by (auto simp: hub_broker_def topic_broker_def example_hub_def new_topic_def kept_in_def ts_valid_def ts_invalid_def fun_eq_iff)

text \<open>C27: the hub refines the broker. A batch of messages in the input of one of its connections is
  carried out whole and in order: \<open>onMessage\<close> returns, afterwards the hub stands for the broker
  that did the same, every connection's output has grown by exactly what the broker has it receive,
  in order, and the input holds what cannot be read yet.\<close>

theorem hub_refines_broker:
  fixes w :: "'z hubw_scheme"
  assumes "hub_ok h S w" and "a \<in> S" and "conns w a = Some c" and "buf_inv (tc_input c)"
    and "contents (tc_input c) = concat (map write_message ms) @ tail" and "list_all message_ok ms" and "no_more tail"
    and "\<And>b. b \<in> S \<Longrightarrow> has_room b (length (received a ms (hub_broker h w) b)) w"
  shows "\<exists>w' c'. hub_onMessage h a w = Some (Inr w') \<and> hub_ok h S w' \<and> hub_broker h w' = broker_run a ms (hub_broker h w) \<and>
    (\<forall>b\<in>S. out_stream b w' = out_stream b w @ received a ms (hub_broker h w) b) \<and>
    conns w' a = Some c' \<and> contents (tc_input c') = tail"
  using hub_loop_run [OF assms, of "([], [], [])"] unfolding hub_onMessage_def by blast

lemma input_of: "length d < 1000 \<Longrightarrow> buf_inv (input_of d) \<and> contents (input_of d) = d"
  by (simp add: input_of_def buf_inv_def contents_def bufsize_def)

theorem hub_refines_broker_witness:
  "\<exists>w'. hub_onMessage 9 20 (example_hubw (concat (map write_message [Sub ''t'', Pub ''t'' ''hi'']))) = Some (Inr w') \<and>
     out_stream 20 w' = publish_message ''t'' ''hi'' \<and> out_stream 21 w' = publish_message ''t'' ''hi'' \<and>
     br_subs (hub_broker 9 w') ''t'' = {20, 21}"
proof -
  let ?ms = "[Sub ''t'', Pub ''t'' ''hi'']"
  let ?d = "concat (map write_message ?ms)"
  let ?w = "example_hubw ?d"
  have rec: "received 20 ?ms (hub_broker 9 ?w) b = publish_message ''t'' ''hi''" if "b \<in> {20, 21}" for b
    using that by auto
  have "length ?d = 18" by (simp add: publish_message_def subscribe_message_def kCRLF_def)
  then have inp: "buf_inv (input_of ?d)" "contents (input_of ?d) = ?d @ []" using input_of [of ?d] by simp_all
  have ok: "list_all message_ok ?ms" by (simp add: crlf_free_def kCRLF_def)
  have "no_more []" by (simp add: no_more_def parse_bytes_def crlf_free_def)
  moreover have "has_room b (length (received 20 ?ms (hub_broker 9 ?w) b)) ?w" if "b \<in> {20, 21}" for b
    using that unfolding rec [OF that]
    by (auto simp: has_room_def spare_def new_buffer_def bufsize_def kCheapPrepend_def kInitialSize_def publish_message_def kCRLF_def)
  ultimately have "\<exists>w' c'. hub_onMessage 9 20 ?w = Some (Inr w') \<and> hub_ok 9 {20, 21} w' \<and>
    hub_broker 9 w' = broker_run 20 ?ms (hub_broker 9 ?w) \<and>
    (\<forall>b\<in>{20, 21}. out_stream b w' = out_stream b ?w @ received 20 ?ms (hub_broker 9 ?w) b) \<and>
    conns w' 20 = Some c' \<and> contents (tc_input c') = []"
    using ok inp by (intro hub_refines_broker [OF example_hub_ok, where c = "hub_conn 1 5 ?d"]) simp_all
  moreover have "out_stream b ?w = []" if "b \<in> {20, 21}" for b using that by (auto simp: out_stream_def contents_new)
  ultimately show ?thesis using rec by auto
qed

text \<open>C38: the topics a connection subscribes to are put into a copy of its context, which stays as
  \<open>onConnection\<close> made it. So the hub, told that a subscriber has gone, unsubscribes it from
  nothing: it stays in the audience of its topic.\<close>

theorem subscriber_is_never_forgotten:
  fixes w :: "'z hubw_scheme"
  assumes "hub_ok h S w" and "a \<in> S" and "conns w a = Some c" and "tc_context c = Some {}"
    and "has_room a (length (receives a (Sub k) (hub_broker h w) a)) w"
  shows "\<exists>w' c'. hub_do h a (''sub'', k, content) w = Inr w' \<and> conns w' a = Some c' \<and> tc_context c' = Some {} \<and>
    a \<in> br_subs (hub_broker h w') k \<and>
    hub_onConnection h a (tc_mod a (setState KDisconnected) w') = Inr (tc_mod a (setState KDisconnected) w')"
proof -
  from subscribe_ok [OF assms(1,2,5)] obtain w' where
    w': "doSubscribe h a k w = Inr w'" "hub_broker h w' = broker_do a (Sub k) (hub_broker h w)"
    "passes S (receives a (Sub k) (hub_broker h w)) w w'" by (auto simp: carries_out_def)
  have "rel_option same_but_output (conns w a) (conns w' a)" using w'(3) unfolding passes_def by blast
  then obtain c' where c': "conns w' a = Some c'" "tc_context c' = Some {}"
    using assms(3,4) by (auto simp: option_rel_Some1 same_but_output_def)
  then have "hub_onConnection h a (tc_mod a (setState KDisconnected) w') = Inr (tc_mod a (setState KDisconnected) w')"
    by (simp add: hub_onConnection_def context_topics_def tc_get_def connected_def setState_def)
  then show ?thesis using w' c' by (intro exI [of _ w'] exI [of _ c']) (simp add: hub_do_def)
qed

theorem subscriber_is_never_forgotten_witness:
  "\<exists>w'. hub_do 9 20 (''sub'', ''x'', []) (example_hubw []) = Inr w' \<and> 20 \<in> br_subs (hub_broker 9 w') ''x'' \<and>
     hub_onConnection 9 20 (tc_mod 20 (setState KDisconnected) w') = Inr (tc_mod 20 (setState KDisconnected) w')"
proof -
  have "has_room 20 (length (receives 20 (Sub ''x'') (hub_broker 9 (example_hubw [])) 20)) (example_hubw [])"
    by (simp add: has_room_def spare_def new_buffer_def bufsize_def kCheapPrepend_def kInitialSize_def)
  with subscriber_is_never_forgotten [OF example_hub_ok, of 20 "[]" "hub_conn 1 5 []" "''x''" "[]"] show ?thesis by auto
qed

end
