(* ===== verification/Pubsub_Client.thy ===== *)
theory Pubsub_Client
  imports Hub
begin

text \<open>
  \<^verbatim>\<open>net/hub/pubsub.cc\<close>: the client of the hub, and the callbacks of its two programs,
  \<^verbatim>\<open>net/hub/pub.cc\<close> and \<^verbatim>\<open>net/hub/sub.cc\<close>. What the user's callbacks do is an argument:
  \<open>told\<close> for the connection callback, \<open>heard\<close> for the subscription callback.
\<close>

section \<open>The client\<close>

record ps_client =
  ps_loop :: nat
  ps_tcp :: nat
  ps_connectionCb :: "nat option"
  ps_subscribeCb :: "nat option"
  ps_conn :: "nat option"

record pubsubw = hubw +
  pubsubs :: "nat \<Rightarrow> ps_client option"

definition ps_get :: "nat \<Rightarrow> 'z pubsubw_scheme \<Rightarrow> ps_client res" where
  "ps_get p w = (case pubsubs w p of None \<Rightarrow> Inl UndefinedBehaviour | Some x \<Rightarrow> Inr x)"

definition ps_put :: "nat \<Rightarrow> ps_client \<Rightarrow> 'z pubsubw_scheme \<Rightarrow> 'z pubsubw_scheme" where
  "ps_put p x w = w\<lparr>pubsubs := (pubsubs w)(p \<mapsto> x)\<rparr>"

text \<open>\<open>cc\<close> and \<open>mc\<close> are the numbers of \<open>onConnection\<close> and \<open>onMessage\<close> of this client.\<close>

definition new_pubsub ::
  "nat \<Rightarrow> nat \<Rightarrow> nat \<Rightarrow> nat \<Rightarrow> nat \<Rightarrow> nat \<Rightarrow> inet_address \<Rightarrow> string \<Rightarrow> 'z pubsubw_scheme \<Rightarrow> 'z pubsubw_scheme" where
  "new_pubsub p k c cc mc l addr name w =
     ps_put p \<lparr>ps_loop = l, ps_tcp = k, ps_connectionCb = None, ps_subscribeCb = None, ps_conn = None\<rparr>
       (cl_mod k (cl_setMessageCallback (Some mc)) (cl_mod k (cl_setConnectionCallback (Some cc)) (new_client k c l addr name w)))"

definition ps_setConnectionCallback :: "nat option \<Rightarrow> ps_client \<Rightarrow> ps_client" where
  "ps_setConnectionCallback cb x = x\<lparr>ps_connectionCb := cb\<rparr>"

definition setSubscribeCallback :: "nat option \<Rightarrow> ps_client \<Rightarrow> ps_client" where
  "setSubscribeCallback cb x = x\<lparr>ps_subscribeCb := cb\<rparr>"

definition ps_connect :: "nat \<Rightarrow> nat \<Rightarrow> nat \<Rightarrow> 'z pubsubw_scheme \<Rightarrow> 'z pubsubw_scheme res" where
  "ps_connect p ch t w = bindR (ps_get p w) (\<lambda>x. client_connect (ps_tcp x) ch t w)"

definition ps_disconnect :: "nat \<Rightarrow> 'z pubsubw_scheme \<Rightarrow> 'z pubsubw_scheme res" where
  "ps_disconnect p w = bindR (ps_get p w) (\<lambda>x. client_disconnect (ps_tcp x) w)"

definition ps_onConnection ::
  "(nat \<Rightarrow> nat \<Rightarrow> 'z pubsubw_scheme \<Rightarrow> 'z pubsubw_scheme res) \<Rightarrow> nat \<Rightarrow> nat \<Rightarrow> 'z pubsubw_scheme \<Rightarrow> 'z pubsubw_scheme res" where
  "ps_onConnection told p a w = bindR (ps_get p w) (\<lambda>x. bindR (tc_get a w) (\<lambda>c.
     let w1 = ps_put p (x\<lparr>ps_conn := (if connected c then Some a else None)\<rparr>) w
     in case ps_connectionCb x of None \<Rightarrow> Inr w1 | Some cb \<Rightarrow> told cb p w1))"

definition ps_connected :: "nat \<Rightarrow> 'z pubsubw_scheme \<Rightarrow> bool res" where
  "ps_connected p w = bindR (ps_get p w) (\<lambda>x. case ps_conn x of None \<Rightarrow> Inr False
     | Some a \<Rightarrow> bindR (tc_get a w) (\<lambda>c. Inr (connected c)))"

definition ps_send :: "nat \<Rightarrow> string \<Rightarrow> 'z pubsubw_scheme \<Rightarrow> (bool \<times> 'z pubsubw_scheme) res" where
  "ps_send p message w = bindR (ps_connected p w) (\<lambda>up.
     if up then bindR (ps_get p w) (\<lambda>x. case ps_conn x of None \<Rightarrow> Inl UndefinedBehaviour
                  | Some a \<Rightarrow> bindR (tc_send a message w) (\<lambda>w'. Inr (True, w')))
     else Inr (False, w))"

definition ps_subscribe :: "nat \<Rightarrow> string \<Rightarrow> 'z pubsubw_scheme \<Rightarrow> 'z pubsubw_scheme res" where
  "ps_subscribe p topic w = bindR (ps_send p (''sub '' @ topic @ kCRLF) w) (\<lambda>(_, w'). Inr w')"

definition ps_unSubscribe :: "nat \<Rightarrow> string \<Rightarrow> 'z pubsubw_scheme \<Rightarrow> 'z pubsubw_scheme res" where
  "ps_unSubscribe p topic w = bindR (ps_send p (''unsub '' @ topic @ kCRLF) w) (\<lambda>(_, w'). Inr w')"

definition ps_publish :: "nat \<Rightarrow> string \<Rightarrow> string \<Rightarrow> 'z pubsubw_scheme \<Rightarrow> 'z pubsubw_scheme res" where
  "ps_publish p topic content w =
     bindR (ps_send p (''pub '' @ topic @ kCRLF @ content @ kCRLF) w) (\<lambda>(_, w'). Inr w')"

text \<open>One round of the loop of \<open>onMessage\<close>, and the loop; its strings are new in every round.\<close>

definition ps_round ::
  "(nat \<Rightarrow> string \<Rightarrow> string \<Rightarrow> timestamp \<Rightarrow> 'z pubsubw_scheme \<Rightarrow> 'z pubsubw_scheme res) \<Rightarrow> nat \<Rightarrow> nat \<Rightarrow> timestamp \<Rightarrow>
   'z pubsubw_scheme \<Rightarrow> (ParseResult \<times> 'z pubsubw_scheme) res" where
  "ps_round heard p a time w = bindR (ps_get p w) (\<lambda>x. bindR (tc_get a w) (\<lambda>c.
     bindR (parseMessage (tc_input c) ([], [], [])) (\<lambda>(r, input, cmd, topic, content).
       let w1 = tc_mod a (\<lambda>c. c\<lparr>tc_input := input\<rparr>) w
       in bindR (if r = KSuccess
                 then (if cmd = ''pub''
                       then (case ps_subscribeCb x of None \<Rightarrow> Inr w1 | Some cb \<Rightarrow> heard cb topic content time w1)
                       else Inr w1)
                 else if r = KError then tc_shutdown a w1 else Inr w1) (\<lambda>w2. Inr (r, w2)))))"

partial_function (option) ps_onMessage ::
  "(nat \<Rightarrow> string \<Rightarrow> string \<Rightarrow> timestamp \<Rightarrow> 'z pubsubw_scheme \<Rightarrow> 'z pubsubw_scheme res) \<Rightarrow> nat \<Rightarrow> nat \<Rightarrow> timestamp \<Rightarrow>
   'z pubsubw_scheme \<Rightarrow> 'z pubsubw_scheme res option" where
  "ps_onMessage heard p a time w =
     (case ps_round heard p a time w of
        Inl f \<Rightarrow> Some (Inl f)
      | Inr (r, w') \<Rightarrow> if r = KSuccess then ps_onMessage heard p a time w' else Some (Inr w'))"

section \<open>The programs\<close>

text \<open>
  \<open>connection\<close> of \<^verbatim>\<open>pub.cc\<close>, with its globals \<open>g_loop\<close>, \<open>g_topic\<close>, \<open>g_content\<close>, and of
  \<^verbatim>\<open>sub.cc\<close>, with \<open>g_topics\<close>.
\<close>

definition pub_connection :: "nat \<Rightarrow> string \<Rightarrow> string \<Rightarrow> nat \<Rightarrow> 'z pubsubw_scheme \<Rightarrow> 'z pubsubw_scheme res" where
  "pub_connection g_loop g_topic g_content p w = bindR (ps_connected p w) (\<lambda>up.
     if up then bindR (ps_publish p g_topic g_content w) (ps_disconnect p) else el_quit_now g_loop w)"

definition sub_connection :: "string list \<Rightarrow> nat \<Rightarrow> 'z pubsubw_scheme \<Rightarrow> 'z pubsubw_scheme res" where
  "sub_connection g_topics p w = bindR (ps_connected p w) (\<lambda>up.
     if up then foldR (ps_subscribe p) g_topics w else Inr w)"

section \<open>What a subscriber hears\<close>

lemma pubsubw_fields [simp]:
  "pubsubs (tc_mod a f w) = pubsubs w" "pubsubw.more (tc_mod a f w) = pubsubw.more w"
  by (simp_all add: tc_mod_def)

text \<open>A callback that writes down what it is called with, behind everything else in the state.\<close>

type_synonym heard_list = "(string \<times> string \<times> timestamp) list"

definition write_down :: "nat \<Rightarrow> string \<Rightarrow> string \<Rightarrow> timestamp \<Rightarrow> heard_list pubsubw_scheme \<Rightarrow> heard_list pubsubw_scheme res" where
  "write_down cb topic content time w = Inr (pubsubw.more_update (\<lambda>l. l @ [(topic, content, time)]) w)"

fun pubs :: "message list \<Rightarrow> (string \<times> string) list" where
  "pubs [] = []"
| "pubs (Pub k c # ms) = (k, c) # pubs ms"
| "pubs (_ # ms) = pubs ms"

definition at_time :: "timestamp \<Rightarrow> (string \<times> string) list \<Rightarrow> heard_list" where
  "at_time t = map (\<lambda>(k, c). (k, c, t))"

lemma more_fields [simp]:
  "conns (pubsubw.more_update f w) = conns w" "pubsubs (pubsubw.more_update f w) = pubsubs w"
  "pubsubw.more (pubsubw.more_update f w) = f (pubsubw.more w)"
  by simp_all

lemma ps_round_message:
  assumes "pubsubs w p = Some x" and "ps_subscribeCb x = Some cb" and "conns w a = Some c" and "buf_inv (tc_input c)"
    and "contents (tc_input c) = write_message m @ rest" and "message_ok m"
  shows "\<exists>w' b. ps_round write_down p a t w = Inr (KSuccess, w') \<and> pubsubs w' = pubsubs w \<and>
    pubsubw.more w' = pubsubw.more w @ at_time t (pubs [m]) \<and> conns w' = (conns w)(a \<mapsto> c\<lparr>tc_input := b\<rparr>) \<and>
    buf_inv b \<and> contents b = rest"
proof -
  let ?b = "consume rest (tc_input c)"
  note p = parse_written [OF assms(6,4,5), of "[]" "[]" "[]"]
  show ?thesis
    using p assms(1-3)
    by (cases m) (auto simp: ps_round_def ps_get_def tc_get_def write_down_def at_time_def intro!: exI [of _ ?b])
qed

lemma ps_hears:
  assumes "pubsubs w p = Some x" and "ps_subscribeCb x = Some cb" and "conns w a = Some c" and "buf_inv (tc_input c)"
    and "contents (tc_input c) = concat (map write_message ms) @ tail" and "list_all message_ok ms" and "parse_bytes tail = More"
  shows "\<exists>w' b. ps_onMessage write_down p a t w = Some (Inr w') \<and> pubsubs w' = pubsubs w \<and>
    pubsubw.more w' = pubsubw.more w @ at_time t (pubs ms) \<and> conns w' = (conns w)(a \<mapsto> c\<lparr>tc_input := b\<rparr>) \<and> contents b = tail"
  using assms
proof (induction ms arbitrary: w c)
  case Nil
  have idem: "tc_mod a (\<lambda>d. d\<lparr>tc_input := tc_input c\<rparr>) w = w" using Nil.prems(3) by (rule tc_mod_idem) simp
  then have "ps_round write_down p a t w = Inr (KContinue, w)"
    using Nil.prems parseMessage_contents [OF Nil.prems(4), of "[]" "[]" "[]"] by (simp add: ps_round_def ps_get_def tc_get_def)
  then have "ps_onMessage write_down p a t w = Some (Inr w)" by (subst ps_onMessage.simps) simp
  moreover have "conns w = (conns w)(a \<mapsto> c\<lparr>tc_input := tc_input c\<rparr>)" using Nil.prems(3) by (simp add: fun_upd_idem)
  ultimately show ?case using Nil.prems(5) by (intro exI [of _ w] exI [of _ "tc_input c"]) (simp add: at_time_def)
next
  case (Cons m ms)
  obtain u b where u: "ps_round write_down p a t w = Inr (KSuccess, u)" "pubsubs u = pubsubs w"
    "pubsubw.more u = pubsubw.more w @ at_time t (pubs [m])" "conns u = (conns w)(a \<mapsto> c\<lparr>tc_input := b\<rparr>)"
    "buf_inv b" "contents b = concat (map write_message ms) @ tail"
    using ps_round_message [OF Cons.prems(1-4), where m = m and t = t and rest = "concat (map write_message ms) @ tail"] Cons.prems(5,6) by auto
  have ua: "conns u a = Some (c\<lparr>tc_input := b\<rparr>)" "pubsubs u p = Some x" using u(2,4) Cons.prems(1) by simp_all
  have "\<exists>w' b'. ps_onMessage write_down p a t u = Some (Inr w') \<and> pubsubs w' = pubsubs u \<and>
    pubsubw.more w' = pubsubw.more u @ at_time t (pubs ms) \<and> conns w' = (conns u)(a \<mapsto> c\<lparr>tc_input := b'\<rparr>) \<and> contents b' = tail"
    using Cons.IH [OF ua(2) Cons.prems(2) ua(1)] Cons.prems(6,7) u(5,6) by (simp add: fun_upd_def)
  then obtain w' b' where w': "ps_onMessage write_down p a t u = Some (Inr w')" "pubsubs w' = pubsubs u"
    "pubsubw.more w' = pubsubw.more u @ at_time t (pubs ms)" "conns w' = (conns u)(a \<mapsto> c\<lparr>tc_input := b'\<rparr>)" "contents b' = tail"
    by blast
  have "ps_onMessage write_down p a t w = ps_onMessage write_down p a t u" using u(1) by (subst ps_onMessage.simps) simp
  moreover have "pubs (m # ms) = pubs [m] @ pubs ms" by (cases m) simp_all
  ultimately show ?case using w' u(2-4) by (intro exI [of _ w'] exI [of _ b']) (simp add: at_time_def)
qed

text \<open>What the broker has a connection receive is a sequence of messages.\<close>

fun delivery :: "nat \<Rightarrow> message \<Rightarrow> broker \<Rightarrow> nat \<Rightarrow> message list" where
  "delivery a (Pub k c) br b = (if b \<in> br_subs br k then [Pub k c] else [])"
| "delivery a (Sub k) br b = (case br_kept br k of Some c \<Rightarrow> if b = a then [Pub k c] else [] | None \<Rightarrow> [])"
| "delivery a (Unsub k) br b = []"

fun deliveries :: "nat \<Rightarrow> message list \<Rightarrow> broker \<Rightarrow> nat \<Rightarrow> message list" where
  "deliveries a [] br b = []"
| "deliveries a (m # ms) br b = delivery a m br b @ deliveries a ms (broker_do a m br) b"

definition kept_ok :: "broker \<Rightarrow> bool" where
  "kept_ok br \<longleftrightarrow> (\<forall>k c. br_kept br k = Some c \<longrightarrow> crlf_free k \<and> crlf_free c)"

lemma receives_delivery: "receives a m br b = concat (map write_message (delivery a m br b))"
  by (cases m) (auto split: option.splits)

lemma received_deliveries: "received a ms br b = concat (map write_message (deliveries a ms br b))"
  by (induction ms arbitrary: br) (auto simp: receives_delivery)

lemma kept_ok_do: "message_ok m \<Longrightarrow> kept_ok br \<Longrightarrow> kept_ok (broker_do a m br)"
  by (cases m) (auto simp: kept_ok_def)

lemma kept_ok_run: "list_all message_ok ms \<Longrightarrow> kept_ok br \<Longrightarrow> kept_ok (broker_run a ms br)"
  by (induction ms arbitrary: br) (simp_all add: kept_ok_do)

lemma deliveries_ok:
  "list_all message_ok ms \<Longrightarrow> kept_ok br \<Longrightarrow> list_all message_ok (deliveries a ms br b)"
proof (induction ms arbitrary: br)
  case (Cons m ms)
  have "list_all message_ok (delivery a m br b)"
    using Cons.prems by (cases m) (auto simp: kept_ok_def split: option.splits)
  then show ?case using Cons by (simp add: kept_ok_do)
qed simp

text \<open>
  A client at \<open>p\<close> with a subscription callback, and \<open>d\<close> in the input of its connection \<open>a\<close>: \<open>onMessage\<close> returns,
  the callback was called once for each \<open>pub\<close>, and nothing is left.
\<close>

definition listens :: "nat \<Rightarrow> nat \<Rightarrow> string \<Rightarrow> 'z pubsubw_scheme \<Rightarrow> bool" where
  "listens p a d w \<longleftrightarrow> (\<exists>x cb c. pubsubs w p = Some x \<and> ps_subscribeCb x = Some cb \<and> conns w a = Some c \<and>
     buf_inv (tc_input c) \<and> contents (tc_input c) = d)"

lemma ps_hears_all:
  assumes "listens p a (concat (map write_message ms)) w" and "list_all message_ok ms"
  shows "\<exists>w' c'. ps_onMessage write_down p a t w = Some (Inr w') \<and> pubsubw.more w' = pubsubw.more w @ at_time t (pubs ms) \<and>
    conns w' a = Some c' \<and> contents (tc_input c') = []"
proof -
  from assms(1) obtain x cb c where "pubsubs w p = Some x" "ps_subscribeCb x = Some cb" "conns w a = Some c"
    "buf_inv (tc_input c)" "contents (tc_input c) = concat (map write_message ms) @ []" by (auto simp: listens_def)
  moreover have "parse_bytes [] = More" by (simp add: parse_bytes_def crlf_free_def)
  ultimately show ?thesis using ps_hears [of w p x cb a c ms "[]" t] assms(2) by fastforce
qed

section \<open>Properties\<close>

definition subscriber :: ps_client where
  "subscriber = \<lparr>ps_loop = 0, ps_tcp = 7, ps_connectionCb = None, ps_subscribeCb = Some 3, ps_conn = Some 20\<rparr>"

definition example_pubsubw :: "string \<Rightarrow> 'b \<Rightarrow> 'b pubsubw_scheme" where
  "example_pubsubw d l = \<lparr>kernel = hub_kernel, sysLog = [], curTid = 1, threadOf = (\<lambda>_. 1),
     chans = [1 \<mapsto> new_channel 0 5, 2 \<mapsto> new_channel 0 6], loops = [0 \<mapsto> example_eventloop []], threadLoop = [1 \<mapsto> 0],
     tqs = (\<lambda>_. None), timers = (\<lambda>_. None), numCreated = 0, conns = [20 \<mapsto> hub_conn 1 5 d],
     acceptors = (\<lambda>_. None), servers = (\<lambda>_. None), connectors = (\<lambda>_. None), clients = (\<lambda>_. None), hubs = (\<lambda>_. None),
     pubsubs = [4 \<mapsto> subscriber], \<dots> = l\<rparr>"

lemma example_pubsubw_fields [simp]:
  "kernel (example_pubsubw d l) = hub_kernel" "sysLog (example_pubsubw d l) = []" "isInLoopThread k (example_pubsubw d l)"
  "chans (example_pubsubw d l) = [1 \<mapsto> new_channel 0 5, 2 \<mapsto> new_channel 0 6]" "loops (example_pubsubw d l) = [0 \<mapsto> example_eventloop []]"
  "conns (example_pubsubw d l) = [20 \<mapsto> hub_conn 1 5 d]" "pubsubs (example_pubsubw d l) = [4 \<mapsto> subscriber]"
  "pubsubw.more (example_pubsubw d l) = l" "sent fd (example_pubsubw d l) = []"
  by (simp_all add: example_pubsubw_def isInLoopThread_def sent_def)

text \<open>What a client says goes out on its connection: while the connection it was given is
  connected, \<open>publish\<close>, \<open>subscribe\<close> and \<open>unSubscribe\<close> append exactly the bytes of their message to
  its output; without a connection, or when it is not connected any more, they do nothing.\<close>

theorem client_says:
  assumes "recipients_ok S w" and "a \<in> S" and "pubsubs w p = Some x" and "conns w a = Some c"
    and "has_room a (length (write_message m)) w"
  defines "say \<equiv> (case m of Pub k content \<Rightarrow> ps_publish p k content | Sub k \<Rightarrow> ps_subscribe p k | Unsub k \<Rightarrow> ps_unSubscribe p k)"
  shows "\<exists>w1 w2 w3. ps_onConnection (\<lambda>_ _. Inr) p a w = Inr w1 \<and> say w1 = Inr w2 \<and>
    out_stream a w2 = out_stream a w @ write_message m \<and>
    ps_onConnection (\<lambda>_ _. Inr) p a (tc_mod a (setState KDisconnected) w) = Inr w3 \<and> say w3 = Inr w3"
proof -
  have say: "say v = bindR (ps_send p (write_message m) v) (\<lambda>(_, v'). Inr v')" for v
    by (cases m) (simp_all add: say_def ps_publish_def ps_subscribe_def ps_unSubscribe_def publish_message_def
        subscribe_message_def unsubscribe_message_def)
  let ?w1 = "ps_put p (x\<lparr>ps_conn := Some a\<rparr>) w"
  have c: "tc_state c = KConnected" using assms(1,2,4) by (auto simp: recipients_ok_def)
  have f: "conns ?w1 = conns w" "pubsubs ?w1 p = Some (x\<lparr>ps_conn := Some a\<rparr>)" "chans ?w1 = chans w" "loops ?w1 = loops w"
    "kernel ?w1 = kernel w" "sysLog ?w1 = sysLog w" "isInLoopThread l ?w1 = isInLoopThread l w" for l
    by (simp_all add: ps_put_def isInLoopThread_def)
  have "recipients_ok S ?w1"
  proof (rule recipients_ok_alike [OF assms(1)])
    show "conn_ok b ?w1" if "conn_ok b w" for b using that by (rule conn_ok_alike) (simp_all add: f)
  qed (simp_all add: f option.rel_refl)
  moreover have "has_room a (length (write_message m)) ?w1" using assms(5) f by (simp add: has_room_def)
  ultimately obtain w2 where w2: "tc_send a (write_message m) ?w1 = Inr w2" "out_stream a w2 = out_stream a ?w1 @ write_message m"
    using mail.post_one [OF _ assms(2)] assms(2) by (fastforce simp: mail.gets_def)
  have "out_stream a ?w1 = out_stream a w" using assms(4) f by (simp add: out_stream_def sent_def)
  moreover have "say ?w1 = Inr w2"
    using w2(1) f c assms(4) by (simp add: say ps_send_def ps_connected_def ps_get_def tc_get_def connected_def)
  moreover have "ps_onConnection (\<lambda>_ _. Inr) p a w = Inr ?w1"
    using assms(3,4) c by (simp add: ps_onConnection_def ps_get_def tc_get_def connected_def Let_def split: option.split)
  moreover let ?v = "tc_mod a (setState KDisconnected) w"
  let ?w3 = "ps_put p (x\<lparr>ps_conn := None\<rparr>) ?v"
  have "ps_onConnection (\<lambda>_ _. Inr) p a ?v = Inr ?w3"
    using assms(3,4) by (simp add: ps_onConnection_def ps_get_def tc_get_def connected_def setState_def Let_def split: option.split)
  moreover have "say ?w3 = Inr ?w3" by (simp add: say ps_send_def ps_connected_def ps_get_def ps_put_def)
  ultimately show ?thesis using w2(2) by auto
qed

theorem client_says_witness:
  "\<exists>w1 w2. ps_onConnection (\<lambda>_ _. Inr) 4 20 (example_pubsubw [] ()) = Inr w1 \<and> ps_subscribe 4 ''t'' w1 = Inr w2 \<and>
     out_stream 20 w2 = ''sub t'' @ kCRLF"
proof -
  let ?w = "example_pubsubw [] () :: pubsubw"
  have "conn_ok 20 ?w"
    by (simp add: conn_ok_def loop_ok_def usable_def example_eventloop_def pp_ok_def pp_new_def keys_def po.admissible_def
        new_channel_def valid_fd_def buf_inv_new contents_new isWriting_def kNoneEvent_def)
  moreover have "write_documented hub_kernel" by (simp add: write_documented_def hub_kernel_def ret_def)
  ultimately have "recipients_ok {20} ?w" by (simp add: recipients_ok_def)
  moreover have "has_room 20 (length (write_message (Sub ''t''))) ?w"
    by (simp add: has_room_def spare_def new_buffer_def bufsize_def kCheapPrepend_def kInitialSize_def subscribe_message_def kCRLF_def)
  ultimately show ?thesis
    using client_says [of "{20}" ?w 20 4 subscriber "hub_conn 1 5 []" "Sub ''t''"]
    by (auto simp: out_stream_def [of 20 ?w] contents_new subscribe_message_def)
qed

end
