(* ===== verification/Echo.thy ===== *)
theory Echo
  imports Pubsub_Client
begin

text \<open>
  \<^verbatim>\<open>net/EchoServer_test.cc\<close> and \<^verbatim>\<open>net/EchoClient_test.cc\<close>: a server that sends back what it
  receives, and clients that connect one after the other. The clients of the program are numbered
  in the order of the vector \<open>clients_\<close>, \<open>current\<close> is its global counter.
\<close>

section \<open>The server\<close>

record echo_server =
  es_loop :: nat
  es_server :: nat

record echo_client =
  ec_loop :: nat
  ec_client :: nat

record echow = pubsubw +
  echo_servers :: "nat \<Rightarrow> echo_server option"
  echo_clients :: "echo_client list"
  current :: int

definition es_get :: "nat \<Rightarrow> 'z echow_scheme \<Rightarrow> echo_server res" where
  "es_get e w = (case echo_servers w e of None \<Rightarrow> Inl UndefinedBehaviour | Some x \<Rightarrow> Inr x)"

text \<open>\<open>cc\<close> and \<open>mc\<close> are the numbers of \<open>onConnection\<close> and \<open>onMessage\<close> of this server.\<close>

definition new_echo_server ::
  "nat \<Rightarrow> nat \<Rightarrow> nat \<Rightarrow> nat \<Rightarrow> nat \<Rightarrow> nat \<Rightarrow> nat \<Rightarrow> inet_address \<Rightarrow> int \<Rightarrow> 'z echow_scheme \<Rightarrow> 'z echow_scheme res" where
  "new_echo_server e s a ch cc mc l addr ThreadNum w =
     bindR (new_server s a ch l addr ''EchoServer'' w) (\<lambda>w1. bindR (ts_get s w1) (\<lambda>x.
     bindR (ts_setThreadNum ThreadNum (ts_setMessageCallback (Some mc) (ts_setConnectionCallback (Some cc) x))) (\<lambda>x.
       Inr (ts_put s x (w1\<lparr>echo_servers := (echo_servers w1)(e \<mapsto> \<lparr>es_loop = l, es_server = s\<rparr>)\<rparr>)))))"

definition echo_start ::
  "('z echow_scheme \<Rightarrow> (nat \<times> 'z echow_scheme) res) \<Rightarrow> nat \<Rightarrow> 'z echow_scheme \<Rightarrow> 'z echow_scheme res" where
  "echo_start startLoop e w = bindR (es_get e w) (\<lambda>x. server_start startLoop (es_server x) w)"

definition echo_onConnection :: "nat \<Rightarrow> 'z netw_scheme \<Rightarrow> 'z netw_scheme res" where
  "echo_onConnection a w = tc_send a (''Hello'' @ [CHR 0x0A]) w"

definition echo_onMessage :: "nat \<Rightarrow> nat \<Rightarrow> 'z echow_scheme \<Rightarrow> 'z echow_scheme res" where
  "echo_onMessage e a w = bindR (tc_get a w) (\<lambda>c. bindR (retrieveAsString (tc_input c)) (\<lambda>(msg, input).
     let w1 = tc_mod a (\<lambda>c. c\<lparr>tc_input := input\<rparr>) w
     in bindR (if msg = ''exit'' @ [CHR 0x0A] then bindR (tc_send a (''bye'' @ [CHR 0x0A]) w1) (tc_shutdown a) else Inr w1) (\<lambda>w2.
        bindR (if msg = ''quit'' @ [CHR 0x0A] then bindR (es_get e w2) (\<lambda>x. el_quit_now (es_loop x) w2) else Inr w2)
          (tc_send a msg))))"

section \<open>The clients\<close>

definition new_echo_client :: "nat \<Rightarrow> nat \<Rightarrow> nat \<Rightarrow> nat \<Rightarrow> nat \<Rightarrow> inet_address \<Rightarrow> string \<Rightarrow> 'z echow_scheme \<Rightarrow> 'z echow_scheme" where
  "new_echo_client k c cc mc l addr name w =
     (let w1 = cl_mod k (cl_setConnectionCallback (Some cc)) (cl_mod k (cl_setMessageCallback (Some mc)) (new_client k c l addr name w))
      in w1\<lparr>echo_clients := echo_clients w1 @ [\<lparr>ec_loop = l, ec_client = k\<rparr>]\<rparr>)"

text \<open>\<open>ch\<close> and \<open>p\<close> are where \<open>connect()\<close> puts the channel and the timer it makes.\<close>

definition echo_client_connect :: "nat \<Rightarrow> nat \<Rightarrow> nat \<Rightarrow> 'z echow_scheme \<Rightarrow> 'z echow_scheme res" where
  "echo_client_connect i ch p w = (if i < length (echo_clients w) then client_connect (ec_client (echo_clients w ! i)) ch p w
     else Inl UndefinedBehaviour)"

definition echo_client_onConnection :: "nat \<Rightarrow> nat \<Rightarrow> nat \<Rightarrow> 'z echow_scheme \<Rightarrow> 'z echow_scheme res" where
  "echo_client_onConnection a ch p w = (if current w \<ge> 2 ^ 31 - 1 then Inl UndefinedBehaviour
     else let w1 = w\<lparr>current := current w + 1\<rparr>
       in if size_t (current w1) < int (length (echo_clients w1))
          then bindR (echo_client_connect (nat (current w1)) ch p w1) (tc_send a (''World'' @ [CHR 0x0A]))
          else Inr w1)"

definition echo_client_onMessage :: "nat \<Rightarrow> 'z netw_scheme \<Rightarrow> 'z netw_scheme res" where
  "echo_client_onMessage a w = bindR (tc_get a w) (\<lambda>c. bindR (retrieveAsString (tc_input c)) (\<lambda>(msg, input).
     Inr (tc_mod a (\<lambda>c. c\<lparr>tc_input := input\<rparr>) w)))"

end
