(* ===== verification/Program.thy ===== *)
theory Program
  imports Echo
begin

text \<open>
  The programs: which code a callback or a functor of the loop stands for, and the \<open>main\<close>
  functions of \<^verbatim>\<open>net/hub/hub.cc\<close>, \<^verbatim>\<open>net/hub/pub.cc\<close>, \<^verbatim>\<open>net/hub/sub.cc\<close> and
  \<^verbatim>\<open>net/EchoServer_test.cc\<close>. The other theories take the effect of a callback as an argument; here
  these arguments are the code of the other components, so that a loop of this theory runs the
  whole program. Code that never stops inside a handler is the fault \<open>Diverges\<close>.
\<close>

section \<open>Callbacks\<close>

text \<open>
  The \<open>boost::function\<close> objects that users hand to the library, by number. \<open>next_addr\<close> is the
  address that \<open>new\<close> gives out next, \<open>std_out\<close> what \<open>printf\<close> has written.
\<close>

datatype user_cb =
  HubConnection nat
| HubMessage nat
| PsConnection nat
| PsMessage nat
| PubConnection nat string string
| SubConnection "string list"
| SubMessage
| EchoConnection
| EchoMessage nat
| EchoClientConnection
| EchoClientMessage
| DefaultConnection
| DefaultMessage

record progw = echow +
  callbacks :: "nat \<Rightarrow> user_cb option"
  next_addr :: nat
  std_out :: string

definition new_addr :: "'z progw_scheme \<Rightarrow> nat \<times> 'z progw_scheme" where
  "new_addr w = (next_addr w, w\<lparr>next_addr := next_addr w + 1\<rparr>)"

definition printf :: "string \<Rightarrow> 'z progw_scheme \<Rightarrow> 'z progw_scheme" where
  "printf s w = w\<lparr>std_out := std_out w @ s\<rparr>"

definition returned :: "'w res option \<Rightarrow> 'w res" where
  "returned r = (case r of None \<Rightarrow> Inl Diverges | Some x \<Rightarrow> x)"

text \<open>The user's callbacks of a \<open>PubSubClient\<close>.\<close>

definition ps_told :: "nat \<Rightarrow> nat \<Rightarrow> 'z progw_scheme \<Rightarrow> 'z progw_scheme res" where
  "ps_told cb p w = (case callbacks w cb of
     Some (PubConnection g_loop g_topic g_content) \<Rightarrow> pub_connection g_loop g_topic g_content p w
   | Some (SubConnection g_topics) \<Rightarrow> sub_connection g_topics p w
   | _ \<Rightarrow> Inl UndefinedBehaviour)"

text \<open>\<open>%s\<close> of a \<open>c_str()\<close> ends at the first NUL.\<close>

definition c_str :: "string \<Rightarrow> string" where
  "c_str s = takeWhile (\<lambda>c. c \<noteq> CHR 0x00) s"

definition sub_message :: "string \<Rightarrow> string \<Rightarrow> timestamp \<Rightarrow> 'z progw_scheme \<Rightarrow> 'z progw_scheme" where
  "sub_message topic content receiveTime w = printf (c_str topic @ '': '' @ c_str content @ [CHR 0x0A]) w"

definition ps_heard :: "nat \<Rightarrow> string \<Rightarrow> string \<Rightarrow> timestamp \<Rightarrow> 'z progw_scheme \<Rightarrow> 'z progw_scheme res" where
  "ps_heard cb topic content time w = (case callbacks w cb of
     Some SubMessage \<Rightarrow> Inr (sub_message topic content time w)
   | _ \<Rightarrow> Inl UndefinedBehaviour)"

text \<open>The callbacks of a connection; the default ones only log.\<close>

definition call_connection :: "nat \<Rightarrow> nat \<Rightarrow> 'z progw_scheme \<Rightarrow> 'z progw_scheme res" where
  "call_connection cb a w = (case callbacks w cb of
     Some (HubConnection h) \<Rightarrow> hub_onConnection h a w
   | Some (PsConnection p) \<Rightarrow> ps_onConnection ps_told p a w
   | Some EchoConnection \<Rightarrow> echo_onConnection a w
   | Some EchoClientConnection \<Rightarrow>
       (let (ch, w1) = new_addr w; (p, w2) = new_addr w1 in echo_client_onConnection a ch p w2)
   | Some DefaultConnection \<Rightarrow> Inr w
   | _ \<Rightarrow> Inl UndefinedBehaviour)"

definition call_message :: "nat \<Rightarrow> nat \<Rightarrow> timestamp \<Rightarrow> 'z progw_scheme \<Rightarrow> 'z progw_scheme res" where
  "call_message cb a time w = (case callbacks w cb of
     Some (HubMessage h) \<Rightarrow> returned (hub_onMessage h a w)
   | Some (PsMessage p) \<Rightarrow> returned (ps_onMessage ps_heard p a time w)
   | Some (EchoMessage e) \<Rightarrow> echo_onMessage e a w
   | Some EchoClientMessage \<Rightarrow> echo_client_onMessage a w
   | Some DefaultMessage \<Rightarrow> Inr w
   | _ \<Rightarrow> Inl UndefinedBehaviour)"

definition call_close :: "close_cb \<Rightarrow> nat \<Rightarrow> 'z progw_scheme \<Rightarrow> 'z progw_scheme res" where
  "call_close cb a w = (case cb of
     CloseServer s \<Rightarrow> ts_removeConnection s a w
   | CloseClient k \<Rightarrow> (let (ch, w1) = new_addr w; (p, w2) = new_addr w1 in cl_removeConnection k ch p a w2))"

definition the_hooks :: "'z progw_scheme hooks" where
  "the_hooks = \<lparr>on_connection = call_connection, on_message = call_message, on_close = call_close\<rparr>"

section \<open>Functors and events\<close>

text \<open>No program here sets a write-complete callback or a functor of its own.\<close>

definition call_functor :: "functor_t \<Rightarrow> 'z progw_scheme \<Rightarrow> 'z progw_scheme res" where
  "call_functor fn w = (case fn of
     FnAddTimer q p \<Rightarrow> addTimerInLoop q p w
   | FnCancelTimer q i \<Rightarrow> cancelInLoop q i w
   | FnListen a \<Rightarrow> ac_listen a w
   | FnConnEstablished a \<Rightarrow> connectionEstablished the_hooks a w
   | FnConnDestroyed a \<Rightarrow> connectionDestroyed the_hooks a w
   | FnRemoveConnection s a \<Rightarrow> removeConnectionInLoop s a w
   | FnSend a message \<Rightarrow> sendInLoop a message w
   | FnShutdown a \<Rightarrow> shutdownInLoop a w
   | FnWriteComplete a \<Rightarrow> Inl UndefinedBehaviour
   | FnConnectorStart c \<Rightarrow> (let (ch, w1) = new_addr w; (p, w2) = new_addr w1 in startInLoop c ch p w2)
   | FnConnectorReset c \<Rightarrow> resetChannel c w
   | FnUser n \<Rightarrow> Inl UndefinedBehaviour)"

definition accepted :: "nat \<Rightarrow> int \<Rightarrow> inet_address \<Rightarrow> 'z progw_scheme \<Rightarrow> 'z progw_scheme res" where
  "accepted s sockfd peer w = (let (a, w1) = new_addr w; (ch, w2) = new_addr w1
     in ts_newConnection the_hooks a ch s sockfd peer w2)"

definition arrived :: "nat \<Rightarrow> int \<Rightarrow> 'z progw_scheme \<Rightarrow> 'z progw_scheme res" where
  "arrived k sockfd w = (let (a, w1) = new_addr w; (ch, w2) = new_addr w1 in cl_newConnection the_hooks a ch k sockfd w2)"

definition call_event :: "chan_cb \<Rightarrow> timestamp \<Rightarrow> 'z progw_scheme \<Rightarrow> 'z progw_scheme res" where
  "call_event cb time w = (case cb of
     CbTimerQueueRead q \<Rightarrow> tq_handleRead call_functor q w
   | CbWakeupRead l \<Rightarrow> el_handleRead l w
   | CbAcceptorRead a \<Rightarrow> ac_handleRead accepted a w
   | CbConnRead a \<Rightarrow> handleRead the_hooks a time w
   | CbConnWrite a \<Rightarrow> handleWrite a w
   | CbConnClose a \<Rightarrow> handleClose the_hooks a w
   | CbConnError a \<Rightarrow> handleError a w
   | CbConnectorWrite c \<Rightarrow> (let (p, w1) = new_addr w in co_handleWrite arrived c p w1)
   | CbConnectorError c \<Rightarrow> (let (p, w1) = new_addr w in co_handleError c p w1)
   | CbUser n \<Rightarrow> Inl UndefinedBehaviour)"

text \<open>One iteration of the loop of a program, and the loop.\<close>

definition iteration :: "nat \<Rightarrow> 'z progw_scheme \<Rightarrow> 'z progw_scheme res" where
  "iteration l w = loop_iteration call_functor call_event l w"

definition run_loop :: "nat \<Rightarrow> 'z progw_scheme \<Rightarrow> 'z progw_scheme res option" where
  "run_loop l w = el_loop call_functor call_event l w"

section \<open>Command lines\<close>

text \<open>
  \<open>atoi\<close> of the C library: blanks, a sign and the digits up to the first other character; a
  value that does not fit an \<open>int\<close> is undefined.
\<close>

definition atoi :: "string \<Rightarrow> int res" where
  "atoi s = (let s1 = dropWhile (\<lambda>c. c \<in> {CHR '' '', CHR 0x09, CHR 0x0A, CHR 0x0B, CHR 0x0C, CHR 0x0D}) s;
       neg = (s1 \<noteq> [] \<and> hd s1 = CHR ''-'');
       s2 = (if s1 \<noteq> [] \<and> hd s1 \<in> {CHR ''-'', CHR ''+''} then tl s1 else s1);
       n = int (decimal_value (takeWhile is_digit s2)); i = (if neg then - n else n)
     in if - (2 ^ 31) \<le> i \<and> i < 2 ^ 31 then Inr i else Inl UndefinedBehaviour)"

definition port_of :: "string \<Rightarrow> 16 word res" where
  "port_of s = bindR (atoi s) (\<lambda>i. Inr (word_of_int i))"

text \<open>\<open>ip:port\<close>, cut at the first colon; \<open>None\<close> when there is no colon.\<close>

definition host_port :: "string \<Rightarrow> (string \<times> 16 word res) option" where
  "host_port s = (if CHR '':'' \<in> set s
     then Some (takeWhile (\<lambda>c. c \<noteq> CHR '':'') s, port_of (tl (dropWhile (\<lambda>c. c \<noteq> CHR '':'') s))) else None)"

section \<open>The programs\<close>

text \<open>
  A program takes the addresses of its objects one after the other from \<open>next_addr\<close>; \<open>e\<close> and \<open>ea\<close>
  are what lies past the end of the timer sets (see \<open>new_event_loop\<close>). Of each \<open>main\<close> the model
  goes as far as the return of \<open>loop()\<close>; the destructors that follow are left out.
\<close>

definition new_addrs :: "nat \<Rightarrow> 'z progw_scheme \<Rightarrow> nat \<times> 'z progw_scheme" where
  "new_addrs n w = (next_addr w, w\<lparr>next_addr := next_addr w + n\<rparr>)"

definition set_callback :: "nat \<Rightarrow> user_cb \<Rightarrow> 'z progw_scheme \<Rightarrow> 'z progw_scheme" where
  "set_callback n cb w = w\<lparr>callbacks := (callbacks w)(n \<mapsto> cb)\<rparr>"

definition main_loop :: "bool \<Rightarrow> timestamp \<times> nat \<Rightarrow> nat \<times> int \<Rightarrow> 'z progw_scheme \<Rightarrow> (nat \<times> 'z progw_scheme) res" where
  "main_loop summer_poll e ea w = (let (l, w1) = new_addrs 4 w
     in bindR (new_event_loop summer_poll l (l + 1) (l + 2) (l + 3) e ea w1) (\<lambda>w2. Inr (l, w2)))"

definition then_loop :: "(nat \<times> 'z progw_scheme) res \<Rightarrow> 'z progw_scheme res option" where
  "then_loop r = (case r of Inl f \<Rightarrow> Some (Inl f) | Inr (l, w) \<Rightarrow> run_loop l w)"

text \<open>No program but the echo server has threads.\<close>

definition no_threads :: "'w \<Rightarrow> (nat \<times> 'w) res" where
  "no_threads w = Inl UndefinedBehaviour"

definition hub_setup :: "bool \<Rightarrow> timestamp \<times> nat \<Rightarrow> nat \<times> int \<Rightarrow> string \<Rightarrow> 'z progw_scheme \<Rightarrow> (nat \<times> 'z progw_scheme) res" where
  "hub_setup summer_poll e ea port_arg w = bindR (main_loop summer_poll e ea w) (\<lambda>(l, w1).
     bindR (port_of port_arg) (\<lambda>port. let (h, w2) = new_addrs 6 w1 in
       bindR (new_hub h (h + 1) (h + 2) (h + 3) (h + 4) (h + 5) l (inet_any port)
                (set_callback (h + 4) (HubConnection h) (set_callback (h + 5) (HubMessage h) w2))) (\<lambda>w3.
       bindR (hub_start no_threads h w3) (\<lambda>w4. Inr (l, w4)))))"

definition hub_main ::
  "bool \<Rightarrow> timestamp \<times> nat \<Rightarrow> nat \<times> int \<Rightarrow> string \<Rightarrow> string list \<Rightarrow> 'z progw_scheme \<Rightarrow> 'z progw_scheme res option" where
  "hub_main summer_poll e ea argv0 args w = (case args of
     [] \<Rightarrow> Some (Inr (printf (''usage:'' @ argv0 @ '' port'' @ [CHR 0x0A]) w))
   | port_arg # _ \<Rightarrow> then_loop (hub_setup summer_poll e ea port_arg w))"

text \<open>
  A \<open>PubSubClient\<close> that is set up and told to connect. The new objects are the client \<open>p\<close>, its
  \<open>TcpClient\<close> and connector, the numbers of the callbacks, and the channel and timer of the attempt
  to connect.
\<close>

definition pubsub_new :: "nat \<Rightarrow> nat \<Rightarrow> inet_address \<Rightarrow> string \<Rightarrow> 'z progw_scheme \<Rightarrow> 'z progw_scheme" where
  "pubsub_new p l peerAddr name w = new_pubsub p (p + 1) (p + 2) (p + 3) (p + 4) l peerAddr name
     (set_callback (p + 3) (PsConnection p) (set_callback (p + 4) (PsMessage p) w))"

text \<open>A client program with a loop of its own and the given callbacks.\<close>

definition pubsub_setup ::
  "bool \<Rightarrow> timestamp \<times> nat \<Rightarrow> nat \<times> int \<Rightarrow> string \<Rightarrow> 16 word \<Rightarrow> string \<Rightarrow> (nat \<Rightarrow> user_cb) \<Rightarrow> user_cb option \<Rightarrow>
   'z progw_scheme \<Rightarrow> (nat \<times> 'z progw_scheme) res" where
  "pubsub_setup summer_poll e ea ip port name told heard w = bindR (main_loop summer_poll e ea w) (\<lambda>(l, w1).
     let peerAddr = inet_from ip port; (p, w2) = new_addrs 9 w1;
       w3 = pubsub_new p l peerAddr name
              (set_callback (p + 5) (told l) (case heard of None \<Rightarrow> w2 | Some cb \<Rightarrow> set_callback (p + 6) cb w2))
     in bindR (ps_get p w3) (\<lambda>x.
          let x1 = ps_setConnectionCallback (Some (p + 5)) x;
              x2 = (if heard = None then x1 else setSubscribeCallback (Some (p + 6)) x1)
          in bindR (ps_connect p (p + 7) (p + 8) (ps_put p x2 w3)) (\<lambda>w4. Inr (l, w4))))"

text \<open>
  With the content \<open>-\<close> the publisher's loop runs in a thread of its own, and the lines of the
  standard input are published from the main thread. \<open>startLoop\<close> is \<open>EventLoopThread::startLoop\<close>;
  \<open>meanwhile i\<close> is what the thread of the loop does before the main thread's call number \<open>i\<close>.
\<close>

fun publish_lines ::
  "(nat \<Rightarrow> 'z progw_scheme \<Rightarrow> 'z progw_scheme res) \<Rightarrow> nat \<Rightarrow> string \<Rightarrow> string list \<Rightarrow> nat \<Rightarrow> 'z progw_scheme \<Rightarrow>
   'z progw_scheme res" where
  "publish_lines meanwhile p g_topic [] i w = bindR (meanwhile i w) (ps_disconnect p)"
| "publish_lines meanwhile p g_topic (line # ls) i w = bindR (meanwhile i w) (\<lambda>w1.
     bindR (ps_publish p g_topic line w1) (publish_lines meanwhile p g_topic ls (i + 1)))"

definition publish_stdin ::
  "('z progw_scheme \<Rightarrow> (nat \<times> 'z progw_scheme) res) \<Rightarrow> (nat \<Rightarrow> 'z progw_scheme \<Rightarrow> 'z progw_scheme res) \<Rightarrow> string list \<Rightarrow>
   string \<Rightarrow> 16 word \<Rightarrow> string \<Rightarrow> 'z progw_scheme \<Rightarrow> 'z progw_scheme res" where
  "publish_stdin startLoop meanwhile std_in ip port g_topic w = (let peerAddr = inet_from ip port
     in bindR (startLoop w) (\<lambda>(l, w1). let (p, w2) = new_addrs 9 w1
        in bindR (ps_connect p (p + 7) (p + 8) (pubsub_new p l peerAddr ''pubClient'' w2))
             (publish_lines meanwhile p g_topic std_in 0)))"

definition pub_usage :: "string \<Rightarrow> string" where
  "pub_usage argv0 = ''usage:'' @ argv0 @ '' ip:port topic - '' @ [CHR 0x0A] @ ''usage:'' @ argv0 @ '' ip:port topic content '' @ [CHR 0x0A]"

definition pub_main ::
  "bool \<Rightarrow> timestamp \<times> nat \<Rightarrow> nat \<times> int \<Rightarrow> ('z progw_scheme \<Rightarrow> (nat \<times> 'z progw_scheme) res) \<Rightarrow>
   (nat \<Rightarrow> 'z progw_scheme \<Rightarrow> 'z progw_scheme res) \<Rightarrow> string list \<Rightarrow> string \<Rightarrow> string list \<Rightarrow> 'z progw_scheme \<Rightarrow>
   'z progw_scheme res option" where
  "pub_main summer_poll e ea startLoop meanwhile std_in argv0 args w = (case args of
     [hostport, g_topic, g_content] \<Rightarrow>
       (case host_port hostport of
          None \<Rightarrow> Some (Inr (printf (''usage: '' @ argv0 @ '' ip:port topic content'') w))
        | Some (ip, r) \<Rightarrow>
            (case r of Inl f \<Rightarrow> Some (Inl f) | Inr port \<Rightarrow>
              if g_content = ''-'' then Some (publish_stdin startLoop meanwhile std_in ip port g_topic w)
              else then_loop (pubsub_setup summer_poll e ea ip port ''pubClient'' (\<lambda>l. PubConnection l g_topic g_content) None w)))
   | _ \<Rightarrow> Some (Inr (printf (pub_usage argv0) w)))"

definition sub_usage :: "string \<Rightarrow> string" where
  "sub_usage argv0 = ''usage:'' @ argv0 @ '' ip:port topic1 topic2 ...'' @ [CHR 0x0A]"

definition sub_main ::
  "bool \<Rightarrow> timestamp \<times> nat \<Rightarrow> nat \<times> int \<Rightarrow> string \<Rightarrow> string list \<Rightarrow> 'z progw_scheme \<Rightarrow> 'z progw_scheme res option" where
  "sub_main summer_poll e ea argv0 args w = (case args of
     hostport # t # ts \<Rightarrow>
       (case host_port hostport of
          None \<Rightarrow> Some (Inr (printf (sub_usage argv0) w))
        | Some (ip, r) \<Rightarrow>
            (case r of Inl f \<Rightarrow> Some (Inl f) | Inr port \<Rightarrow>
              then_loop (pubsub_setup summer_poll e ea ip port ''subClient'' (\<lambda>l. SubConnection (t # ts)) (Some SubMessage) w)))
   | _ \<Rightarrow> Some (Inr (printf (sub_usage argv0) w)))"

definition echo_server_main ::
  "bool \<Rightarrow> timestamp \<times> nat \<Rightarrow> nat \<times> int \<Rightarrow> ('z progw_scheme \<Rightarrow> (nat \<times> 'z progw_scheme) res) \<Rightarrow> string list \<Rightarrow>
   'z progw_scheme \<Rightarrow> 'z progw_scheme res option" where
  "echo_server_main summer_poll e ea startLoop args w =
     then_loop (bindR (case args of [] \<Rightarrow> Inr 0 | n # _ \<Rightarrow> atoi n) (\<lambda>ThreadNum.
       bindR (main_loop summer_poll e ea w) (\<lambda>(l, w1). let (s, w2) = new_addrs 6 w1 in
       bindR (new_echo_server s (s + 1) (s + 2) (s + 3) (s + 4) (s + 5) l (inet_any 2016) ThreadNum
                (set_callback (s + 4) EchoConnection (set_callback (s + 5) (EchoMessage s) w2))) (\<lambda>w3.
       bindR (echo_start startLoop s w3) (\<lambda>w4. Inr (l, w4))))))"

fun new_echo_clients :: "nat \<Rightarrow> nat \<Rightarrow> nat \<Rightarrow> inet_address \<Rightarrow> 'z progw_scheme \<Rightarrow> 'z progw_scheme" where
  "new_echo_clients 0 i l peerAddr w = w"
| "new_echo_clients (Suc n) i l peerAddr w = (let (k, w1) = new_addrs 4 w
     in new_echo_clients n (i + 1) l peerAddr (new_echo_client k (k + 1) (k + 2) (k + 3) l peerAddr
          (snprintf 32 (''EchoClient'' @ decimal (i + 1)))
          (set_callback (k + 2) EchoClientConnection (set_callback (k + 3) EchoClientMessage w1))))"

text \<open>A negative number of clients makes \<open>reserve\<close> throw.\<close>

definition echo_client_main ::
  "bool \<Rightarrow> timestamp \<times> nat \<Rightarrow> nat \<times> int \<Rightarrow> string \<Rightarrow> string list \<Rightarrow> 'z progw_scheme \<Rightarrow> 'z progw_scheme res option" where
  "echo_client_main summer_poll e ea argv0 args w = (case args of
     [] \<Rightarrow> Some (Inr (printf (''usage:'' @ argv0 @ '' host_ip [current#]'') w))
   | ip # rest \<Rightarrow> then_loop (bindR (case rest of [] \<Rightarrow> Inr 1 | n # _ \<Rightarrow> atoi n) (\<lambda>n.
       if n < 0 then Inl CppException
       else bindR (main_loop summer_poll e ea w) (\<lambda>(l, w1). 
         let peerAddr = inet_from ip 2016; w2 = new_echo_clients (nat n) 0 l peerAddr w1; (ch, w3) = new_addrs 2 w2
         in bindR (echo_client_connect (nat (current w3)) ch (ch + 1) w3) (\<lambda>w4. Inr (l, w4))))))"

end
