(* ===== verification/Frames.thy ===== *)
theory Frames
  imports Program
begin

text \<open>
  What the operations of a program leave alone: who has called \<open>quit()\<close>, the state of every
  connection, the servers and the callbacks. With it, a whole program is followed through its loop:
  a publisher (\<^verbatim>\<open>net/hub/pub.cc\<close>) is never told that its connection has ended, so it never
  calls \<open>quit()\<close> and never returns.
\<close>

section \<open>The view\<close>

definition view ::
  "'z progw_scheme \<Rightarrow> (nat \<Rightarrow> bool option) \<times> (nat \<Rightarrow> conn_state option) \<times> (nat \<Rightarrow> tcp_server option) \<times>
     (nat \<Rightarrow> acceptor option) \<times> (nat \<Rightarrow> user_cb option)" where
  "view w = (\<lambda>l. map_option el_quit (loops w l), \<lambda>a. map_option tc_state (conns w a), servers w, acceptors w, callbacks w)"

named_theorems views \<open>operations that do not change the view\<close>

lemma view_fields [simp]:
  fixes w :: "'z progw_scheme"
  shows "view (snd (sys call w)) = view w" "view (ch_put c ch w) = view w" "view (tq_put a q w) = view w"
    "view (tm_put p t w) = view w" "view (co_mod c f w) = view w" "view (cl_mod k g w) = view w"
    "view (ps_put p x w) = view w" "view (hb_put h y w) = view w" "view (snd (ts_now w)) = view w"
    "view (snd (new_addr w)) = view w" "view (w\<lparr>timers := m\<rparr>) = view w" "view (w\<lparr>numCreated := n\<rparr>) = view w"
    "view (w\<lparr>chans := cs\<rparr>) = view w" "view (printf s w) = view w"
  by (simp_all add: view_def sys_def ch_put_def tq_put_def tm_put_def co_mod_def cl_mod_def ps_put_def hb_put_def ts_now_def
    new_addr_def printf_def Let_def)

lemma view_el_mod [simp]: "(\<And>e. el_quit (f e) = el_quit e) \<Longrightarrow> view (el_mod l f w) = view (w :: 'z progw_scheme)"
  by (auto simp: view_def el_mod_def fun_eq_iff option.map_comp comp_def)

lemma view_tc_mod [simp]: "(\<And>c. tc_state (f c) = tc_state c) \<Longrightarrow> view (tc_mod a f w) = view (w :: 'z progw_scheme)"
  by (auto simp: view_def tc_mod_def fun_eq_iff option.map_comp comp_def)

lemma set_poller_quit [simp]: "el_quit (set_poller p e) = el_quit e"
  by (simp add: set_poller_def)

lemma view_heap: "heapw.more w' = heapw.more w \<Longrightarrow> view w' = view (w :: 'z progw_scheme)"
  by (cases w; cases w') (simp add: view_def)

lemma view_frame: "heap_frame w w' \<Longrightarrow> view w' = view (w :: 'z progw_scheme)"
  by (rule view_heap) (simp add: heap_frame_def)

lemmas view_po [views] = po_frame [THEN view_frame]

lemmas run_simps = bindR_eq_Inr case_prod_beta Let_def

section \<open>The loop and its channels\<close>

lemma view_events [views]:
  fixes w w' :: "'z progw_scheme"
  shows "el_updateChannel l c w = Inr w' \<Longrightarrow> view w' = view w"
    "el_removeChannel l c w = Inr w' \<Longrightarrow> view w' = view w"
  by (auto simp: el_updateChannel_def el_removeChannel_def run_simps inLoopThread_def split: if_splits dest!: views)

lemma view_update [views]: "ch_update c w = Inr w' \<Longrightarrow> view w' = view (w :: 'z progw_scheme)"
  by (auto simp: ch_update_def run_simps dest!: views)

lemma view_enable [views]:
  fixes w w' :: "'z progw_scheme"
  shows "enableReading c w = Inr w' \<Longrightarrow> view w' = view w" "enableWriting c w = Inr w' \<Longrightarrow> view w' = view w"
    "disableWriting c w = Inr w' \<Longrightarrow> view w' = view w" "disableAll c w = Inr w' \<Longrightarrow> view w' = view w"
  by (auto simp: enableReading_def enableWriting_def disableWriting_def disableAll_def run_simps dest!: views)

lemma view_wakeup [views]:
  fixes w w' :: "'z progw_scheme"
  shows "wakeup l w = Inr w' \<Longrightarrow> view w' = view w" "el_handleRead l w = Inr w' \<Longrightarrow> view w' = view w"
  by (auto simp: wakeup_def el_handleRead_def run_simps)

lemma view_queueInLoop [views]: "queueInLoop l fn w = Inr w' \<Longrightarrow> view w' = view (w :: 'z progw_scheme)"
  by (auto simp: queueInLoop_def run_simps split: if_splits dest!: views)

lemma view_runInLoop:
  fixes w w' :: "'z progw_scheme"
  assumes "runInLoop l fn body w = Inr w'"
  shows "view w' = view w \<or> body w = Inr w'"
  using assms by (auto simp: runInLoop_def run_simps split: if_splits dest!: views)

lemma po_poll_frame: "po_poll t active p w = Inr (now, active', p', w') \<Longrightarrow> heapw.more w' = heapw.more w"
proof -
  have put: "heapw.more (ch_put c ch v) = heapw.more v" for c ch and v :: "'a heapw_scheme" by (simp add: ch_put_def)
  have s: "heapw.more (snd (sys call v)) = heapw.more v" "heapw.more (snd (ts_now v)) = heapw.more v" for call and v :: "'a heapw_scheme"
    by (simp_all add: sys_def ts_now_def Let_def)
  have pp: "pp_fillActiveChannels m pfds n acts v = Inr (acts', v') \<Longrightarrow> heapw.more v' = heapw.more v"
    for m pfds n acts acts' and v v' :: "'a heapw_scheme"
    by (induction pfds arbitrary: n acts v) (auto simp: run_simps put split: if_splits option.splits)
  have ep: "foldR (ep_activate q) evs (acts, v) = Inr (acts', v') \<Longrightarrow> heapw.more v' = heapw.more v"
    for q evs acts acts' and v v' :: "'a heapw_scheme"
    by (induction evs arbitrary: acts v) (auto simp: ep_activate_def run_simps put)
  show "po_poll t active p w = Inr (now, active', p', w') \<Longrightarrow> ?thesis"
    by (cases p) (auto simp: pp_poll_def ep_poll_def ep_fillActiveChannels_def run_simps s split: if_splits dest!: pp ep)
qed

lemma view_poll [views]: "po_poll t active p w = Inr (now, active', p', w') \<Longrightarrow> view w' = view (w :: 'z progw_scheme)"
  by (rule view_heap) (rule po_poll_frame)

section \<open>Timers\<close>

lemma view_resetTimerfd [views]: "resetTimerfd fd t w = Inr w' \<Longrightarrow> view w' = view (w :: 'z progw_scheme)"
  by (auto simp: resetTimerfd_def run_simps)

lemma view_tq_insert [views]: "tq_insert a p w = Inr (b, w') \<Longrightarrow> view w' = view (w :: 'z progw_scheme)"
  by (auto simp: tq_insert_def tq_loop_thread_def inLoopThread_def run_simps split: if_splits)

lemma view_addTimerInLoop [views]: "addTimerInLoop a p w = Inr w' \<Longrightarrow> view w' = view (w :: 'z progw_scheme)"
  by (auto simp: addTimerInLoop_def tq_loop_thread_def inLoopThread_def run_simps split: if_splits dest!: views)

lemma view_cancelInLoop [views]: "cancelInLoop a i w = Inr w' \<Longrightarrow> view w' = view (w :: 'z progw_scheme)"
  by (auto simp: cancelInLoop_def tq_loop_thread_def inLoopThread_def run_simps split: if_splits)

lemma view_new_timer [simp]: "view (new_timer p cb e i w) = view (w :: 'z progw_scheme)"
  by (simp add: new_timer_def case_prod_beta)

lemma view_addTimer [views]: "addTimer a p cb e i w = Inr (x, w') \<Longrightarrow> view w' = view (w :: 'z progw_scheme)"
  by (auto simp: addTimer_def run_simps dest!: view_runInLoop views)

lemma view_restart [views]: "restart now p w = Inr w' \<Longrightarrow> view w' = view (w :: 'z progw_scheme)"
  by (auto simp: restart_def run_simps split: if_splits)

lemma view_reset_one [views]: "reset_one a now it w = Inr w' \<Longrightarrow> view w' = view (w :: 'z progw_scheme)"
  by (auto simp: reset_one_def run_simps split: if_splits dest!: views)

lemma view_foldR: "(\<And>x v v'. f x v = Inr v' \<Longrightarrow> view v' = view v) \<Longrightarrow> foldR f xs w = Inr w' \<Longrightarrow> view w' = view (w :: 'z progw_scheme)"
  by (induction xs arbitrary: w) (auto simp: run_simps)

lemma view_resets [views]: "foldR (reset_one a now) es w = Inr w' \<Longrightarrow> view w' = view (w :: 'z progw_scheme)"
  by (erule view_foldR [rotated]) (rule view_reset_one)

lemma view_reset_expired [views]: "reset_expired a es now w = Inr w' \<Longrightarrow> view w' = view (w :: 'z progw_scheme)"
  by (auto simp: reset_expired_def run_simps split: if_splits dest!: views)

lemma view_erases [views]: "foldR (erase_active a) es w = Inr w' \<Longrightarrow> view w' = view (w :: 'z progw_scheme)"
  by (erule view_foldR [rotated]) (auto simp: erase_active_def run_simps)

lemma view_getExpired [views]: "getExpired a now w = Inr (es, w') \<Longrightarrow> view w' = view (w :: 'z progw_scheme)"
  by (auto simp: getExpired_def run_simps dest!: views)

section \<open>Connections\<close>

lemma view_sockets [views]:
  fixes w w' :: "'z progw_scheme"
  shows "shutdownWrite fd w = Inr w' \<Longrightarrow> view w' = view w" "sk_close fd w = Inr w' \<Longrightarrow> view w' = view w"
    "createNonblockingOrDie w = Inr (n, w') \<Longrightarrow> view w' = view w"
  by (auto simp: shutdownWrite_def sk_close_def createNonblockingOrDie_def setNonBlockAndCloseOnExec_def run_simps split: if_splits)

lemma view_socket_calls [simp]:
  fixes w :: "'z progw_scheme"
  shows "view (snd (sk_connect fd addr w)) = view w" "view (snd (getSocketError fd w)) = view w"
    "view (snd (getLocalAddr fd w)) = view w" "view (snd (getPeerAddr fd w)) = view w" "view (snd (isSelfConnect fd w)) = view w"
  by (auto simp: sk_connect_def getSocketError_def getLocalAddr_def getPeerAddr_def isSelfConnect_def run_simps)

lemma view_queueWriteComplete [views]: "queueWriteComplete a c w = Inr w' \<Longrightarrow> view w' = view (w :: 'z progw_scheme)"
  by (auto simp: queueWriteComplete_def split: if_splits dest!: views)

lemma in_loop_Inr [simp]: "in_loop l w k = Inr w' \<longleftrightarrow> (\<exists>e. el_get l w = Inr e) \<and> isInLoopThread l w \<and> k = Inr w'"
  by (auto simp: in_loop_def inLoopThread_def bindR_eq_Inr)

lemma view_sendInLoop [views]:
  fixes w :: "'z progw_scheme"
  assumes "sendInLoop a m w = Inr w'"
  shows "view w' = view w"
proof -
  let ?A = "\<lambda>c ch. if \<not> isWriting ch \<and> readableBytes (tc_output c) = 0
      then case sys (SysWrite (ch_fd ch) m) w of (r, w1) \<Rightarrow>
             if kret r \<ge> 0 then if size_t (kret r) < int (length m) then Inr (kret r, w1)
                  else bindR (queueWriteComplete a c w1) (\<lambda>w2. Inr (kret r, w2))
             else Inr (0, w1)
      else Inr (0, w)"
  let ?B = "\<lambda>c n w1. assertR (n \<ge> 0) (if size_t n < int (length m)
      then bindR (append_bytes (drop (nat n) m) (tc_output c)) (\<lambda>out.
             bindR (ch_get (tc_channel c) (tc_mod a (\<lambda>c. c\<lparr>tc_output := out\<rparr>) w1)) (\<lambda>ch4.
               if \<not> isWriting ch4 then enableWriting (tc_channel c) (tc_mod a (\<lambda>c. c\<lparr>tc_output := out\<rparr>) w1)
               else Inr (tc_mod a (\<lambda>c. c\<lparr>tc_output := out\<rparr>) w1)))
      else Inr w1)"
  obtain c ch x where x: "?A c ch = Inr x" "(case x of (n, w1) \<Rightarrow> ?B c n w1) = Inr w'"
    using assms unfolding sendInLoop_def Let_def by (elim bindR_E) (simp only: in_loop_Inr bindR_eq_Inr, blast)
  have "view (snd x) = view w" using x(1) by (auto simp: run_simps split: if_splits dest!: views)
  moreover have "view w' = view (snd x)" using x(2) by (auto simp: run_simps split: if_splits dest!: views)
  ultimately show ?thesis by simp
qed

lemma view_tc_send [views]: "tc_send a m w = Inr w' \<Longrightarrow> view w' = view (w :: 'z progw_scheme)"
  by (auto simp: tc_send_def run_simps split: if_splits dest!: view_runInLoop views)

lemma view_shutdownInLoop [views]: "shutdownInLoop a w = Inr w' \<Longrightarrow> view w' = view (w :: 'z progw_scheme)"
  by (auto simp: shutdownInLoop_def run_simps split: if_splits dest!: views)

lemma view_handleError [views]: "handleError a w = Inr w' \<Longrightarrow> view w' = view (w :: 'z progw_scheme)"
  by (auto simp: handleError_def run_simps)

section \<open>Clients that connect\<close>

lemma view_runAfter [views]: "runAfter l p d cb w = Inr (x, w') \<Longrightarrow> view w' = view (w :: 'z progw_scheme)"
  by (auto simp: runAfter_def runAt_def run_simps dest!: views)

lemma view_co_retry [views]: "co_retry c p fd w = Inr w' \<Longrightarrow> view w' = view (w :: 'z progw_scheme)"
  by (auto simp: co_retry_def run_simps dest!: views)

lemma view_connecting [views]: "connecting c ch fd w = Inr w' \<Longrightarrow> view w' = view (w :: 'z progw_scheme)"
  by (auto simp: connecting_def run_simps dest!: views)

lemma view_startInLoop [views]: "startInLoop c ch p w = Inr w' \<Longrightarrow> view w' = view (w :: 'z progw_scheme)"
  by (auto simp: startInLoop_def run_simps split: if_splits dest!: views)

lemma view_co_restart [views]: "co_restart c ch p w = Inr w' \<Longrightarrow> view w' = view (w :: 'z progw_scheme)"
  by (auto simp: co_restart_def run_simps dest!: views)

lemma view_resetChannel [views]: "resetChannel c w = Inr w' \<Longrightarrow> view w' = view (w :: 'z progw_scheme)"
  by (auto simp: resetChannel_def delete_channel_def run_simps split: option.splits)

lemma view_removeAndResetChannel [views]: "removeAndResetChannel c w = Inr (n, w') \<Longrightarrow> view w' = view (w :: 'z progw_scheme)"
  by (auto simp: removeAndResetChannel_def run_simps split: option.splits dest!: views)

lemma view_co_handleError [views]: "co_handleError c p w = Inr w' \<Longrightarrow> view w' = view (w :: 'z progw_scheme)"
  by (auto simp: co_handleError_def run_simps dest!: views)

lemma view_cl_removeConnection [views]: "cl_removeConnection k ch p a w = Inr w' \<Longrightarrow> view w' = view (w :: 'z progw_scheme)"
  by (auto simp: cl_removeConnection_def run_simps split: if_splits dest!: views)

section \<open>Nobody quits\<close>

text \<open>
  No loop is asked to quit, no connection is being set up, and the program is a client of the hub:
  it has no server, and its callbacks are those of \<open>PubSubClient\<close>, of the two programs and the
  default ones.
\<close>

fun client_cb :: "user_cb \<Rightarrow> bool" where
  "client_cb (PsConnection p) = True"
| "client_cb (PsMessage p) = True"
| "client_cb (PubConnection l t c) = True"
| "client_cb (SubConnection ts) = True"
| "client_cb SubMessage = True"
| "client_cb DefaultConnection = True"
| "client_cb DefaultMessage = True"
| "client_cb _ = False"

definition quiet_view ::
  "(nat \<Rightarrow> bool option) \<times> (nat \<Rightarrow> conn_state option) \<times> (nat \<Rightarrow> tcp_server option) \<times> (nat \<Rightarrow> acceptor option) \<times>
   (nat \<Rightarrow> user_cb option) \<Rightarrow> bool" where
  "quiet_view = (\<lambda>(q, s, srv, ac, cbs). (\<forall>l. q l \<noteq> Some True) \<and> (\<forall>a. s a \<noteq> Some KConnecting) \<and> (\<forall>x. srv x = None) \<and>
     (\<forall>x. ac x = None) \<and> (\<forall>n cb. cbs n = Some cb \<longrightarrow> client_cb cb))"

abbreviation quiet :: "'z progw_scheme \<Rightarrow> bool" where
  "quiet w \<equiv> quiet_view (view w)"

lemma quietD:
  assumes "quiet w"
  shows "loops w l = Some e \<Longrightarrow> \<not> el_quit e" "conns w a = Some c \<Longrightarrow> tc_state c \<noteq> KConnecting" "servers w s = None"
    "acceptors w s = None" "callbacks w n = Some cb \<Longrightarrow> client_cb cb"
  using assms by (force simp: quiet_view_def view_def)+

lemma quiet_setState: "quiet w \<Longrightarrow> s \<noteq> KConnecting \<Longrightarrow> quiet (tc_mod a (setState s) w)"
  by (auto simp: quiet_view_def view_def tc_mod_def setState_def)

lemma quiet_tc_shutdown:
  assumes "tc_shutdown a v = Inr w'" and "view v = view w" and "quiet w"
  shows "quiet w'"
proof -
  let ?v = "tc_mod a (setState KDisconnecting) v"
  have v: "quiet v" using assms(2,3) by simp
  then have "quiet ?v" by (intro quiet_setState) simp_all
  moreover have "w' = v \<or> view w' = view ?v"
    using assms(1) by (auto simp: tc_shutdown_def bindR_eq_Inr split: if_splits dest!: view_runInLoop view_shutdownInLoop)
  ultimately show ?thesis using v by auto
qed

lemma quiet_handleWrite:
  assumes "handleWrite a w = Inr w'" and "quiet w"
  shows "quiet w'"
proof -
  have *: "tc_shutdown a v = Inr w' \<Longrightarrow> view v = view w \<Longrightarrow> quiet w'" for v
    using quiet_tc_shutdown [of a v w' w] assms(2) by blast
  show ?thesis using assms by (auto simp: handleWrite_def run_simps split: if_splits dest!: views intro: *)
qed

lemma quiet_call_close:
  assumes "call_close cb a w = Inr w'" and "quiet w"
  shows "quiet w'"
proof (cases cb)
  case (CloseServer s)
  then show ?thesis using assms quietD(3) [OF assms(2), of s] by (simp add: call_close_def ts_removeConnection_def ts_get_def)
next
  case (CloseClient k)
  then have "view w' = view (snd (new_addr (snd (new_addr w))))"
    using assms(1) by (auto simp: call_close_def case_prod_beta Let_def dest!: view_cl_removeConnection)
  then show ?thesis using assms(2) by simp
qed

lemma quiet_handleClose:
  assumes "handleClose the_hooks a w = Inr w'" and "quiet w"
  shows "quiet w'"
proof -
  obtain ch cb v where v: "disableAll ch (tc_mod a (setState KDisconnected) w) = Inr v" "call_close cb a v = Inr w'"
    using assms(1) by (auto simp: handleClose_def bindR_eq_Inr call_hook_def the_hooks_def split: option.splits)
  have "quiet v" using view_enable(4) [OF v(1)] quiet_setState [OF assms(2)] by simp
  then show ?thesis by (rule quiet_call_close [OF v(2)])
qed

section \<open>The client of the hub\<close>

lemma view_ps_send [views]: "ps_send p m w = Inr (b, w') \<Longrightarrow> view w' = view (w :: 'z progw_scheme)"
  by (auto simp: ps_send_def run_simps split: if_splits option.splits dest!: views)

lemma view_ps_publish [views]:
  fixes w w' :: "'z progw_scheme"
  shows "ps_publish p t c w = Inr w' \<Longrightarrow> view w' = view w" "ps_subscribe p t w = Inr w' \<Longrightarrow> view w' = view w"
  by (auto simp: ps_publish_def ps_subscribe_def run_simps dest!: views)

lemma quiet_client_disconnect:
  assumes "client_disconnect k w = Inr w'" and "quiet w"
  shows "quiet w'"
proof -
  have *: "tc_shutdown a v = Inr w' \<Longrightarrow> view v = view w \<Longrightarrow> quiet w'" for a v
    using quiet_tc_shutdown [of a v w' w] assms(2) by blast
  show ?thesis using assms by (auto simp: client_disconnect_def bindR_eq_Inr Let_def split: option.splits intro: *)
qed

text \<open>A client that is told of a connection that is up does not quit.\<close>

lemma quiet_ps_told:
  assumes "ps_told cb p w = Inr w'" and "quiet w" and "ps_connected p w = Inr True"
  shows "quiet w'"
proof (cases "callbacks w cb")
  case (Some x)
  show ?thesis
  proof (cases x)
    case (PubConnection l t c)
    with Some assms(1,3) obtain v where v: "ps_publish p t c w = Inr v" "ps_disconnect p v = Inr w'"
      by (auto simp: ps_told_def pub_connection_def bindR_eq_Inr)
    have "quiet v" using view_ps_publish(1) [OF v(1)] assms(2) by simp
    then show ?thesis using v(2) quiet_client_disconnect by (auto simp: ps_disconnect_def bindR_eq_Inr)
  next
    case (SubConnection ts)
    with Some assms(1,3) have "foldR (ps_subscribe p) ts w = Inr w'"
      by (auto simp: ps_told_def sub_connection_def bindR_eq_Inr)
    then have "view w' = view w" by (rule view_foldR [rotated]) (rule view_ps_publish(2))
    then show ?thesis using assms(2) by simp
  qed (use assms(1) Some in \<open>simp_all add: ps_told_def\<close>)
qed (use assms(1) in \<open>simp add: ps_told_def\<close>)

lemma quiet_call_connection:
  assumes "call_connection cb a w = Inr w'" and "quiet w" and "conns w a = Some c" and "tc_state c = KConnected"
  shows "quiet w'"
proof (cases "callbacks w cb")
  case (Some x)
  then have "client_cb x" using quietD(5) [OF assms(2)] by simp
  then show ?thesis
  proof (cases x)
    case (PsConnection p)
    with assms(1) Some have "ps_onConnection ps_told p a w = Inr w'" by (simp add: call_connection_def)
    moreover have "tc_get a w = Inr c" "connected c" using assms(3,4) by (simp_all add: tc_get_def connected_def)
    ultimately obtain y where y: "ps_get p w = Inr y"
      "(case ps_connectionCb y of None \<Rightarrow> Inr (ps_put p (y\<lparr>ps_conn := Some a\<rparr>) w)
        | Some told \<Rightarrow> ps_told told p (ps_put p (y\<lparr>ps_conn := Some a\<rparr>) w)) = Inr w'"
      by (auto simp: ps_onConnection_def bindR_eq_Inr Let_def cong: option.case_cong)
    let ?v = "ps_put p (y\<lparr>ps_conn := Some a\<rparr>) w"
    have "ps_connected p ?v = Inr True"
      using assms(3,4) by (simp add: ps_connected_def ps_get_def ps_put_def tc_get_def connected_def)
    moreover have "quiet ?v" using assms(2) by simp
    ultimately show ?thesis using y(2) quiet_ps_told [of _ p ?v w'] by (auto split: option.splits)
  next
    case DefaultConnection
    with assms(1,2) Some show ?thesis by (simp add: call_connection_def)
  qed (use assms Some in \<open>simp_all add: call_connection_def\<close>)
qed (use assms in \<open>simp add: call_connection_def\<close>)

text \<open>Nor does one that receives messages.\<close>

lemma view_ps_heard [views]: "ps_heard cb t c time w = Inr w' \<Longrightarrow> view w' = view (w :: 'z progw_scheme)"
  by (auto simp: ps_heard_def sub_message_def split: option.splits user_cb.splits)

lemma quiet_ps_round:
  assumes "ps_round ps_heard p a time w = Inr (r, w')" and "quiet w"
  shows "quiet w'"
proof -
  have *: "tc_shutdown a v = Inr w' \<Longrightarrow> view v = view w \<Longrightarrow> quiet w'" for v
    using quiet_tc_shutdown [of a v w' w] assms(2) by blast
  show ?thesis using assms
    by (auto simp: ps_round_def run_simps split: if_splits option.splits dest!: views intro: *)
qed

lemma quiet_ps_onMessage:
  assumes "ps_onMessage ps_heard p a time w = Some (Inr w')" and "quiet w"
  shows "quiet w'"
proof -
  have "heard = ps_heard \<longrightarrow> quiet w \<longrightarrow> (\<forall>w'. r = Inr w' \<longrightarrow> quiet w')"
    if "ps_onMessage heard p a time w = Some r" for heard r and w :: "'a progw_scheme"
    using that
  proof (induction rule: ps_onMessage.raw_induct [rotated, consumes 1, case_names step])
    case (step rec heard p a time w r)
    then show ?case by (auto split: sum.splits if_splits dest: quiet_ps_round)
  qed
  with assms show ?thesis by blast
qed

lemma quiet_call_message:
  assumes "call_message cb a time w = Inr w'" and "quiet w"
  shows "quiet w'"
proof (cases "callbacks w cb")
  case (Some x)
  then have "client_cb x" using quietD(5) [OF assms(2)] by simp
  then show ?thesis
    using assms Some quiet_ps_onMessage [of _ a time w w']
    by (cases x) (auto simp: call_message_def returned_def split: option.splits)
qed (use assms in \<open>simp add: call_message_def\<close>)

section \<open>Functors and events\<close>

lemma quiet_handleRead:
  assumes "handleRead the_hooks a time w = Inr w'" and "quiet w"
  shows "quiet w'"
proof -
  have *: "call_message cb a time v = Inr w' \<Longrightarrow> view v = view w \<Longrightarrow> quiet w'"
    "handleClose the_hooks a v = Inr w' \<Longrightarrow> view v = view w \<Longrightarrow> quiet w'" for cb v
    using quiet_call_message [of cb a time v w'] quiet_handleClose [of a v w'] assms(2) by simp_all
  show ?thesis using assms
    by (auto simp: handleRead_def run_simps call_hook_def split: if_splits option.splits dest!: views intro: *)
      (auto simp: the_hooks_def intro: *)
qed

text \<open>A connection is told that it is up only while it is set up, which a quiet program never does outside \<open>arrived\<close>.\<close>

lemma quiet_FnConnEstablished:
  assumes "connectionEstablished hk a w = Inr w'" and "quiet w"
  shows False
  using assms quietD(2) [OF assms(2), of a]
  by (auto simp: connectionEstablished_def bindR_eq_Inr tc_get_def split: option.splits)

lemma quiet_connectionDestroyed:
  assumes "connectionDestroyed hk a w = Inr w'" and "quiet w"
  shows "quiet w'"
  using assms quietD(2) [OF assms(2), of a]
  by (auto simp: connectionDestroyed_def bindR_eq_Inr tc_get_def split: option.splits if_splits dest!: views)

lemma quiet_connectionEstablished:
  assumes "connectionEstablished the_hooks a w = Inr w'" and "quiet (tc_mod a (setState KConnected) w)"
  shows "quiet w'"
proof -
  let ?v = "tc_mod a (setState KConnected) w"
  obtain c v where c: "conns w a = Some c" and v: "enableReading (tc_channel c) ?v = Inr v"
    and w': "(case tc_connectionCb c of None \<Rightarrow> Inr v | Some cb \<Rightarrow> call_connection cb a v) = Inr w'"
    using assms(1) by (auto simp: connectionEstablished_def bindR_eq_Inr tc_get_def the_hooks_def split: option.splits)
  have view: "view v = view ?v" by (rule view_enable(1) [OF v])
  then have "map_option tc_state (conns v a) = Some KConnected"
    using c by (auto simp: view_def tc_mod_def setState_def dest!: fun_cong [of _ _ a])
  then obtain c' where c': "conns v a = Some c'" "tc_state c' = KConnected" by auto
  from view assms(2) have "quiet v" by simp
  then show ?thesis using w' quiet_call_connection [OF _ _ c'] by (auto split: option.splits)
qed

lemma quiet_arrived:
  assumes "arrived k sockfd w = Inr w'" and "quiet w"
  shows "quiet w'"
proof -
  obtain a v where v: "connectionEstablished the_hooks a v = Inr w'"
    and view: "view (tc_mod a (setState KConnected) v) = (case view w of (q, s, r) \<Rightarrow> (q, s(a \<mapsto> KConnected), r))"
    using assms(1)
    by (auto simp: arrived_def new_addr_def cl_newConnection_def bindR_eq_Inr Let_def case_prod_beta view_def tc_mod_def
      new_connection_def cl_mod_def ch_put_def getPeerAddr_def getLocalAddr_def sys_def setState_def setCloseCallback_conn_def
      setConnectionCallback_def setMessageCallback_def setWriteCompleteCallback_def fun_eq_iff split: if_splits)
  have "quiet (tc_mod a (setState KConnected) v)" using assms(2) view by (auto simp: quiet_view_def split: prod.splits)
  then show ?thesis by (rule quiet_connectionEstablished [OF v])
qed

lemma quiet_co_handleWrite:
  assumes "co_handleWrite arrived c p w = Inr w'" and "quiet w"
  shows "quiet w'"
proof -
  have *: "arrived k fd v = Inr w' \<Longrightarrow> view v = view w \<Longrightarrow> quiet w'" for k fd v
    using quiet_arrived [of k fd v w'] assms(2) by simp
  show ?thesis using assms
    by (auto simp: co_handleWrite_def run_simps call_hook_def split: if_splits option.splits dest!: views intro: *)
qed

lemma quiet_call_functor:
  assumes "call_functor fn w = Inr w'" and "quiet w"
  shows "quiet w'"
  using assms quietD(3,4) [OF assms(2)] quiet_FnConnEstablished [of the_hooks _ w w'] quiet_connectionDestroyed [of the_hooks _ w w']
  by (cases fn) (auto simp: call_functor_def ac_listen_def ac_get_def removeConnectionInLoop_def ts_get_def run_simps dest!: views)

lemma quiet_foldR:
  "(\<And>x v v'. f x v = Inr v' \<Longrightarrow> quiet v \<Longrightarrow> quiet v') \<Longrightarrow> foldR f xs w = Inr w' \<Longrightarrow> quiet w \<Longrightarrow> quiet (w' :: 'z progw_scheme)"
  by (induction xs arbitrary: w) (auto simp: bindR_eq_Inr)

lemma quiet_run_timers:
  assumes "foldR (run_timer call_functor) ts w = Inr w'" and "quiet w"
  shows "quiet w'"
proof (rule quiet_foldR [OF _ assms])
  show "quiet v'" if "run_timer call_functor x v = Inr v'" and "quiet v" for x and v v' :: "'a progw_scheme"
    using that quiet_call_functor [of _ v v'] by (auto simp: run_timer_def bindR_eq_Inr)
qed

lemma view_readTimerfd [simp]: "view (readTimerfd fd w) = view (w :: 'z progw_scheme)"
  by (simp add: readTimerfd_def)

lemma quiet_tq_handleRead:
  assumes "tq_handleRead call_functor a w = Inr w'" and "quiet w"
  shows "quiet w'"
proof -
  have *: "quiet w'" if "foldR (run_timer call_functor) es (tq_put a q1 v) = Inr u" "view v = view w"
    "reset_expired a es now (tq_put a q2 u) = Inr w'" for es q1 q2 v u now
    using quiet_run_timers [OF that(1)] view_reset_expired [OF that(3)] that(2) assms(2) by simp
  show ?thesis using assms(1)
    by (auto simp: tq_handleRead_def tq_loop_thread_def inLoopThread_def run_simps split: if_splits dest!: view_getExpired elim: *)
qed

lemma quiet_call_event:
  assumes "call_event cb time w = Inr w'" and "quiet w"
  shows "quiet w'"
  using assms quietD(4) [OF assms(2)] quiet_tq_handleRead [of _ w w'] quiet_handleRead [of _ time w w'] quiet_handleWrite [of _ w w']
    quiet_handleClose [of _ w w'] quiet_co_handleWrite [of _ "fst (new_addr w)" "snd (new_addr w)" w']
  by (cases cb) (auto simp: call_event_def ac_handleRead_def ac_get_def run_simps dest!: views)

lemma quiet_handleEvent:
  assumes "handleEvent call_event c t w = Inr w'" and "quiet w"
  shows "quiet w'"
proof -
  have h: "set_handling b c v = Inr v' \<Longrightarrow> quiet v \<Longrightarrow> quiet v'" for b and v v' :: "'a progw_scheme"
    by (auto simp: set_handling_def bindR_eq_Inr)
  have e: "event_stage call_event c t r cb v = Inr v' \<Longrightarrow> quiet v \<Longrightarrow> quiet v'" for r cb and v v' :: "'a progw_scheme"
    using quiet_call_event [of _ t v v'] by (auto simp: event_stage_def bindR_eq_Inr split: if_splits option.splits)
  show ?thesis using assms unfolding handleEvent_def bindR_eq_Inr by (blast intro: h e)
qed

lemma quiet_handle_actives:
  assumes "foldR (handle_active call_event) active w = Inr w'" and "quiet w"
  shows "quiet w'"
proof (rule quiet_foldR [OF _ assms])
  show "quiet y" if "handle_active call_event c x = Inr y" and "quiet x" for c and x y :: "'a progw_scheme"
    using that quiet_handleEvent [of c _ "snd (ts_now x)" y] by (auto simp: handle_active_def case_prod_beta Let_def)
qed

lemma quiet_doPendingFunctor:
  assumes "doPendingFunctor call_functor l w = Inr w'" and "quiet w"
  shows "quiet w'"
proof -
  have *: "quiet y" if "foldR call_functor fs x = Inr y" "view x = view w" for fs and x y :: "'a progw_scheme"
    using that quiet_foldR [OF quiet_call_functor that(1)] assms(2) by simp
  have "quiet (el_mod l (\<lambda>e. e\<lparr>el_calling := False\<rparr>) u)" if "foldR call_functor fs (el_mod l (\<lambda>e. e\<lparr>el_pending := []\<rparr>)
      (el_mod l (\<lambda>e. e\<lparr>el_calling := True\<rparr>) w)) = Inr u" for fs u
    using * [OF that] by simp
  then show ?thesis using assms(1) by (auto simp: doPendingFunctor_def run_simps)
qed

lemma quiet_iteration:
  assumes "loop_iteration call_functor call_event l w = Inr w'" and "quiet w"
  shows "quiet w'"
proof -
  have *: "quiet w'" if "foldR (handle_active call_event) active v = Inr u" "view v = view w"
    "doPendingFunctor call_functor l u = Inr w'" for active v u
    using that quiet_handle_actives [OF that(1)] quiet_doPendingFunctor assms(2) by metis
  show ?thesis using assms(1)
    by (auto simp: loop_iteration_def run_simps dest!: view_poll elim!: * )
qed

lemma quiet_loop_while:
  assumes "loop_while call_functor call_event l w = Some (Inr w')" and "quiet w"
  shows False
proof -
  have "exec = call_functor \<longrightarrow> run = call_event \<longrightarrow> quiet w \<longrightarrow> (\<forall>w'. r \<noteq> Inr w')"
    if "loop_while exec run l w = Some r" for exec run r and w :: "'a progw_scheme"
    using that
  proof (induction rule: loop_while.raw_induct [rotated, consumes 1, case_names step])
    case (step rec exec run l w r)
    then show ?case using quietD(1) by (fastforce simp: el_get_def split: sum.splits if_splits option.splits dest: quiet_iteration)
  qed
  with assms show ?thesis by blast
qed

lemma quiet_start_loop: "quiet w \<Longrightarrow> quiet (el_mod l (\<lambda>e. e\<lparr>el_looping := True, el_quit := False\<rparr>) w)"
  by (auto simp: quiet_view_def view_def el_mod_def)

lemma quiet_run_loop: "quiet w \<Longrightarrow> run_loop l w \<noteq> Some (Inr w')"
  unfolding run_loop_def el_loop_def
  using quiet_loop_while [of l "el_mod l (\<lambda>e. e\<lparr>el_looping := True, el_quit := False\<rparr>) w"] quiet_start_loop [of w l]
  by (auto split: sum.splits if_splits simp: bindR_eq_Inr)

section \<open>A program that starts\<close>

lemma quiet_new_loop:
  assumes "new_event_loop summer_poll l ch a tch e ea w = Inr w'" and "quiet w"
  shows "quiet w'"
proof -
  have p: "newDefaultPoller summer_poll w = Inr (p, v) \<Longrightarrow> view v = view w" for p v
    by (auto simp: newDefaultPoller_def ep_new_def run_simps split: if_splits)
  have q: "new_timer_queue l a tch e ea u = Inr v \<Longrightarrow> view v = view u" for u v :: "'a progw_scheme"
    by (auto simp: new_timer_queue_def create_timerfd_def run_simps split: if_splits dest!: views)
  have l: "quiet (u\<lparr>loops := (loops v)(l \<mapsto> e), threadOf := t\<rparr>)" if "view u = view w" "view v = view w" "\<not> el_quit e"
    for u v :: "'a progw_scheme" and e t
  proof -
    have "quiet u" "quiet v" using that(1,2) assms(2) by simp_all
    then show ?thesis using that(3) by (auto simp: quiet_view_def view_def)
  qed
  have t: "view (u\<lparr>threadLoop := m\<rparr>) = view u" for u :: "'a progw_scheme" and m by (simp add: view_def)
  show ?thesis using assms(1)
    by (auto simp: new_event_loop_def create_eventfd_def run_simps t split: if_splits dest!: p q views intro!: l)
qed

lemma quiet_pubsub_setup:
  assumes "pubsub_setup summer_poll e ea ip port name told heard w = Inr (l, w')" and "quiet w"
    and "\<And>l. client_cb (told l)" and "\<And>cb. heard = Some cb \<Longrightarrow> client_cb cb"
  shows "quiet w'"
proof -
  have addrs: "view (snd (new_addrs n v)) = view v" for n and v :: "'a progw_scheme" by (simp add: new_addrs_def view_def)
  have main: "main_loop summer_poll e ea w = Inr (l, v) \<Longrightarrow> quiet v" for l v
    using assms(2) quiet_new_loop [of summer_poll _ _ _ _ e ea "snd (new_addrs 4 w)" v]
    by (auto simp: main_loop_def run_simps addrs)
  have new: "view (new_pubsub p k c cc mc l addr name v) = view v" for p k c cc mc l addr and v :: "'a progw_scheme"
    by (simp add: new_pubsub_def new_client_def) (simp add: view_def)
  have set: "quiet v \<Longrightarrow> client_cb cb \<Longrightarrow> quiet (set_callback n cb v)" for n cb and v :: "'a progw_scheme"
    by (auto simp: quiet_view_def view_def set_callback_def)
  have connect: "ps_connect p ch t u = Inr v \<Longrightarrow> view v = view u" for p ch t and u v :: "'a progw_scheme"
    by (auto simp: ps_connect_def client_connect_def co_start_def bindR_eq_Inr dest!: view_runInLoop views)
  show ?thesis using assms(1,3,4)
    by (auto simp: pubsub_setup_def pubsub_new_def run_simps new addrs split: option.splits dest!: main connect intro!: set)
qed

section \<open>The clients of the hub run for ever\<close>

text \<open>The state in which \<open>main\<close> is entered.\<close>

definition fresh :: "'z progw_scheme \<Rightarrow> bool" where
  "fresh w \<longleftrightarrow> loops w = Map.empty \<and> conns w = Map.empty \<and> servers w = Map.empty \<and> acceptors w = Map.empty \<and> callbacks w = Map.empty"

lemma quiet_fresh: "fresh w \<Longrightarrow> quiet w"
  by (simp add: fresh_def quiet_view_def view_def)

text \<open>A machine that gives every new descriptor a number of its own and where every other call returns 0.\<close>

definition counting_kernel :: "syscall list \<Rightarrow> syscall \<Rightarrow> kres" where
  "counting_kernel k c = (if c \<in> {SysEventfd, SysTimerfdCreate, SysSocket} then ret (int (length k) + 3) else ret 0)"

definition fresh_world :: progw where
  "fresh_world = \<lparr>kernel = counting_kernel, sysLog = [], curTid = 1, threadOf = (\<lambda>_. 0), chans = Map.empty, loops = Map.empty,
     threadLoop = Map.empty, tqs = Map.empty, timers = Map.empty, numCreated = 0, conns = Map.empty, acceptors = Map.empty,
     servers = Map.empty, connectors = Map.empty, clients = Map.empty, hubs = Map.empty, pubsubs = Map.empty,
     echo_servers = Map.empty, echo_clients = [], current = 0, callbacks = Map.empty, next_addr = 1, std_out = []\<rparr>"

text \<open>C29: a publisher (\<^verbatim>\<open>pub.cc\<close>) and a subscriber (\<^verbatim>\<open>sub.cc\<close>) that were given a well-formed address never return
  from their loop, whatever the kernel answers: \<open>loop()\<close> runs on or the process dies. For the
  subscriber this is meant. The publisher calls \<open>quit()\<close> when it is told that its connection has
  ended, and it is never told.\<close>

theorem clients_never_return:
  assumes "fresh w" and "host_port hostport = Some (ip, Inr port)" and "g_content \<noteq> ''-''"
  shows "pub_main summer_poll e ea startLoop meanwhile std_in argv0 [hostport, g_topic, g_content] w \<noteq> Some (Inr w') \<and>
    sub_main summer_poll e ea argv0 (hostport # g_topic # g_topics) w \<noteq> Some (Inr w')"
proof -
  note q = quiet_fresh [OF assms(1)]
  have *: "then_loop (pubsub_setup summer_poll e ea ip port name told heard w) \<noteq> Some (Inr w')"
    if "\<And>l. client_cb (told l)" "\<And>cb. heard = Some cb \<Longrightarrow> client_cb cb" for name told heard
  proof (cases "pubsub_setup summer_poll e ea ip port name told heard w")
    case (Inr r)
    obtain l v where r: "r = (l, v)" by (cases r)
    from quiet_pubsub_setup [OF Inr [unfolded r] q that] have "quiet v" .
    then show ?thesis using quiet_run_loop [of v l w'] Inr r by (simp add: then_loop_def)
  qed (simp add: then_loop_def)
  have "pub_main summer_poll e ea startLoop meanwhile std_in argv0 [hostport, g_topic, g_content] w \<noteq> Some (Inr w')"
    using * [of "\<lambda>l. PubConnection l g_topic g_content" None] assms(2,3) by (simp add: pub_main_def)
  moreover have "sub_main summer_poll e ea argv0 (hostport # g_topic # g_topics) w \<noteq> Some (Inr w')"
    using * [of "\<lambda>l. SubConnection (g_topic # g_topics)" "Some SubMessage"] assms(2) by (simp add: sub_main_def)
  ultimately show ?thesis ..
qed

definition started :: "(nat \<times> progw) res \<Rightarrow> bool" where
  "started r = (case r of Inl f \<Rightarrow> False | Inr (l, w) \<Rightarrow> clients w 6 \<noteq> None)"

definition after_main :: progw where
  "after_main = (case main_loop True (0, 0) (0, 0) fresh_world of Inr (l, w) \<Rightarrow> w | Inl f \<Rightarrow> fresh_world)"

lemma main_loop_example: "case main_loop True (0, 0) (0, 0) fresh_world of Inr (l, w) \<Rightarrow> l = 1 \<and> next_addr w = 5 | Inl f \<Rightarrow> False"
  by code_simp

lemma loop_starts: "main_loop True (0, 0) (0, 0) fresh_world = Inr (1, after_main)" "next_addr after_main = 5"
  using main_loop_example by (auto simp: after_main_def split: sum.splits)

lemma connect_example:
  "started (bindR (ps_connect 5 12 13
     (ps_put 5 (ps_setConnectionCallback (Some 10) \<lparr>ps_loop = 1, ps_tcp = 6, ps_connectionCb = None, ps_subscribeCb = None, ps_conn = None\<rparr>)
       (new_pubsub 5 6 7 8 9 1 addr name (set_callback 8 (PsConnection 5) (set_callback 9 (PsMessage 5)
         (set_callback 10 cb (after_main\<lparr>next_addr := 14\<rparr>))))))) (\<lambda>w. Inr (1, w)))"
  by code_simp

lemma pub_starts: "started (pubsub_setup True (0, 0) (0, 0) ip port name told None fresh_world)"
proof -
  have get: "ps_get p (new_pubsub p k cc ccb mcb l addr name w) =
      Inr \<lparr>ps_loop = l, ps_tcp = k, ps_connectionCb = None, ps_subscribeCb = None, ps_conn = None\<rparr>" for p k cc ccb mcb l addr and w :: progw
    by (simp add: ps_get_def ps_put_def new_pubsub_def)
  show ?thesis using connect_example [of "inet_from ip port" name "told 1"]
    by (simp add: pubsub_setup_def pubsub_new_def loop_starts Let_def new_addrs_def get)
qed

theorem clients_never_return_witness:
  "fresh fresh_world \<and>
   (\<forall>w'. pub_main True (0, 0) (0, 0) no_threads (\<lambda>_. Inr) [] ''pub'' [''127.0.0.1:2016'', ''t'', ''x''] fresh_world \<noteq> Some (Inr w')) \<and>
   started (pubsub_setup True (0, 0) (0, 0) ''127.0.0.1'' 2016 ''pubClient'' (\<lambda>l. PubConnection l ''t'' ''x'') None fresh_world)"
proof -
  have f: "fresh fresh_world" by (simp add: fresh_def fresh_world_def)
  have h: "host_port ''127.0.0.1:2016'' = Some (''127.0.0.1'', Inr 2016)" by code_simp
  show ?thesis using f clients_never_return [OF f h, of "''x''" True "(0, 0)" "(0, 0)" no_threads "\<lambda>_. Inr" "[]" "''pub''" "''t''"]
    pub_starts by simp
qed

section \<open>The states of a client program\<close>

text \<open>The states between the iterations of the loop \<open>l\<close>.\<close>

inductive reaches :: "nat \<Rightarrow> 'z progw_scheme \<Rightarrow> 'z progw_scheme \<Rightarrow> bool" where
  entered: "reaches l w (el_mod l (\<lambda>e. e\<lparr>el_looping := True, el_quit := False\<rparr>) w)"
| again: "reaches l w v \<Longrightarrow> iteration l v = Inr u \<Longrightarrow> reaches l w u"

lemma reaches_quiet: "reaches l w v \<Longrightarrow> quiet w \<Longrightarrow> quiet v"
  by (induction rule: reaches.induct) (auto simp: iteration_def intro: quiet_start_loop dest: quiet_iteration)

text \<open>C32: the states that the loop of a publisher or a subscriber goes through are well-formed: every
  callback that the program has handed out is one of a client, no connection is left half set up
  between two iterations, and there is neither a server nor an acceptor.\<close>

theorem client_states_ok:
  assumes "fresh w" and "pubsub_setup summer_poll e ea ip port name told heard w = Inr (l, v)"
    and "\<And>l. client_cb (told l)" and "\<And>cb. heard = Some cb \<Longrightarrow> client_cb cb" and "reaches l v u"
  shows "(\<forall>n cb. callbacks u n = Some cb \<longrightarrow> client_cb cb) \<and> (\<forall>a c. conns u a = Some c \<longrightarrow> tc_state c \<noteq> KConnecting) \<and>
    servers u = Map.empty \<and> acceptors u = Map.empty"
proof -
  have "quiet u" using reaches_quiet [OF assms(5)] quiet_pubsub_setup [OF assms(2) quiet_fresh [OF assms(1)] assms(3,4)] .
  then show ?thesis using quietD [of u] by auto
qed

theorem client_states_ok_witness:
  "\<exists>v u. reaches 1 v u \<and> pubsub_setup True (0, 0) (0, 0) ''127.0.0.1'' 2016 ''pubClient'' (\<lambda>l. PubConnection l ''t'' ''x'') None fresh_world = Inr (1, v) \<and>
     servers u = Map.empty"
proof -
  let ?r = "pubsub_setup True (0, 0) (0, 0) ''127.0.0.1'' 2016 ''pubClient'' (\<lambda>l. PubConnection l ''t'' ''x'') None fresh_world"
  have s: "started ?r" by (rule pub_starts)
  then obtain v where v: "?r = Inr (1, v)"
    by (auto simp: started_def pubsub_setup_def loop_starts Let_def case_prod_beta bindR_eq_Inr split: sum.splits)
  show ?thesis
    using client_states_ok [OF _ v _ _ reaches.entered] v reaches.entered [of 1 v] by (auto simp: fresh_def fresh_world_def)
qed

end
