(* ===== verification/Service.thy ===== *)
theory Service
  imports Frames
begin

text \<open>
  What a program does for its users, from the bytes that the kernel delivers to the bytes it is
  given back: the read callback of a connection, through \<open>handleRead\<close> and the input buffer, the
  message callback of the hub (\<^verbatim>\<open>net/hub/hub.cc\<close>) or of the echo server
  (\<^verbatim>\<open>net/EchoServer_test.cc\<close>), to the output of every connection.
\<close>

section \<open>The read callback up to the message callback\<close>

lemma calm_readv: "calm fd w (snd (sys (SysReadv fd' n) w))"
  by (simp add: calm_def sys_def isInLoopThread_def option.rel_refl writes_to_def half_closes_def)

text \<open>
  The kernel delivers \<open>d\<close> to the connection at \<open>a\<close>, no more than \<open>readFd\<close> asks for, and the input buffer
  can take it.
\<close>

definition delivers :: "string \<Rightarrow> nat \<Rightarrow> 'z netw_scheme \<Rightarrow> bool" where
  "delivers d a w \<longleftrightarrow> (\<exists>c ch. conns w a = Some c \<and> chans w (tc_channel c) = Some ch \<and> d \<noteq> [] \<and>
     (let r = kernel w (sysLog w) (SysReadv (ch_fd ch) (writeableBytes (tc_input c) + extrabuf_size))
      in kret r = int (length d) \<and> kdata r = d) \<and> length d \<le> read_cap (tc_input c))"

definition input_takes :: "string \<Rightarrow> nat \<Rightarrow> 'z netw_scheme \<Rightarrow> bool" where
  "input_takes d a w \<longleftrightarrow> (\<exists>c. conns w a = Some c \<and> takes d (tc_input c))"

definition input_ok :: "string \<Rightarrow> buffer \<Rightarrow> bool" where
  "input_ok d b \<longleftrightarrow> buf_inv b \<and> contents b = d \<and> bufsize b + extrabuf_size < 2 ^ 31"

lemma recipients_calm:
  assumes "recipients_ok S w" and "calm fd w v"
  shows "recipients_ok S v"
  using assms by (intro recipients_ok_alike [OF assms(1) _ calm_conn_ok [OF assms(2)]]) (simp_all add: calm_def option.rel_refl)

lemma read_outcome:
  fixes w :: "'z progw_scheme"
  assumes ok: "recipients_ok S w" "a \<in> S" and c: "conns w a = Some c" "input_ok cur (tc_input c)" and d: "delivers d a w"
  obtains ch where "chans w (tc_channel c) = Some ch"
    "let w1 = snd (sys (SysReadv (ch_fd ch) (writeableBytes (tc_input c) + extrabuf_size)) w) in
      if takes d (tc_input c)
      then \<exists>input. input_ok (cur @ d) input \<and> bufsize input = bufsize (tc_input c) \<and>
        call_event (CbConnRead a) t w =
          call_hook (tc_messageCb c) (\<lambda>cb. call_message cb a t (tc_mod a (\<lambda>c. c\<lparr>tc_input := input\<rparr>) w1))
      else call_event (CbConnRead a) t w = Inl (spill_fault (overrun d (tc_input c)) (tc_input c))"
proof -
  from d c(1) obtain ch where ch: "chans w (tc_channel c) = Some ch" and d': "d \<noteq> []"
    "kret (kernel w (sysLog w) (SysReadv (ch_fd ch) (writeableBytes (tc_input c) + extrabuf_size))) = int (length d)"
    "kdata (kernel w (sysLog w) (SysReadv (ch_fd ch) (writeableBytes (tc_input c) + extrabuf_size))) = d"
    "length d \<le> read_cap (tc_input c)" by (auto simp: delivers_def Let_def)
  from ok have "conn_ok a w" by (simp add: recipients_ok_def)
  with c(1) have e: "loop_ok (tc_loop c) w" by (auto simp: conn_ok_def)
  from e have l: "loops w (tc_loop c) \<noteq> None" "isInLoopThread (tc_loop c) w"
    using loop_ok_thread [OF e] by (auto simp: loop_ok_def)
  have b: "buf_inv (tc_input c)" "bufsize (tc_input c) + extrabuf_size < 2 ^ 31" "contents (tc_input c) = cur"
    using c(2) by (simp_all add: input_ok_def)
  have doc: "readv_documented (tc_input c) (kernel w (sysLog w) (SysReadv (ch_fd ch) (writeableBytes (tc_input c) + extrabuf_size)))"
    using d' by (simp add: readv_documented_def)
  note out = handleRead_outcome [OF c(1) l ch b(1,2) refl doc, of the_hooks t, unfolded d'(2,3)]
  have ev: "call_event (CbConnRead a) t w = handleRead the_hooks a t w" by (simp add: call_event_def)
  show thesis
  proof (rule that [OF ch])
    show "let w1 = snd (sys (SysReadv (ch_fd ch) (writeableBytes (tc_input c) + extrabuf_size)) w) in
      if takes d (tc_input c)
      then \<exists>input. input_ok (cur @ d) input \<and> bufsize input = bufsize (tc_input c) \<and>
        call_event (CbConnRead a) t w =
          call_hook (tc_messageCb c) (\<lambda>cb. call_message cb a t (tc_mod a (\<lambda>c. c\<lparr>tc_input := input\<rparr>) w1))
      else call_event (CbConnRead a) t w = Inl (spill_fault (overrun d (tc_input c)) (tc_input c))"
    proof (cases "takes d (tc_input c)")
      case True
      with out d'(1) obtain input where "buf_inv input" "contents input = contents (tc_input c) @ d"
        "bufsize input = bufsize (tc_input c)"
        "handleRead the_hooks a t w = call_hook (tc_messageCb c) (\<lambda>cb. on_message the_hooks cb a t
          (tc_mod a (\<lambda>c. c\<lparr>tc_input := input\<rparr>) (snd (sys (SysReadv (ch_fd ch) (writeableBytes (tc_input c) + extrabuf_size)) w))))"
        by (auto simp: Let_def)
      then show ?thesis
        using True b(2,3) by (simp add: ev Let_def input_ok_def the_hooks_def) (intro exI [of _ input], simp)
    next
      case False
      with out show ?thesis by (simp add: ev Let_def)
    qed
  qed
qed

lemma read_event:
  fixes w :: "'z progw_scheme"
  assumes ok: "recipients_ok S w" "a \<in> S" and c: "conns w a = Some c" "input_ok cur (tc_input c)" "tc_messageCb c = Some mc"
    and d: "delivers d a w" and room: "input_takes d a w"
  obtains v input call where "call_event (CbConnRead a) t w = call_message mc a t v"
    "conns v a = Some (c\<lparr>tc_input := input\<rparr>)" "input_ok (cur @ d) input" "bufsize input = bufsize (tc_input c)"
    "recipients_ok S v" "kernel v = kernel w" "netw.more v = netw.more w" "sysLog v = sysLog w @ [call]" "\<not> half_closes call"
    "\<And>b. out_stream b v = out_stream b w" "\<And>b n. has_room b n v = has_room b n w"
    "\<And>b. b \<noteq> a \<Longrightarrow> conns v b = conns w b" "loops v = loops w" "chans v = chans w"
proof -
  obtain ch :: channel where out: "let w1 = snd (sys (SysReadv (ch_fd ch) (writeableBytes (tc_input c) + extrabuf_size)) w) in
      if takes d (tc_input c)
      then \<exists>input. input_ok (cur @ d) input \<and> bufsize input = bufsize (tc_input c) \<and>
        call_event (CbConnRead a) t w =
          call_hook (tc_messageCb c) (\<lambda>cb. call_message cb a t (tc_mod a (\<lambda>c. c\<lparr>tc_input := input\<rparr>) w1))
      else call_event (CbConnRead a) t w = Inl (spill_fault (overrun d (tc_input c)) (tc_input c))"
    by (rule read_outcome [OF ok c(1,2) d, of t]) blast
  define call where "call = SysReadv (ch_fd ch) (writeableBytes (tc_input c) + extrabuf_size)"
  from out room c(1) obtain input where ch: "input_ok (cur @ d) input" "bufsize input = bufsize (tc_input c)"
    "call_event (CbConnRead a) t w = call_hook (tc_messageCb c) (\<lambda>cb. call_message cb a t (tc_mod a (\<lambda>c. c\<lparr>tc_input := input\<rparr>)
      (snd (sys call w))))"
    by (auto simp: Let_def input_takes_def call_def)
  define u where "u = snd (sys call w)"
  define v where "v = tc_mod a (\<lambda>c. c\<lparr>tc_input := input\<rparr>) u"
  have calm: "calm fd w u" for fd unfolding u_def call_def by (rule calm_readv)
  have "call_event (CbConnRead a) t w = call_message mc a t v"
    using ch(3) c(3) by (simp add: call_hook_def v_def u_def call_def)
  moreover have "conns v a = Some (c\<lparr>tc_input := input\<rparr>)" using c(1) by (simp add: v_def u_def)
  moreover have "recipients_ok S v" unfolding v_def by (intro input_changed(1) recipients_calm [OF ok(1) calm])
  moreover have "kernel v = kernel w" "netw.more v = netw.more w" "loops v = loops w" "chans v = chans w" "sysLog v = sysLog w @ [call]"
    by (simp_all add: v_def u_def sys_def tc_mod_def)
  moreover have "\<not> half_closes call" by (simp add: call_def half_closes_def)
  moreover have "out_stream b u = out_stream b w" "has_room b n u = has_room b n w" for b n
    using calm_sent [OF calm] calmD(3) [OF calm] by (simp_all add: out_stream_def has_room_def split: option.splits)
  then have "out_stream b v = out_stream b w" "has_room b n v = has_room b n w" for b n
    by (simp_all add: v_def input_changed)
  moreover have "conns v b = conns w b" if "b \<noteq> a" for b using that by (simp add: v_def u_def)
  ultimately show thesis using ch(1,2) that by blast
qed

section \<open>The hub\<close>

lemma hub_ok_read:
  assumes "hub_ok h S w" and "conns w a = Some c" and "recipients_ok S v" and "kernel v = kernel w" and "netw.more v = netw.more w"
    and "conns v a = Some (c\<lparr>tc_input := input\<rparr>)" and "\<And>b. b \<noteq> a \<Longrightarrow> conns v b = conns w b"
  shows "hub_ok h S (v :: 'z hubw_scheme)" and "hub_broker h v = hub_broker h w"
proof -
  have "hubs v = hubs w" using assms(5) by (cases v; cases w) simp
  moreover have "\<exists>c. conns v b = Some c \<and> tc_context c \<noteq> None" if "b \<in> S" for b
    using that assms(1,2,6,7) by (cases "b = a") (auto simp: hub_ok_def)
  ultimately show "hub_ok h S v" "hub_broker h v = hub_broker h w" using assms(1,3,4) by (simp_all add: hub_ok_def hub_broker_def)
qed

text \<open>
  A running hub program: every connection of \<open>S\<close> has the hub's message callback, and \<open>rest a\<close> is what
  the input of \<open>a\<close> holds.
\<close>

definition hub_runs :: "nat \<Rightarrow> nat set \<Rightarrow> (nat \<Rightarrow> string) \<Rightarrow> 'z progw_scheme \<Rightarrow> bool" where
  "hub_runs h S rest w \<longleftrightarrow> hub_ok h S w \<and> (\<forall>a\<in>S. \<exists>c mc. conns w a = Some c \<and> input_ok (rest a) (tc_input c) \<and>
     tc_messageCb c = Some mc \<and> callbacks w mc = Some (HubMessage h))"

text \<open>Each of the outputs grows by \<open>f\<close>, and takes no more room than that.\<close>

definition grows :: "nat set \<Rightarrow> (nat \<Rightarrow> string) \<Rightarrow> 'z progw_scheme \<Rightarrow> 'z progw_scheme \<Rightarrow> bool" where
  "grows S f w w' \<longleftrightarrow> (\<forall>b\<in>S. out_stream b w' = out_stream b w @ f b \<and>
     (\<forall>n. has_room b (n + length (f b)) w \<longrightarrow> has_room b n w'))"

lemma hub_runs_after:
  assumes "hub_runs h S rest w" and "hub_ok h S v" and "callbacks v = callbacks w"
    and "\<And>b c. b \<in> S \<Longrightarrow> conns w b = Some c \<Longrightarrow> \<exists>c'. conns v b = Some c' \<and> input_ok (rest' b) (tc_input c') \<and>
      tc_messageCb c' = tc_messageCb c"
  shows "hub_runs h S rest' v"
  unfolding hub_runs_def
proof (intro conjI ballI)
  fix b assume b: "b \<in> S"
  with assms(1) obtain c mc where "conns w b = Some c" "tc_messageCb c = Some mc" "callbacks w mc = Some (HubMessage h)"
    by (auto simp: hub_runs_def)
  with assms(3) assms(4) [OF b] show "\<exists>c mc. conns v b = Some c \<and> input_ok (rest' b) (tc_input c) \<and>
      tc_messageCb c = Some mc \<and> callbacks v mc = Some (HubMessage h)" by fastforce
qed (rule assms(2))

lemma hub_reads_step:
  fixes w :: "'z progw_scheme"
  assumes "hub_runs h S rest w" and "a \<in> S" and "delivers d a w" and "input_takes d a w"
  defines "ms \<equiv> fst (digest (rest a @ d))" and "tail \<equiv> snd (digest (rest a @ d))"
  assumes "\<And>b. b \<in> S \<Longrightarrow> has_room b (length (received a ms (hub_broker h w) b)) w"
  shows "if parse_bytes tail = Crash then call_event (CbConnRead a) t w = Inl UndefinedBehaviour
    else \<exists>w'. call_event (CbConnRead a) t w = Inr w' \<and> hub_runs h S (rest(a := tail)) w' \<and>
      hub_broker h w' = broker_run a ms (hub_broker h w) \<and> grows S (received a ms (hub_broker h w)) w w'"
proof -
  from assms(1,2) obtain c mc where ok: "hub_ok h S w" and c: "conns w a = Some c" "input_ok (rest a) (tc_input c)"
    "tc_messageCb c = Some mc" "callbacks w mc = Some (HubMessage h)"
    by (auto simp: hub_runs_def)
  have rec: "recipients_ok S w" using ok by (simp add: hub_ok_def)
  obtain v input where v: "call_event (CbConnRead a) t w = call_message mc a t v"
    "conns v a = Some (c\<lparr>tc_input := input\<rparr>)" "input_ok (rest a @ d) input" "bufsize input = bufsize (tc_input c)"
    "recipients_ok S v" "kernel v = kernel w" "netw.more v = netw.more w"
    "\<And>b. out_stream b v = out_stream b w" "\<And>b n. has_room b n v = has_room b n w" "\<And>b. b \<noteq> a \<Longrightarrow> conns v b = conns w b"
    by (rule read_event [OF rec assms(2) c(1-3) assms(3,4), of t]) blast
  have hub: "hub_ok h S v" "hub_broker h v = hub_broker h w"
    using hub_ok_read [OF ok c(1) v(5,6,7,2)] v(10) by simp_all
  have cbs: "callbacks v = callbacks w" using v(7) by (cases v; cases w) simp
  then have run: "call_event (CbConnRead a) t w = returned (hub_loop h a ([], [], []) v)"
    using c(4) by (simp add: v(1) call_message_def hub_onMessage_def)
  have buf: "buf_inv (tc_input (c\<lparr>tc_input := input\<rparr>))" "contents (tc_input (c\<lparr>tc_input := input\<rparr>)) = rest a @ d"
    using v(3) by (simp_all add: input_ok_def)
  have batch: "batch h S a (rest a @ d) (bufsize input) v (hub_loop h a ([], [], []) v)"
    using hub_loop_batch [OF hub(1) assms(2) v(2) buf, unfolded hub(2) v(9), folded ms_def, OF assms(7)] by simp
  show ?thesis
  proof (cases "parse_bytes tail = Crash")
    case True
    with batch show ?thesis by (simp add: run batch_def tail_def returned_def)
  next
    case False
    with batch obtain w' c' where w': "hub_loop h a ([], [], []) v = Some (Inr w')" "hub_ok h S w'"
      "hub_broker h w' = broker_run a ms (hub_broker h w)" "serves a S (received a ms (hub_broker h w)) v w'"
      "conns w' a = Some c'" "buf_inv (tc_input c')" "contents (tc_input c') = tail" "bufsize (tc_input c') = bufsize input"
      by (auto simp: batch_def batch_done_def tail_def ms_def hub(2))
    have rel: "rel_option (if b = a then same_but_buffers else same_but_output) (conns v b) (conns w' b)" for b
      using w'(4) by (simp add: serves_def)
    have "callbacks w' = callbacks w"
      using w'(4) cbs by (cases v; cases w') (simp add: serves_def)
    then have "hub_runs h S (rest(a := tail)) w'"
    proof (rule hub_runs_after [OF assms(1) w'(2)])
      fix b e assume b: "b \<in> S" "conns w b = Some e"
      show "\<exists>e'. conns w' b = Some e' \<and> input_ok ((rest(a := tail)) b) (tc_input e') \<and> tc_messageCb e' = tc_messageCb e"
      proof (cases "b = a")
        case True
        then show ?thesis using rel [of a] b(2) c(1) v(2,3) w'(5-8) by (auto simp: same_but_buffers_def input_ok_def)
      next
        case False
        moreover have "input_ok (rest b) (tc_input e)" using assms(1) b by (auto simp: hub_runs_def)
        ultimately show ?thesis using rel [of b] b(2) v(10) by (auto simp: option_rel_Some1 same_but_output_def)
      qed
    qed
    moreover have "grows S (received a ms (hub_broker h w)) w w'" using w'(4) by (simp add: serves_def grows_def v(8,9))
    ultimately show ?thesis using False w'(1,3) by (simp add: run returned_def)
  qed
qed

text \<open>Bytes that the input buffer cannot take.\<close>

lemma hub_overflow_step:
  fixes w :: "'z progw_scheme"
  assumes "hub_runs h S rest w" and "a \<in> S" and "delivers d a w" and "\<not> input_takes d a w"
  shows "call_event (CbConnRead a) t w \<in> {Inl AssertFail, Inl UndefinedBehaviour}"
proof -
  from assms(1,2) obtain c where rec: "recipients_ok S w" and c: "conns w a = Some c" "input_ok (rest a) (tc_input c)"
    by (auto simp: hub_runs_def hub_ok_def)
  with assms(4) have "\<not> takes d (tc_input c)" by (auto simp: input_takes_def)
  then have "call_event (CbConnRead a) t w = Inl (spill_fault (overrun d (tc_input c)) (tc_input c))"
    by (rule_tac read_outcome [OF rec assms(2) c assms(3), of t]) (simp add: Let_def)
  then show ?thesis by (simp add: spill_fault_def)
qed

lemma hub_writes_step:
  fixes w :: "'z progw_scheme"
  assumes "hub_runs h S rest w" and "a \<in> S"
  shows "\<exists>w'. call_event (CbConnWrite a) t w = Inr w' \<and> hub_runs h S rest w' \<and> hub_broker h w' = hub_broker h w \<and>
    grows S (\<lambda>_. []) w w'"
proof -
  have ok: "hub_ok h S w" "recipients_ok S w" "write_documented (kernel w)"
    using assms(1) by (simp_all add: hub_runs_def hub_ok_def recipients_ok_def)
  from ok(2) assms(2) obtain c where c: "conn_ok a w" "conns w a = Some c" "tc_state c = KConnected" by (auto simp: recipients_ok_def)
  from handleWrite_ok [OF c(1,2) ok(3)] obtain w' where w': "handleWrite a w = Inr w'" "conn_ok a w'" "out_stream a w' = out_stream a w"
    by (auto simp: delivered_def)
  note from' = handleWrite_from [OF c w'(1) ok(3)]
  then obtain out where out: "same_rest w w'" "conns w' = (conns w)(a \<mapsto> c\<lparr>tc_output := out\<rparr>)"
    "0 < spare (tc_output c) \<longrightarrow> spare (tc_output c) \<le> spare out \<and> bufsize out = bufsize (tc_output c)"
    by (auto simp: sent_from_def)
  have others: "bystander b w w'" if "b \<in> S" "b \<noteq> a" for b
    using from' ok(2) assms(2) that by (auto simp: sent_from_def recipients_ok_def)
  note more = hub_more [OF out(1)]
  have rec: "recipients_ok S w'"
    unfolding recipients_ok_def
  proof (intro conjI ballI impI)
    show "write_documented (kernel w')" using ok(3) more by simp
    show "conn_ok b w'" if "b \<in> S" for b using that w'(2) others [of b] by (cases "b = a") (auto simp: bystander_def)
    show "\<exists>c. conns w' b = Some c \<and> tc_state c = KConnected" if "b \<in> S" for b
      using that ok(2) c(3) out(2) by (auto simp: recipients_ok_def)
    show "apart x y w'" if "x \<in> S" "y \<in> S" "x \<noteq> y" for x y
      using that ok(2) by (intro apart_same [OF out(2) c(2)]) (simp add: recipients_ok_def)
  qed
  have ctx: "\<exists>c'. conns w' b = Some c' \<and> tc_context c' = tc_context e \<and> tc_input c' = tc_input e \<and> tc_messageCb c' = tc_messageCb e"
    if "conns w b = Some e" for b e
    using that c(2) out(2) by (cases "b = a") auto
  have "hub_ok h S w'"
    using ok(1) rec more ctx unfolding hub_ok_def by fastforce
  moreover have "callbacks w' = callbacks w" using more by (cases w; cases w') simp
  ultimately have "hub_runs h S rest w'"
  proof (intro hub_runs_after [OF assms(1)])
    show "\<exists>c'. conns w' b = Some c' \<and> input_ok (rest b) (tc_input c') \<and> tc_messageCb c' = tc_messageCb e"
      if "b \<in> S" "conns w b = Some e" for b e
      using ctx [OF that(2)] assms(1) that by (auto simp: hub_runs_def)
  qed
  moreover have "grows S (\<lambda>_. []) w w'"
    unfolding grows_def
  proof (intro ballI conjI allI impI)
    fix b assume b: "b \<in> S"
    show "out_stream b w' = out_stream b w @ []" using w'(3) others [OF b] by (cases "b = a") (auto simp: bystander_def)
    show "has_room b n w'" if "has_room b (n + length []) w" for n
      using that c(2) out(2,3) by (cases "b = a") (auto simp: has_room_def)
  qed
  ultimately show ?thesis using w'(1) more by (simp add: call_event_def hub_broker_def)
qed

text \<open>
  What happens to a hub, as a sequence of events: any bytes that arrive on a connection, those that
  its input buffer can take and those that it cannot; and a socket that can take output again.
  \<open>handled es w Q\<close>: \<open>Q\<close> holds of the outcome, a state or a fault, of handling these events one after the
  other, at any times and whatever the kernel does with its other calls.
\<close>

datatype arrival = Bytes nat string | Overflow nat string | CanWrite nat

fun happens :: "arrival \<Rightarrow> 'z netw_scheme \<Rightarrow> bool" where
  "happens (Bytes a d) w \<longleftrightarrow> delivers d a w \<and> input_takes d a w"
| "happens (Overflow a d) w \<longleftrightarrow> delivers d a w \<and> \<not> input_takes d a w"
| "happens (CanWrite a) w \<longleftrightarrow> True"

fun arrival_at :: "arrival \<Rightarrow> nat" where
  "arrival_at (Bytes a d) = a"
| "arrival_at (Overflow a d) = a"
| "arrival_at (CanWrite a) = a"

fun arrival_event :: "arrival \<Rightarrow> chan_cb" where
  "arrival_event (CanWrite a) = CbConnWrite a"
| "arrival_event e = CbConnRead (arrival_at e)"

fun handled :: "arrival list \<Rightarrow> 'z progw_scheme \<Rightarrow> ('z progw_scheme res \<Rightarrow> bool) \<Rightarrow> bool" where
  "handled [] w Q \<longleftrightarrow> Q (Inr w)"
| "handled (e # es) w Q \<longleftrightarrow> (happens e w \<longrightarrow> (\<forall>t. case call_event (arrival_event e) t w of
     Inl f \<Rightarrow> Q (Inl f) | Inr v \<Rightarrow> handled es v Q))"

lemma handled_mono: "handled es w P \<Longrightarrow> (\<And>r. P r \<Longrightarrow> Q r) \<Longrightarrow> handled es w Q"
  by (induction es arbitrary: w) (auto split: sum.splits)

text \<open>
  What these events come to for the broker. \<open>rest\<close> is what each connection has said without its
  being a whole message yet. A session breaks off at bytes that the input cannot take, and at the
  first line of a \<open>pub\<close> without the second at the end of what has arrived.
\<close>

fun breaks :: "arrival list \<Rightarrow> (nat \<Rightarrow> string) \<Rightarrow> bool" where
  "breaks [] rest \<longleftrightarrow> False"
| "breaks (Bytes a d # es) rest \<longleftrightarrow> parse_bytes (snd (digest (rest a @ d))) = Crash \<or>
     breaks es (rest(a := snd (digest (rest a @ d))))"
| "breaks (Overflow a d # es) rest \<longleftrightarrow> True"
| "breaks (CanWrite a # es) rest \<longleftrightarrow> breaks es rest"

fun rests :: "arrival list \<Rightarrow> (nat \<Rightarrow> string) \<Rightarrow> nat \<Rightarrow> string" where
  "rests [] rest = rest"
| "rests (Bytes a d # es) rest = rests es (rest(a := snd (digest (rest a @ d))))"
| "rests (_ # es) rest = rests es rest"

fun session_broker :: "arrival list \<Rightarrow> (nat \<Rightarrow> string) \<Rightarrow> broker \<Rightarrow> broker" where
  "session_broker [] rest br = br"
| "session_broker (Bytes a d # es) rest br =
     session_broker es (rest(a := snd (digest (rest a @ d)))) (broker_run a (fst (digest (rest a @ d))) br)"
| "session_broker (_ # es) rest br = session_broker es rest br"

fun session_messages :: "arrival list \<Rightarrow> (nat \<Rightarrow> string) \<Rightarrow> broker \<Rightarrow> nat \<Rightarrow> message list" where
  "session_messages [] rest br b = []"
| "session_messages (Bytes a d # es) rest br b = deliveries a (fst (digest (rest a @ d))) br b @
     (if parse_bytes (snd (digest (rest a @ d))) = Crash then []
      else session_messages es (rest(a := snd (digest (rest a @ d)))) (broker_run a (fst (digest (rest a @ d))) br) b)"
| "session_messages (Overflow a d # es) rest br b = []"
| "session_messages (CanWrite a # es) rest br b = session_messages es rest br b"

definition session_received :: "arrival list \<Rightarrow> (nat \<Rightarrow> string) \<Rightarrow> broker \<Rightarrow> nat \<Rightarrow> string" where
  "session_received es rest br b = concat (map write_message (session_messages es rest br b))"

lemma session_received_bytes:
  "session_received (Bytes a d # es) rest br b = received a (fst (digest (rest a @ d))) br b @
     (if parse_bytes (snd (digest (rest a @ d))) = Crash then []
      else session_received es (rest(a := snd (digest (rest a @ d)))) (broker_run a (fst (digest (rest a @ d))) br) b)"
  by (simp add: session_received_def received_deliveries)

lemma session_received_write: "session_received (CanWrite a # es) rest br = session_received es rest br"
  by (simp add: session_received_def fun_eq_iff)

lemma session_messages_ok: "kept_ok br \<Longrightarrow> list_all message_ok (session_messages es rest br b)"
proof (induction es arbitrary: rest br)
  case (Cons e es)
  then show ?case by (cases e) (simp_all add: deliveries_ok digest_ok kept_ok_run)
qed simp

lemma grows_trans: "grows S f u v \<Longrightarrow> grows S g v w \<Longrightarrow> grows S (\<lambda>b. f b @ g b) u w"
  unfolding grows_def by (auto simp: add.assoc) (metis add.assoc add.commute)

text \<open>The outcome of a session.\<close>

definition session_done ::
  "nat \<Rightarrow> nat set \<Rightarrow> arrival list \<Rightarrow> (nat \<Rightarrow> string) \<Rightarrow> 'z progw_scheme \<Rightarrow> 'z progw_scheme res \<Rightarrow> bool" where
  "session_done h S es rest w r \<longleftrightarrow> (if breaks es rest then r \<in> {Inl AssertFail, Inl UndefinedBehaviour}
     else \<exists>v. r = Inr v \<and> hub_runs h S (rests es rest) v \<and> hub_broker h v = session_broker es rest (hub_broker h w) \<and>
       grows S (session_received es rest (hub_broker h w)) w v)"

lemma session_done_bytes:
  assumes "hub_broker h v = broker_run a (fst (digest (rest a @ d))) (hub_broker h w)"
    and "grows S (received a (fst (digest (rest a @ d))) (hub_broker h w)) w v"
    and "parse_bytes (snd (digest (rest a @ d))) \<noteq> Crash"
    and "session_done h S es (rest(a := snd (digest (rest a @ d)))) v r"
  shows "session_done h S (Bytes a d # es) rest w r"
proof -
  have "session_received (Bytes a d # es) rest (hub_broker h w) = (\<lambda>b. received a (fst (digest (rest a @ d))) (hub_broker h w) b @
      session_received es (rest(a := snd (digest (rest a @ d)))) (hub_broker h v) b)"
    using assms(1,3) by (simp add: fun_eq_iff session_received_bytes)
  with assms grows_trans [OF assms(2)] show ?thesis by (auto simp: session_done_def)
qed

lemma session_done_write:
  assumes "hub_broker h v = hub_broker h w" and "grows S (\<lambda>_. []) w v" and "session_done h S es rest v r"
  shows "session_done h S (CanWrite a # es) rest w r"
  using assms grows_trans [OF assms(2)] by (auto simp: session_done_def session_received_write)

lemma room_split: "has_room b (length (xs @ ys)) w \<Longrightarrow> has_room b (length xs) w"
  by (auto simp: has_room_def)

lemma grows_room: "grows S f w v \<Longrightarrow> b \<in> S \<Longrightarrow> has_room b (length (f b @ ys)) w \<Longrightarrow> has_room b (length ys) v"
  by (auto simp: grows_def add.commute)

lemma hub_session:
  fixes w :: "'z progw_scheme"
  assumes "hub_runs h S rest w" and "\<forall>e\<in>set es. arrival_at e \<in> S"
    and "\<forall>b\<in>S. has_room b (length (session_received es rest (hub_broker h w) b)) w"
  shows "handled es w (session_done h S es rest w)"
  using assms
proof (induction es arbitrary: rest w)
  case Nil
  then show ?case by (simp add: session_done_def grows_def session_received_def)
next
  case (Cons e es)
  have es: "\<forall>e\<in>set es. arrival_at e \<in> S" using Cons.prems(2) by simp
  show ?case unfolding handled.simps
  proof (intro impI allI)
    fix t assume hap: "happens e w"
    show "case call_event (arrival_event e) t w of Inl f \<Rightarrow> session_done h S (e # es) rest w (Inl f)
      | Inr v \<Rightarrow> handled es v (session_done h S (e # es) rest w)"
    proof (cases e)
      case (Bytes a d)
      let ?ms = "fst (digest (rest a @ d))" and ?tail = "snd (digest (rest a @ d))"
      have a: "a \<in> S" "delivers d a w" "input_takes d a w" using Cons.prems(2) hap Bytes by simp_all
      note rooms = bspec [OF Cons.prems(3) [unfolded Bytes session_received_bytes]]
      note step = hub_reads_step [OF Cons.prems(1) a room_split [OF rooms], of t]
      show ?thesis
      proof (cases "parse_bytes ?tail = Crash")
        case True
        with step Bytes show ?thesis by (simp add: session_done_def)
      next
        case False
        with step obtain v where v: "call_event (CbConnRead a) t w = Inr v" "hub_runs h S (rest(a := ?tail)) v"
          "hub_broker h v = broker_run a ?ms (hub_broker h w)" "grows S (received a ?ms (hub_broker h w)) w v" by auto
        have "has_room b (length (session_received es (rest(a := ?tail)) (hub_broker h v) b)) v" if "b \<in> S" for b
          using rooms [OF that] grows_room [OF v(4) that] False v(3) by simp
        then have "handled es v (session_done h S es (rest(a := ?tail)) v)" by (intro Cons.IH [OF v(2) es] ballI)
        then have "handled es v (session_done h S (e # es) rest w)"
          unfolding Bytes by (rule handled_mono) (rule session_done_bytes [where rest = rest, OF v(3,4) False])
        with v(1) show ?thesis by (simp add: Bytes)
      qed
    next
      case (Overflow a d)
      with hap Cons.prems(2) have "call_event (CbConnRead a) t w \<in> {Inl AssertFail, Inl UndefinedBehaviour}"
        by (intro hub_overflow_step [where d = d, OF Cons.prems(1)]) simp_all
      with Overflow show ?thesis by (auto simp: session_done_def)
    next
      case (CanWrite a)
      from hub_writes_step [OF Cons.prems(1), of a t] Cons.prems(2) CanWrite obtain v where
        v: "call_event (CbConnWrite a) t w = Inr v" "hub_runs h S rest v" "hub_broker h v = hub_broker h w" "grows S (\<lambda>_. []) w v"
        by auto
      have "has_room b (length (session_received es rest (hub_broker h v) b)) v" if "b \<in> S" for b
        using bspec [OF Cons.prems(3) that] grows_room [OF v(4) that] CanWrite v(3) by (simp add: session_received_write)
      then have "handled es v (session_done h S es rest v)" by (intro Cons.IH [OF v(2) es] ballI)
      then have "handled es v (session_done h S (e # es) rest w)"
        unfolding CanWrite by (rule handled_mono) (rule session_done_write [OF v(3,4)])
      with v(1) show ?thesis by (simp add: CanWrite)
    qed
  qed
qed

text \<open>
  The hub of the example in \<^verbatim>\<open>Hub\<close> as a program: nothing has been read yet, and the kernel
  delivers the string \<open>d\<close> on every socket.
\<close>

definition delivering :: "string \<Rightarrow> syscall list \<Rightarrow> syscall \<Rightarrow> kres" where
  "delivering d calls call = (case call of
     SysReadv fd n \<Rightarrow> (ret (int (length d)))\<lparr>kdata := d\<rparr>
   | _ \<Rightarrow> hub_kernel calls call)"

definition service_conn :: "nat \<Rightarrow> int \<Rightarrow> tcp_connection" where
  "service_conn ch fd = (example_conn KConnected new_buffer)\<lparr>tc_channel := ch, tc_socket := fd, tc_input := new_buffer,
     tc_context := Some {}, tc_messageCb := Some 3\<rparr>"

definition example_progw :: "string \<Rightarrow> user_cb \<Rightarrow> progw" where
  "example_progw d cb = \<lparr>kernel = delivering d, sysLog = [], curTid = 1, threadOf = (\<lambda>_. 1),
     chans = [1 \<mapsto> new_channel 0 5, 2 \<mapsto> new_channel 0 6], loops = [0 \<mapsto> example_eventloop []], threadLoop = [1 \<mapsto> 0],
     tqs = Map.empty, timers = Map.empty, numCreated = 0, conns = [20 \<mapsto> service_conn 1 5, 21 \<mapsto> service_conn 2 6],
     acceptors = Map.empty, servers = Map.empty, connectors = Map.empty, clients = Map.empty, hubs = [9 \<mapsto> example_hub],
     pubsubs = Map.empty, echo_servers = [7 \<mapsto> \<lparr>es_loop = 0, es_server = 8\<rparr>], echo_clients = [], current = 0,
     callbacks = [3 \<mapsto> cb], next_addr = 30, std_out = []\<rparr>"

lemma example_progw_fields [simp]:
  "kernel (example_progw d cb) = delivering d" "sysLog (example_progw d cb) = []" "isInLoopThread l (example_progw d cb)"
  "chans (example_progw d cb) = [1 \<mapsto> new_channel 0 5, 2 \<mapsto> new_channel 0 6]" "loops (example_progw d cb) = [0 \<mapsto> example_eventloop []]"
  "conns (example_progw d cb) = [20 \<mapsto> service_conn 1 5, 21 \<mapsto> service_conn 2 6]" "hubs (example_progw d cb) = [9 \<mapsto> example_hub]"
  "sent fd (example_progw d cb) = []" "callbacks (example_progw d cb) = [3 \<mapsto> cb]"
  "echo_servers (example_progw d cb) = [7 \<mapsto> \<lparr>es_loop = 0, es_server = 8\<rparr>]"
  by (simp_all add: example_progw_def isInLoopThread_def sent_def)

lemma service_conn_fields [simp]:
  "tc_state (service_conn ch fd) = KConnected" "tc_loop (service_conn ch fd) = 0" "tc_channel (service_conn ch fd) = ch"
  "tc_socket (service_conn ch fd) = fd" "tc_output (service_conn ch fd) = new_buffer" "tc_input (service_conn ch fd) = new_buffer"
  "tc_context (service_conn ch fd) = Some {}" "tc_messageCb (service_conn ch fd) = Some 3"
  by (simp_all add: service_conn_def)

lemma example_recipients: "recipients_ok {20, 21} (example_progw d cb)"
proof -
  have "conn_ok b (example_progw d cb)" if "b \<in> {20, 21}" for b
    using that
    by (auto simp: conn_ok_def loop_ok_def usable_def example_eventloop_def pp_ok_def pp_new_def keys_def po.admissible_def
        new_channel_def valid_fd_def buf_inv_new contents_new isWriting_def kNoneEvent_def)
  moreover have "write_documented (delivering d)" by (simp add: write_documented_def delivering_def hub_kernel_def ret_def)
  ultimately show ?thesis by (auto simp: recipients_ok_def apart_def)
qed

lemma example_progw_hub: "hub_ok 9 {20, 21} (example_progw d cb)"
proof -
  have "running_clock (delivering d)"
    by (simp add: running_clock_def delivering_def hub_kernel_def ret_def ts_of_timeval_def int64_def kMicroSecondPerSecond_def)
  moreover have "topics_ok {20, 21} example_hub" by (auto simp: topics_ok_def example_hub_def new_topic_def)
  ultimately show ?thesis using example_recipients by (auto simp: hub_ok_def)
qed

lemma example_delivers:
  "0 < length d \<Longrightarrow> length d < 1000 \<Longrightarrow> delivers d 20 (example_progw d cb) \<and> input_takes d 20 (example_progw d cb)"
  by (auto simp: delivers_def input_takes_def takes_def overrun_def read_cap_def extrabuf_size_def delivering_def ret_def Let_def
      new_channel_def bufsize_def new_buffer_def kCheapPrepend_def kInitialSize_def)

lemma example_room: "n < 1000 \<Longrightarrow> b \<in> {20, 21} \<Longrightarrow> has_room b n (example_progw d cb)"
  by (auto simp: has_room_def spare_def new_buffer_def bufsize_def kCheapPrepend_def kInitialSize_def)

lemma handled_step:
  assumes "handled (e # es) w Q" and "happens e w" and "\<And>f. \<not> Q (Inl f)"
  obtains v where "call_event (arrival_event e) t w = Inr v" "handled es v Q"
proof -
  from assms(1,2) have "case call_event (arrival_event e) t w of Inl f \<Rightarrow> Q (Inl f) | Inr v \<Rightarrow> handled es v Q" by simp
  then show thesis using assms(3) that by (cases "call_event (arrival_event e) t w") auto
qed


text \<open>
  Connection 20 subscribes and says something, with an incomplete message behind it, and is ready for
  output. With half a \<open>pub\<close> instead the hub crashes.
\<close>

definition example_talk :: string where
  "example_talk = subscribe_message ''t'' @ publish_message ''t'' ''hi'' @ ''unsu''"

definition example_half :: string where
  "example_half = ''pub t'' @ kCRLF"

lemma example_half: "parse_bytes example_half = Crash" "digest example_half = ([], example_half)" "length example_half = 7"
proof -
  show c: "parse_bytes example_half = Crash"
    using parse_line [of "''pub''" "''t''" "[]"] by (simp add: example_half_def crlf_free_def kCRLF_def)
  show "digest example_half = ([], example_half)" by (rule digest_unread) (simp add: unread_def c)
  show "length example_half = 7" by (simp add: example_half_def kCRLF_def)
qed

lemma example_talk: "digest example_talk = ([Sub ''t'', Pub ''t'' ''hi''], ''unsu'')" "parse_bytes ''unsu'' = More"
  "length example_talk = 22"
proof -
  show more: "parse_bytes ''unsu'' = More" by (simp add: parse_bytes_def crlf_free_def kCRLF_def)
  have "list_all message_ok [Sub ''t'', Pub ''t'' ''hi'']" by (simp add: crlf_free_def kCRLF_def)
  from digest_written [OF this, of "''unsu''"] more
  show "digest example_talk = ([Sub ''t'', Pub ''t'' ''hi''], ''unsu'')" by (simp add: example_talk_def unread_def)
  show "length example_talk = 22" by (simp add: example_talk_def publish_message_def subscribe_message_def kCRLF_def)
qed

lemma example_broker_service [simp]:
  "hub_broker 9 (example_progw d cb) = \<lparr>br_subs = (\<lambda>k. if k = ''t'' then {21} else {}), br_kept = (\<lambda>_. None)\<rparr>"
  by (auto simp: hub_broker_def topic_broker_def example_hub_def new_topic_def kept_in_def ts_valid_def ts_invalid_def fun_eq_iff)

lemma example_hub_runs: "hub_runs 9 {20, 21} (\<lambda>_. []) (example_progw d (HubMessage 9))"
  using example_progw_hub by (auto simp: hub_runs_def input_ok_def extrabuf_size_def buf_inv_new contents_new)

lemma example_received:
  assumes "b \<in> {20, 21}"
  shows "session_received [Bytes 20 example_talk, CanWrite 20] (\<lambda>_. []) (hub_broker 9 (example_progw d cb)) b = publish_message ''t'' ''hi''"
    and "session_received [Bytes 20 example_talk] (\<lambda>_. []) (hub_broker 9 (example_progw d cb)) b = publish_message ''t'' ''hi''"
  using assms by (auto simp: session_received_def example_talk)

lemma example_rooms:
  "\<forall>b\<in>{20, 21}. has_room b (length (session_received [Bytes 20 example_talk, CanWrite 20] (\<lambda>_. [])
     (hub_broker 9 (example_progw d cb)) b)) (example_progw d cb)"
proof
  fix b :: nat assume b: "b \<in> {20, 21}"
  show "has_room b (length (session_received [Bytes 20 example_talk, CanWrite 20] (\<lambda>_. [])
     (hub_broker 9 (example_progw d cb)) b)) (example_progw d cb)"
    unfolding example_received [OF b] by (rule example_room [OF _ b]) (simp add: publish_message_def kCRLF_def)
qed


section \<open>From the publishers to a subscriber\<close>



section \<open>The echo server\<close>

lemma calm_quit: "calm fd w (el_mod l (\<lambda>e. e\<lparr>el_quit := True\<rparr>) w)"
  by (auto simp: calm_def el_mod_def isInLoopThread_def rel_option_iff split: option.splits)

lemma calm_streams:
  assumes "\<And>fd. calm fd w v"
  shows "out_stream b v = out_stream b w" "has_room b n v = has_room b n w"
  using calm_sent [OF assms] calmD(3) [OF assms] by (simp_all add: out_stream_def has_room_def split: option.splits)

text \<open>The half-closes among the calls made from \<open>w\<close> to \<open>w'\<close>.\<close>

definition half_closings :: "'z netw_scheme \<Rightarrow> 'z netw_scheme \<Rightarrow> syscall list \<Rightarrow> bool" where
  "half_closings w w' closes \<longleftrightarrow> (\<exists>calls. sysLog w' = sysLog w @ calls \<and> filter half_closes calls = closes)"

lemma half_closings_trans: "half_closings u v xs \<Longrightarrow> half_closings v w ys \<Longrightarrow> half_closings u w (xs @ ys)"
  by (force simp: half_closings_def)

lemma half_closings_same: "sysLog w' = sysLog w \<Longrightarrow> half_closings w w' []"
  by (simp add: half_closings_def)

lemma half_closings_send:
  assumes "recipients_ok S w" and "a \<in> S" and "has_room a (length m) w" and "tc_send a m w = Inr u"
  shows "half_closings w u []"
proof -
  from assms(1,2) obtain c where c: "conn_ok a w" "conns w a = Some c" "tc_state c = KConnected" "write_documented (kernel w)"
    by (auto simp: recipients_ok_def)
  then have "buf_inv (tc_output c)" by (auto simp: conn_ok_def)
  with assms(3) c(2) spare_room [of "tc_output c" m] have "send_room m (tc_output c)" "length m < 2 ^ 31"
    by (auto simp: has_room_def)
  from sendInLoop_ok [OF c(1,2) this(1) c(4) this(2)] assms(4) tc_send_here [OF c(1-3), of m] have "steady a w u"
    by (simp add: delivered_def)
  then show ?thesis by (auto simp: steady_def half_closings_def filter_empty_conv list_all_iff)
qed

lemma send_and_shutdown:
  fixes w :: "'z progw_scheme"
  assumes ok: "recipients_ok S w" "a \<in> S" "has_room a (length m) w"
    and sd: "\<And>calls fd. kret (kernel w calls (SysShutdownWr fd)) \<ge> 0"
  obtains w' c where "bindR (tc_send a m w) (tc_shutdown a) = Inr w'" "conns w' a = Some c" "tc_state c = KDisconnecting"
    "map_option tc_input (conns w' a) = map_option tc_input (conns w a)"
    "out_stream a w' = out_stream a w @ m" "\<And>b. b \<in> S \<Longrightarrow> b \<noteq> a \<Longrightarrow> out_stream b w' = out_stream b w"
    "fst (view w') = fst (view w)"
    "half_closings w w' (if contents (tc_output c) = [] then [SysShutdownWr (tc_socket c)] else [])"
proof -
  from mail.post_one [OF ok] obtain u where u: "tc_send a m w = Inr u" "mail.gets S (\<lambda>d. if d = a then m else []) w u" by blast
  then have u': "recipients_ok S u" "only_outputs w u" "\<And>b. b \<in> S \<Longrightarrow> out_stream b u = out_stream b w @ (if b = a then m else [])"
    by (simp_all add: mail.gets_def)
  from u'(1) ok(2) obtain c where c: "conn_ok a u" "conns u a = Some c" "tc_state c = KConnected" by (auto simp: recipients_ok_def)
  then obtain ch where ch: "chans u (tc_channel c) = Some ch" "isWriting ch \<longleftrightarrow> contents (tc_output c) \<noteq> []"
    by (auto simp: conn_ok_def)
  let ?x = "tc_mod a (setState KDisconnecting) u"
  have kernel: "kernel u = kernel w" using u'(2) by (simp add: only_outputs_def same_rest_def)
  have sd': "\<not> kret (kernel w calls (SysShutdownWr fd)) < 0" for calls fd using sd [of calls fd] by simp
  define w' where "w' = (if isWriting ch then ?x else snd (sys (SysShutdownWr (tc_socket c)) ?x))"
  have run: "tc_shutdown a u = Inr w'"
    using tc_shutdown_here [OF c ch(1)] sd' by (simp add: w'_def shutdownWrite_def sys_def Let_def kernel)
  have "half_closings u w' (if contents (tc_output c) = [] then [SysShutdownWr (tc_socket c)] else [])"
    using ch(2) by (simp add: half_closings_def w'_def half_closes_def)
  from half_closings_trans [OF half_closings_send [OF ok u(1)] this]
  have closes: "half_closings w w' (if contents (tc_output c) = [] then [SysShutdownWr (tc_socket c)] else [])" by simp
  have "conns w' = conns ?x" by (simp add: w'_def)
  moreover have "sent fd w' = sent fd u" for fd
    using sent_more [of "snd (sys (SysShutdownWr (tc_socket c)) ?x)" ?x "[SysShutdownWr (tc_socket c)]" fd]
    by (simp add: w'_def writes_to_def)
  ultimately have out: "out_stream b w' = out_stream b u" for b
    using c(2) by (auto simp: out_stream_def setState_def split: option.splits)
  have "rel_option same_but_output (conns w a) (conns u a)" using u'(2) by (simp add: only_outputs_def)
  then obtain d where d: "conns w a = Some d" "tc_input d = tc_input c" using c(2) by (auto simp: option_rel_Some2 same_but_output_def)
  have after: "conns w' a = Some (setState KDisconnecting c)" "fst (view w') = fst (view u)"
    using c(2) by (simp_all add: w'_def view_def tc_mod_def)
  show thesis
  proof (rule that [of w' "setState KDisconnecting c"])
    show "bindR (tc_send a m w) (tc_shutdown a) = Inr w'" by (simp add: u(1) run)
    show "conns w' a = Some (setState KDisconnecting c)" by (fact after(1))
    show "tc_state (setState KDisconnecting c) = KDisconnecting" by (simp add: setState_def)
    show "map_option tc_input (conns w' a) = map_option tc_input (conns w a)"
      by (simp add: after(1) d setState_def)
    show "out_stream a w' = out_stream a w @ m" by (simp add: out u'(3) ok(2))
    show "out_stream b w' = out_stream b w" if "b \<in> S" "b \<noteq> a" for b by (simp add: out u'(3) that)
    show "fst (view w') = fst (view w)" using after(2) view_tc_send [OF u(1)] by simp
    show "half_closings w w' (if contents (tc_output (setState KDisconnecting c)) = []
        then [SysShutdownWr (tc_socket (setState KDisconnecting c))] else [])"
      using closes by (simp add: setState_def split: if_splits)
  qed
qed

definition echo_reply :: "string \<Rightarrow> string" where
  "echo_reply msg = (if msg = ''exit'' @ [CHR 0x0A] then ''bye'' @ [CHR 0x0A] else msg)"

lemma echo_onMessage_ok:
  fixes w :: "'z progw_scheme"
  assumes ok: "recipients_ok S w" "a \<in> S" and c: "conns w a = Some c" "buf_inv (tc_input c)" "contents (tc_input c) = msg"
    and e: "echo_servers w e = Some x" "loops w (es_loop x) = Some y" and room: "has_room a (length (echo_reply msg)) w"
    and sd: "\<And>calls fd. kret (kernel w calls (SysShutdownWr fd)) \<ge> 0"
  shows "\<exists>w' c' y'. echo_onMessage e a w = Inr w' \<and> out_stream a w' = out_stream a w @ echo_reply msg \<and>
    (\<forall>b\<in>S. b \<noteq> a \<longrightarrow> out_stream b w' = out_stream b w) \<and> conns w' a = Some c' \<and> contents (tc_input c') = [] \<and>
    tc_state c' = (if msg = ''exit'' @ [CHR 0x0A] then KDisconnecting else KConnected) \<and>
    loops w' (es_loop x) = Some y' \<and> (el_quit y' \<longleftrightarrow> el_quit y \<or> msg = ''quit'' @ [CHR 0x0A]) \<and>
    half_closings w w' (if msg = ''exit'' @ [CHR 0x0A] \<and> contents (tc_output c') = [] then [SysShutdownWr (tc_socket c')] else [])"
proof -
  have empty: "contents (retrieveAll (tc_input c)) = []" by (simp add: retrieveAll_def contents_def)
  define v where "v = tc_mod a (\<lambda>d. d\<lparr>tc_input := retrieveAll (tc_input c)\<rparr>) w"
  note in_v = input_changed [where a = a and b = "retrieveAll (tc_input c)" and w = w, folded v_def]
  have va: "conns v a = Some (c\<lparr>tc_input := retrieveAll (tc_input c)\<rparr>)" "loops v = loops w" "echo_servers v e = Some x"
    "kernel v = kernel w" "recipients_ok S v" using c(1) e(1) in_v(1) [OF ok(1)] by (simp_all add: v_def) (simp add: tc_mod_def)
  have run: "echo_onMessage e a w = bindR (if msg = ''exit'' @ [CHR 0x0A] then bindR (tc_send a (''bye'' @ [CHR 0x0A]) v) (tc_shutdown a) else Inr v)
     (\<lambda>w2. bindR (if msg = ''quit'' @ [CHR 0x0A] then bindR (es_get e w2) (\<lambda>x. el_quit_now (es_loop x) w2) else Inr w2) (tc_send a msg))"
    using c retrieveAsString_ok [OF c(2)] by (simp add: echo_onMessage_def tc_get_def v_def Let_def)
  have quits: "\<exists>y'. loops w' (es_loop x) = Some y' \<and> el_quit y' = b"
    if "fst (view w') = fst (view u)" "loops u (es_loop x) = Some z" "el_quit z = b" for w' u :: "'z progw_scheme" and z b
    using fun_cong [OF that(1), of "es_loop x"] that(2,3) by (auto simp: view_def)
  show ?thesis
  proof (cases "msg = ''exit'' @ [CHR 0x0A]")
    case True
    have "has_room a (length (''bye'' @ [CHR 0x0A])) v" using room True in_v(2) by (simp add: echo_reply_def)
    from send_and_shutdown [OF va(5) ok(2) this] sd va(4) obtain w' c' where
      w': "bindR (tc_send a (''bye'' @ [CHR 0x0A]) v) (tc_shutdown a) = Inr w'" "conns w' a = Some c'" "tc_state c' = KDisconnecting"
      "map_option tc_input (conns w' a) = map_option tc_input (conns v a)"
      "out_stream a w' = out_stream a v @ ''bye'' @ [CHR 0x0A]" "\<And>b. b \<in> S \<Longrightarrow> b \<noteq> a \<Longrightarrow> out_stream b w' = out_stream b v"
      "fst (view w') = fst (view v)"
      "half_closings v w' (if contents (tc_output c') = [] then [SysShutdownWr (tc_socket c')] else [])" by (metis (no_types, lifting))
    have "tc_send a msg w' = Inr w'" using w'(2,3) by (simp add: tc_send_def tc_get_def)
    then have "echo_onMessage e a w = Inr w'" using w'(1) True by (simp add: run)
    moreover have "contents (tc_input c') = []" using w'(2,4) va(1) empty by simp
    moreover have "half_closings w w' (if contents (tc_output c') = [] then [SysShutdownWr (tc_socket c')] else [])"
      using half_closings_trans [OF half_closings_same w'(8), of w] by (simp add: v_def)
    ultimately show ?thesis
      using w'(2,3,5,6) True quits [OF w'(7), of y "el_quit y"] va(2) e(2) in_v(3) by (auto simp: echo_reply_def)
  next
    case False
    define u where "u = (if msg = ''quit'' @ [CHR 0x0A] then el_mod (es_loop x) (\<lambda>e. e\<lparr>el_quit := True\<rparr>) v else v)"
    have calm: "calm fd v u" for fd by (simp add: u_def calm_quit)
    have "echo_onMessage e a w = tc_send a msg u"
      using False e va by (simp add: run u_def es_get_def el_quit_now_def el_get_def)
    moreover have ru: "has_room a (length msg) u" using room False in_v(2) calm_streams(2) [OF calm] by (simp add: echo_reply_def)
    from mail.post_one [OF recipients_calm [OF va(5) calm] ok(2) ru] obtain w' where
      w': "tc_send a msg u = Inr w'" "mail.gets S (\<lambda>d. if d = a then msg else []) u w'" by blast
    from w'(2) have g: "recipients_ok S w'" "only_outputs u w'" "\<And>b. b \<in> S \<Longrightarrow> out_stream b w' = out_stream b u @ (if b = a then msg else [])"
      by (simp_all add: mail.gets_def)
    have "conns u a = Some (c\<lparr>tc_input := retrieveAll (tc_input c)\<rparr>)" using va(1) calmD(3) [OF calm] by simp
    with g(2) obtain c' where c': "conns w' a = Some c'" "tc_input c' = retrieveAll (tc_input c)"
      by (auto simp: only_outputs_def same_but_output_def option_rel_Some1 dest!: spec [of _ a])
    moreover have "tc_state c' = KConnected" using g(1) ok(2) c'(1) by (auto simp: recipients_ok_def)
    moreover have "fst (view w') = fst (view u)" using view_tc_send [OF w'(1)] by simp
    then obtain y' where "loops w' (es_loop x) = Some y'" "el_quit y' \<longleftrightarrow> el_quit y \<or> msg = ''quit'' @ [CHR 0x0A]"
      using quits [of w' u "if msg = ''quit'' @ [CHR 0x0A] then y\<lparr>el_quit := True\<rparr> else y"] va(2) e(2)
      by (auto simp: u_def split: if_splits)
    moreover have "out_stream b w' = out_stream b w @ (if b = a then msg else [])" if "b \<in> S" for b
      using g(3) [OF that] calm_streams(1) [OF calm] in_v(3) by simp
    moreover have "sysLog u = sysLog w" by (simp add: u_def v_def el_mod_def)
    then have "half_closings w w' []"
      using half_closings_trans [OF half_closings_same half_closings_send [OF recipients_calm [OF va(5) calm] ok(2) ru w'(1)], of w]
      by simp
    ultimately show ?thesis
      using w'(1) ok(2) False empty by (intro exI [of _ w'] exI [of _ c'] exI [of _ y']) (simp add: echo_reply_def)
  qed
qed


definition example_exit :: string where
  "example_exit = ''exit'' @ [CHR 0x0A]"

lemma example_exit: "length example_exit = 5" "echo_reply example_exit = ''bye'' @ [CHR 0x0A]"
  by (simp_all add: example_exit_def echo_reply_def)


end
