(* ===== verification/Loop_Wakeup.thy ===== *)
theory Loop_Wakeup
  imports Event_Loop
begin

text \<open>
  Threads against one loop: \<open>runInLoop\<close>, \<open>queueInLoop\<close> and \<open>wakeup\<close> of other threads
  interleave with the steps of the loop's own thread, inside \<open>loop()\<close> and outside of it
  (\<^verbatim>\<open>net/EventLoop.cc\<close>). One step is one critical section of \<open>mutex_\<close>, one system call or one
  functor. The steps on the queue and on the event descriptor are those of the model's
  \<open>queueInLoop\<close>, \<open>runInLoop\<close>, \<open>doPendingFunctor\<close> and \<open>handleRead\<close>, as the first lemmas show.
\<close>

section \<open>The shared state\<close>

text \<open>
  Where the loop's thread is: outside of \<open>loop()\<close>, before it was called or after it returned;
  waiting in \<open>poll\<close>; handling active channels; or inside \<open>doPendingFunctor\<close> with the functors
  still to run. \<open>counter\<close> is the event descriptor's value, \<open>owed\<close> the number of other threads
  between the \<open>queueInLoop\<close> and the \<open>wakeup\<close> of their \<open>runInLoop\<close>. \<open>submitted\<close> and \<open>executed\<close>
  are the history, and \<open>ws_early\<close> is what the loop's own thread has queued outside of \<open>loop()\<close>
  since the functors were last taken.
\<close>

datatype place = Outside | Polling | Handling | Running "functor_t list"

record wstate =
  ws_place :: place
  ws_pending :: "functor_t list"
  ws_counter :: nat
  ws_owed :: nat
  ws_early :: "functor_t list"
  submitted :: "functor_t list"
  executed :: "functor_t list"

fun ws_calling :: "place \<Rightarrow> bool" where
  "ws_calling (Running fs) = True"
| "ws_calling _ = False"

fun ws_running :: "place \<Rightarrow> functor_t list" where
  "ws_running (Running fs) = fs"
| "ws_running _ = []"

definition ws_start :: wstate where
  "ws_start = \<lparr>ws_place = Outside, ws_pending = [], ws_counter = 0, ws_owed = 0, ws_early = [], submitted = [], executed = []\<rparr>"

definition ws_push :: "functor_t \<Rightarrow> wstate \<Rightarrow> wstate" where
  "ws_push fn s = s\<lparr>ws_pending := ws_pending s @ [fn], submitted := submitted s @ [fn]\<rparr>"

definition ws_wake :: "wstate \<Rightarrow> wstate" where
  "ws_wake s = s\<lparr>ws_counter := Suc (ws_counter s)\<rparr>"

text \<open>\<open>queueInLoop\<close> by the loop's own thread wakes up only inside \<open>doPendingFunctor\<close>.\<close>

definition ws_queue_here :: "functor_t \<Rightarrow> wstate \<Rightarrow> wstate" where
  "ws_queue_here fn s = (if ws_calling (ws_place s) then ws_wake (ws_push fn s) else ws_push fn s)"

section \<open>Steps\<close>

text \<open>
  \<open>allow\<close> says whether other threads use \<open>queueInLoop\<close> on its own, as \<^verbatim>\<open>TcpServer.cc:95\<close> does
  for a loop that is not the caller's. \<open>poll\<close> comes back for the event descriptor, for another
  descriptor, or after its timeout. After each iteration \<open>loop()\<close> goes on or returns.
\<close>

inductive ws_step :: "bool \<Rightarrow> wstate \<Rightarrow> wstate \<Rightarrow> bool" for allow where
  run_push: "ws_step allow s ((ws_push fn s)\<lparr>ws_owed := Suc (ws_owed s)\<rparr>)"
| run_wake: "ws_owed s = Suc n \<Longrightarrow> ws_step allow s (ws_wake (s\<lparr>ws_owed := n\<rparr>))"
| queue_elsewhere: "allow \<Longrightarrow> ws_step allow s (ws_push fn s)"
| queue_here: "ws_place s \<noteq> Polling \<Longrightarrow> ws_place s \<noteq> Outside \<Longrightarrow> ws_step allow s (ws_queue_here fn s)"
| queue_outside: "ws_place s = Outside \<Longrightarrow>
    ws_step allow s ((ws_queue_here fn s)\<lparr>ws_early := ws_early s @ [fn]\<rparr>)"
| enter_loop: "ws_place s = Outside \<Longrightarrow> ws_step allow s (s\<lparr>ws_place := Polling\<rparr>)"
| poll_returns: "ws_place s = Polling \<Longrightarrow> ws_step allow s (s\<lparr>ws_place := Handling\<rparr>)"
| read_counter: "ws_place s = Handling \<Longrightarrow> ws_step allow s (s\<lparr>ws_counter := 0\<rparr>)"
| take_pending: "ws_place s = Handling \<Longrightarrow>
    ws_step allow s (s\<lparr>ws_place := Running (ws_pending s), ws_pending := [], ws_early := []\<rparr>)"
| run_one: "ws_place s = Running (fn # fs) \<Longrightarrow>
    ws_step allow s (s\<lparr>ws_place := Running fs, executed := executed s @ [fn]\<rparr>)"
| run_done: "ws_place s = Running [] \<Longrightarrow> ws_step allow s (s\<lparr>ws_place := Polling\<rparr>)"
| loop_returns: "ws_place s = Running [] \<Longrightarrow> ws_step allow s (s\<lparr>ws_place := Outside\<rparr>)"

inductive ws_reach :: "bool \<Rightarrow> wstate \<Rightarrow> bool" for allow where
  start: "ws_reach allow ws_start"
| step: "ws_reach allow s \<Longrightarrow> ws_step allow s s' \<Longrightarrow> ws_reach allow s'"

inductive_cases ws_stepE: "ws_step allow s s'"

lemmas ws_defs = ws_push_def ws_wake_def ws_queue_here_def

section \<open>The steps are those of the code\<close>

text \<open>What the shared state shows of a loop.\<close>

definition ws_shows :: "nat \<Rightarrow> 'z reactor_scheme \<Rightarrow> wstate \<Rightarrow> bool" where
  "ws_shows l w s \<longleftrightarrow> loops w l \<noteq> None \<and> pending l w = ws_pending s \<and> calling l w = ws_calling (ws_place s)"

definition wakeups :: "nat \<Rightarrow> 'z reactor_scheme \<Rightarrow> nat" where
  "wakeups l w = length (filter (\<lambda>c. c = wake_call l w) (sysLog w))"

lemma queue_here_is_code:
  assumes "ws_shows l w s" and "isInLoopThread l w"
  shows "\<exists>w'. queueInLoop l fn w = Inr w' \<and> ws_shows l w' (ws_queue_here fn s) \<and>
    wakeups l w' + ws_counter s = wakeups l w + ws_counter (ws_queue_here fn s)"
  using assms by (auto simp: ws_shows_def queueInLoop_eq ws_defs wakeups_def)

lemma queue_elsewhere_is_code:
  assumes "ws_shows l w s" and "\<not> isInLoopThread l w"
  shows "\<exists>w'. queueInLoop l fn w = Inr w' \<and> ws_shows l w' (ws_push fn s) \<and> wakeups l w' = wakeups l w"
  using assms by (auto simp: ws_shows_def queueInLoop_eq ws_defs wakeups_def)

lemma run_elsewhere_is_code:
  assumes "ws_shows l w s" and "\<not> isInLoopThread l w"
  shows "\<exists>w'. runInLoop l fn body w = Inr w' \<and> ws_shows l w' (ws_wake (ws_push fn s)) \<and>
    wakeups l w' = Suc (wakeups l w)"
  using assms by (auto simp: ws_shows_def runInLoop_elsewhere ws_defs wakeups_def)

text \<open>
  \<open>doPendingFunctor\<close> is \<open>take_pending\<close>, one \<open>run_one\<close> for each functor taken, with whatever the
  functor queues in between, and the flag cleared at the end.
\<close>

lemma take_pending_is_code:
  assumes "ws_shows l w s" and "ws_place s = Handling"
  defines "w1 \<equiv> el_mod l (\<lambda>e. e\<lparr>el_pending := []\<rparr>) (el_mod l (\<lambda>e. e\<lparr>el_calling := True\<rparr>) w)"
  shows "doPendingFunctor exec l w = bindR (foldR exec (ws_pending s) w1) (\<lambda>w2.
      bindR (el_get l w2) (\<lambda>_. Inr (el_mod l (\<lambda>e. e\<lparr>el_calling := False\<rparr>) w2)))"
    and "ws_shows l w1 (s\<lparr>ws_place := Running (ws_pending s), ws_pending := [], ws_early := []\<rparr>)"
  using assms by (auto simp: ws_shows_def doPendingFunctor_def el_get_def pending_def calling_def Let_def)

lemma run_one_is_code:
  assumes "ws_shows l w s" and "ws_place s = Running (fn # fs)"
  shows "ws_shows l w (s\<lparr>ws_place := Running fs, executed := executed s @ [fn]\<rparr>)"
  using assms by (simp add: ws_shows_def)

lemma run_done_is_code:
  assumes "ws_shows l w s" and "ws_place s = Running []" and "p = Polling \<or> p = Outside"
  shows "ws_shows l (el_mod l (\<lambda>e. e\<lparr>el_calling := False\<rparr>) w) (s\<lparr>ws_place := p\<rparr>)"
  using assms by (auto simp: ws_shows_def pending_def calling_def)

lemma read_counter_is_code:
  assumes "ws_shows l w s" and "ws_place s = Handling"
  shows "\<exists>w'. el_handleRead l w = Inr w' \<and> ws_shows l w' (s\<lparr>ws_counter := 0\<rparr>)"
  using assms by (auto simp: ws_shows_def el_handleRead_def el_get_def pending_def calling_def)

section \<open>Invariants\<close>

text \<open>Nothing is lost, run twice or reordered.\<close>

definition fifo_inv :: "wstate \<Rightarrow> bool" where
  "fifo_inv s \<longleftrightarrow> executed s @ ws_running (ws_place s) @ ws_pending s = submitted s"

lemma fifo_step: "ws_step allow s s' \<Longrightarrow> fifo_inv s \<Longrightarrow> fifo_inv s'"
  by (induction rule: ws_step.induct) (auto simp: fifo_inv_def ws_defs)

lemma fifo_reach: "ws_reach allow s \<Longrightarrow> fifo_inv s"
  by (induction rule: ws_reach.induct) (auto simp: fifo_inv_def ws_start_def fifo_step [unfolded fifo_inv_def])

text \<open>
  No lost wake-up, when other threads go through \<open>runInLoop\<close>: unless the loop is on its way to
  \<open>doPendingFunctor\<close>, either the event descriptor is readable or a thread is about to make it so, or
  there is nothing pending but what the loop's own thread queued outside of \<open>loop()\<close>.
\<close>

definition awake_inv :: "wstate \<Rightarrow> bool" where
  "awake_inv s \<longleftrightarrow> (ws_place s \<noteq> Handling \<longrightarrow> ws_counter s + ws_owed s = 0 \<longrightarrow> ws_pending s = ws_early s)"

lemma place_cases: "p \<noteq> Polling \<Longrightarrow> p \<noteq> Outside \<Longrightarrow> ws_calling p \<or> p = Handling"
  by (cases p) simp_all

lemma awake_step: "ws_step False s s' \<Longrightarrow> awake_inv s \<Longrightarrow> awake_inv s'"
  by (induction rule: ws_step.induct) (auto simp: awake_inv_def ws_defs dest: place_cases)

lemma awake_reach: "ws_reach False s \<Longrightarrow> awake_inv s"
proof (induction rule: ws_reach.induct)
  case start
  then show ?case by (simp add: awake_inv_def ws_start_def)
qed (rule awake_step)

text \<open>A run: the loop's own thread queues a functor and enters \<open>loop()\<close>, and \<open>poll\<close> returns.\<close>

definition early_state :: "functor_t \<Rightarrow> wstate" where
  "early_state fn = ws_start\<lparr>ws_place := Polling, ws_pending := [fn], ws_early := [fn], submitted := [fn]\<rparr>"

lemma early_reach: "ws_reach allow (early_state fn)"
proof -
  let ?s = "(ws_queue_here fn ws_start)\<lparr>ws_early := ws_early ws_start @ [fn]\<rparr>"
  have "ws_reach allow ?s" by (rule ws_reach.step [OF ws_reach.start ws_step.queue_outside]) (simp add: ws_start_def)
  then have "ws_reach allow (?s\<lparr>ws_place := Polling\<rparr>)"
    by (rule ws_reach.step [OF _ ws_step.enter_loop]) (simp add: ws_defs ws_start_def)
  then show ?thesis by (simp add: early_state_def ws_defs ws_start_def)
qed

lemma early_runs: "ws_reach allow ((early_state fn)\<lparr>ws_place := Running [], ws_pending := [], ws_early := [], executed := [fn]\<rparr>)"
proof -
  let ?h = "(early_state fn)\<lparr>ws_place := Handling\<rparr>"
  let ?r = "?h\<lparr>ws_place := Running (ws_pending ?h), ws_pending := [], ws_early := []\<rparr>"
  have "ws_reach allow ?h"
    by (rule ws_reach.step [OF early_reach ws_step.poll_returns]) (simp add: early_state_def)
  then have "ws_reach allow ?r" by (rule ws_reach.step [OF _ ws_step.take_pending]) simp
  then have "ws_reach allow (?r\<lparr>ws_place := Running [], executed := executed ?r @ [fn]\<rparr>)"
    by (rule ws_reach.step [OF _ ws_step.run_one]) (simp add: early_state_def)
  then show ?thesis by (simp add: early_state_def ws_start_def)
qed

section \<open>Properties\<close>

text \<open>C15: under every interleaving of the threads each functor handed to the loop is executed at
  most once and in the order of submission: what has run, what is being run and what is pending
  make up the sequence of all functors ever submitted.\<close>

theorem functors_fifo:
  assumes "ws_reach allow s"
  shows "executed s @ ws_running (ws_place s) @ ws_pending s = submitted s"
  using fifo_reach [OF assms] by (simp add: fifo_inv_def)

theorem functors_fifo_witness:
  "let s = (early_state (FnUser 1))\<lparr>ws_place := Running [], ws_pending := [], ws_early := [], executed := [FnUser 1]\<rparr>
   in executed s @ ws_running (ws_place s) @ ws_pending s = [FnUser 1]"
  using functors_fifo [OF early_runs [of True "FnUser 1"]] by (simp add: early_state_def)

text \<open>C4: when a wake-up can be lost. Other threads hand their functors over with \<open>runInLoop\<close>. Whenever
  the loop waits in \<open>poll\<close> while a functor is pending, the event descriptor is readable, so that \<open>poll\<close>
  returns, or the thread that queued it has not yet done its \<open>wakeup\<close>, or every pending functor was
  queued by the loop's own thread outside of \<open>loop()\<close>. That last case does happen:
  \<open>queueInLoop\<close> does not wake the loop up then, and the functor waits until \<open>poll\<close> returns for
  another reason.\<close>

theorem no_lost_wakeup:
  "(\<forall>s. ws_reach False s \<and> ws_place s = Polling \<and> ws_pending s \<noteq> [] \<longrightarrow>
      0 < ws_counter s \<or> 0 < ws_owed s \<or> ws_pending s = ws_early s) \<and>
   (\<exists>s. ws_reach False s \<and> ws_place s = Polling \<and> ws_pending s = [fn] \<and> ws_counter s = 0 \<and> ws_owed s = 0)"
proof (intro conjI allI impI; (elim conjE)?)
  fix s assume "ws_reach False s" "ws_place s = Polling" "ws_pending s \<noteq> []"
  then show "0 < ws_counter s \<or> 0 < ws_owed s \<or> ws_pending s = ws_early s"
    using awake_reach [of s] by (auto simp: awake_inv_def)
next
  show "\<exists>s. ws_reach False s \<and> ws_place s = Polling \<and> ws_pending s = [fn] \<and> ws_counter s = 0 \<and> ws_owed s = 0"
    using early_reach [of False fn] by (intro exI [of _ "early_state fn"]) (simp add: early_state_def ws_start_def)
qed

lemma reach_pending: "ws_reach allow ((ws_push (FnUser 1) ws_start)\<lparr>ws_owed := 1, ws_place := Polling\<rparr>)"
proof -
  have "ws_reach allow ((ws_push (FnUser 1) ws_start)\<lparr>ws_owed := 1\<rparr>)"
    using ws_reach.step [OF ws_reach.start ws_step.run_push, of allow "FnUser 1"] by (simp add: ws_defs ws_start_def)
  then show ?thesis by (rule ws_reach.step [OF _ ws_step.enter_loop]) (simp add: ws_defs ws_start_def)
qed

theorem no_lost_wakeup_witness:
  "let s = (ws_push (FnUser 1) ws_start)\<lparr>ws_owed := 1, ws_place := Polling\<rparr> in
   0 < ws_counter s \<or> 0 < ws_owed s \<or> ws_pending s = ws_early s"
  using no_lost_wakeup [THEN conjunct1, rule_format, of "(ws_push (FnUser 1) ws_start)\<lparr>ws_owed := 1, ws_place := Polling\<rparr>"]
    reach_pending by (simp add: ws_push_def ws_start_def)

text \<open>With \<open>queueInLoop\<close> called from another thread the wake-up is lost as well: the loop can be
  waiting in \<open>poll\<close> with a functor pending, the event descriptor not readable and nobody about to
  write to it, although its own thread has queued nothing.\<close>

theorem queueInLoop_loses_wakeup:
  "\<exists>s. ws_reach True s \<and> ws_place s = Polling \<and> ws_pending s = [fn] \<and> ws_counter s = 0 \<and> ws_owed s = 0 \<and> ws_early s = []"
proof -
  have "ws_reach True (ws_push fn ws_start)" by (rule ws_reach.step [OF ws_reach.start ws_step.queue_elsewhere]) simp
  then have "ws_reach True ((ws_push fn ws_start)\<lparr>ws_place := Polling\<rparr>)"
    by (rule ws_reach.step [OF _ ws_step.enter_loop]) (simp add: ws_defs ws_start_def)
  then show ?thesis by (intro exI [of _ "(ws_push fn ws_start)\<lparr>ws_place := Polling\<rparr>"]) (simp add: ws_push_def ws_start_def)
qed

end
