(* ===== verification/Monitor.thy ===== *)
theory Monitor
  imports Prelude
begin

text \<open>
  \<^verbatim>\<open>base/Mutex.h\<close>, \<^verbatim>\<open>base/Condition.h\<close>, \<^verbatim>\<open>base/CountDownLatch.cc\<close>: a mutex with one condition
  variable, and the latch made of them, under every interleaving of its threads. One step of a
  thread is the code between two points where another thread can come in. A thread that cannot go
  on (the mutex is taken, or it sleeps) has no step. The system may wake a sleeping thread at any
  time, as \<open>pthread_cond_wait\<close> allows.
\<close>

section \<open>Mutex and condition\<close>

record monitor =
  mn_owner :: "nat option"
  mn_asleep :: "nat set"

definition new_monitor :: monitor where
  "new_monitor = \<lparr>mn_owner = None, mn_asleep = {}\<rparr>"

definition mutex_lock :: "nat \<Rightarrow> monitor \<Rightarrow> monitor option" where
  "mutex_lock t m = (if mn_owner m = None then Some (m\<lparr>mn_owner := Some t\<rparr>) else None)"

definition mutex_unlock :: "monitor \<Rightarrow> monitor" where
  "mutex_unlock m = m\<lparr>mn_owner := None\<rparr>"

text \<open>\<open>wait\<close> gives the mutex up and sleeps in one step, and takes the mutex again once it is woken.\<close>

definition cond_sleep :: "nat \<Rightarrow> monitor \<Rightarrow> monitor" where
  "cond_sleep t m = m\<lparr>mn_owner := None, mn_asleep := insert t (mn_asleep m)\<rparr>"

definition cond_resume :: "nat \<Rightarrow> monitor \<Rightarrow> monitor option" where
  "cond_resume t m = (if t \<in> mn_asleep m then None else mutex_lock t m)"

text \<open>\<open>notify\<close> wakes one sleeping thread, \<open>t\<close> if it sleeps; which one is the system's choice.\<close>

definition cond_notify :: "nat \<Rightarrow> monitor \<Rightarrow> monitor" where
  "cond_notify t m = m\<lparr>mn_asleep := mn_asleep m - {t}\<rparr>"

definition cond_notifyAll :: "monitor \<Rightarrow> monitor" where
  "cond_notifyAll m = m\<lparr>mn_asleep := {}\<rparr>"

lemmas monitor_defs = mutex_lock_def mutex_unlock_def cond_sleep_def cond_resume_def cond_notify_def cond_notifyAll_def

text \<open>
  The contract of code that uses a monitor: the threads inside the critical section are those that
  own the mutex, and only threads at a \<open>wait\<close> sleep.
\<close>

definition disciplined :: "(nat \<Rightarrow> bool) \<Rightarrow> (nat \<Rightarrow> bool) \<Rightarrow> monitor \<Rightarrow> bool" where
  "disciplined inside waiting m \<longleftrightarrow> (\<forall>t. inside t \<longleftrightarrow> mn_owner m = Some t) \<and> (\<forall>t\<in>mn_asleep m. waiting t)"

locale guarded =
  fixes step :: "'s \<Rightarrow> 's \<Rightarrow> bool" and start :: "'s \<Rightarrow> bool" and keeps :: "'s \<Rightarrow> bool" and mon :: "'s \<Rightarrow> monitor"
    and inside :: "'s \<Rightarrow> nat \<Rightarrow> bool" and waiting :: "'s \<Rightarrow> nat \<Rightarrow> bool"
  assumes start_law: "start s \<Longrightarrow> keeps s \<and> disciplined (inside s) (waiting s) (mon s)"
    and keeps_law: "step s s' \<Longrightarrow> keeps s \<Longrightarrow> keeps s'"
    and step_law: "step s s' \<Longrightarrow> keeps s \<Longrightarrow> disciplined (inside s) (waiting s) (mon s) \<Longrightarrow>
      disciplined (inside s') (waiting s') (mon s')"
begin

lemma always: "step\<^sup>*\<^sup>* s s' \<Longrightarrow> start s \<Longrightarrow> keeps s' \<and> disciplined (inside s') (waiting s') (mon s')"
  by (induction rule: rtranclp_induct) (auto dest: start_law keeps_law step_law)

lemma mutual_exclusion: "step\<^sup>*\<^sup>* s s' \<Longrightarrow> start s \<Longrightarrow> inside s' t \<Longrightarrow> inside s' u \<Longrightarrow> t = u"
  using always by (fastforce simp: disciplined_def)

end

section \<open>The latch\<close>

text \<open>Where a thread is in \<open>wait()\<close> or \<open>countDown()\<close>; \<open>LatchRet\<close> is a thread that calls neither, or has returned.\<close>

datatype latch_pc = WaitLock | WaitTest | WaitSleep | WaitExit | DownLock | DownDec | DownNotify | DownExit | LatchRet

record latch =
  la_mon :: monitor
  la_count :: int
  la_pc :: "nat \<Rightarrow> latch_pc"

definition latch_at :: "nat \<Rightarrow> latch_pc \<Rightarrow> monitor \<Rightarrow> latch \<Rightarrow> latch" where
  "latch_at t p m s = s\<lparr>la_mon := m, la_pc := (la_pc s)(t := p)\<rparr>"

text \<open>\<open>wait()\<close>: lock, test \<open>count_ > 0\<close>, sleep or leave.\<close>

definition latch_wait :: "nat \<Rightarrow> latch \<Rightarrow> latch option" where
  "latch_wait t s = (case la_pc s t of
     WaitLock \<Rightarrow> map_option (\<lambda>m. latch_at t WaitTest m s) (mutex_lock t (la_mon s))
   | WaitTest \<Rightarrow> Some (if la_count s > 0 then latch_at t WaitSleep (cond_sleep t (la_mon s)) s
                       else latch_at t WaitExit (la_mon s) s)
   | WaitSleep \<Rightarrow> map_option (\<lambda>m. latch_at t WaitTest m s) (cond_resume t (la_mon s))
   | WaitExit \<Rightarrow> Some (latch_at t LatchRet (mutex_unlock (la_mon s)) s)
   | _ \<Rightarrow> None)"

text \<open>\<open>countDown()\<close>: lock, decrement, notify when zero is reached.\<close>

definition latch_countDown :: "nat \<Rightarrow> latch \<Rightarrow> latch option" where
  "latch_countDown t s = (case la_pc s t of
     DownLock \<Rightarrow> map_option (\<lambda>m. latch_at t DownDec m s) (mutex_lock t (la_mon s))
   | DownDec \<Rightarrow> (let s' = s\<lparr>la_count := la_count s - 1\<rparr>
                 in Some (latch_at t (if la_count s' = 0 then DownNotify else DownExit) (la_mon s) s'))
   | DownNotify \<Rightarrow> Some (latch_at t DownExit (cond_notifyAll (la_mon s)) s)
   | DownExit \<Rightarrow> Some (latch_at t LatchRet (mutex_unlock (la_mon s)) s)
   | _ \<Rightarrow> None)"

definition latch_next :: "nat \<Rightarrow> latch \<Rightarrow> latch option" where
  "latch_next t s = (if la_pc s t \<in> {WaitLock, WaitTest, WaitSleep, WaitExit} then latch_wait t s else latch_countDown t s)"

text \<open>\<open>getCount()\<close> of a thread that gets the mutex.\<close>

definition getCount :: "nat \<Rightarrow> latch \<Rightarrow> int option" where
  "getCount t s = map_option (\<lambda>_. la_count s) (mutex_lock t (la_mon s))"

definition new_latch :: "int \<Rightarrow> nat set \<Rightarrow> nat set \<Rightarrow> latch" where
  "new_latch n waiters downs = \<lparr>la_mon = new_monitor, la_count = n,
     la_pc = (\<lambda>t. if t \<in> waiters then WaitLock else if t \<in> downs then DownLock else LatchRet)\<rparr>"

inductive latch_step :: "latch \<Rightarrow> latch \<Rightarrow> bool" where
  thread: "latch_next t s = Some s' \<Longrightarrow> latch_step s s'"
| spurious: "t \<in> mn_asleep (la_mon s) \<Longrightarrow> latch_step s (s\<lparr>la_mon := cond_notify t (la_mon s)\<rparr>)"

fun latch_critical :: "latch_pc \<Rightarrow> bool" where
  "latch_critical WaitTest = True"
| "latch_critical WaitExit = True"
| "latch_critical DownDec = True"
| "latch_critical DownNotify = True"
| "latch_critical DownExit = True"
| "latch_critical _ = False"

definition latch_inside :: "latch \<Rightarrow> nat \<Rightarrow> bool" where
  "latch_inside s t \<longleftrightarrow> latch_critical (la_pc s t)"

definition latch_waiting :: "latch \<Rightarrow> nat \<Rightarrow> bool" where
  "latch_waiting s t \<longleftrightarrow> la_pc s t = WaitSleep"

lemma latch_at_fields [simp]:
  "la_mon (latch_at t p m s) = m" "la_count (latch_at t p m s) = la_count s" "la_pc (latch_at t p m s) = (la_pc s)(t := p)"
  by (simp_all add: latch_at_def)

text \<open>What one thread can do.\<close>

lemma latch_nextE:
  assumes "latch_next t s = Some s'"
  obtains (lock) p where "la_pc s t = WaitLock \<and> p = WaitTest \<or> la_pc s t = DownLock \<and> p = DownDec" and "mn_owner (la_mon s) = None"
      and "s' = latch_at t p ((la_mon s)\<lparr>mn_owner := Some t\<rparr>) s"
  | (sleep) "la_pc s t = WaitTest" and "la_count s > 0" and "s' = latch_at t WaitSleep (cond_sleep t (la_mon s)) s"
  | (leave) "la_pc s t = WaitTest" and "la_count s \<le> 0" and "s' = latch_at t WaitExit (la_mon s) s"
  | (resume) "la_pc s t = WaitSleep" and "t \<notin> mn_asleep (la_mon s)" and "mn_owner (la_mon s) = None"
      and "s' = latch_at t WaitTest ((la_mon s)\<lparr>mn_owner := Some t\<rparr>) s"
  | (dec) "la_pc s t = DownDec"
      and "s' = latch_at t (if la_count s = 1 then DownNotify else DownExit) (la_mon s) (s\<lparr>la_count := la_count s - 1\<rparr>)"
  | (notify) "la_pc s t = DownNotify" and "s' = latch_at t DownExit (cond_notifyAll (la_mon s)) s"
  | (unlock) "la_pc s t = WaitExit \<or> la_pc s t = DownExit" and "s' = latch_at t LatchRet (mutex_unlock (la_mon s)) s"
  using assms
  by (cases "la_pc s t")
    (simp_all add: latch_next_def latch_wait_def latch_countDown_def mutex_lock_def cond_resume_def Let_def split: if_splits)

lemma latch_next_disciplined:
  assumes "latch_next t s = Some s'" and "disciplined (latch_inside s) (latch_waiting s) (la_mon s)"
  shows "disciplined (latch_inside s') (latch_waiting s') (la_mon s')"
proof -
  have d: "latch_critical (la_pc s u) \<longleftrightarrow> mn_owner (la_mon s) = Some u" "u \<in> mn_asleep (la_mon s) \<Longrightarrow> la_pc s u = WaitSleep" for u
    using assms(2) by (auto simp: disciplined_def latch_inside_def latch_waiting_def)
  from assms(1) show ?thesis
  proof (cases rule: latch_nextE)
    case (lock p)
    then show ?thesis using d d(2) [of t] by (auto simp: disciplined_def latch_inside_def latch_waiting_def)
  next
    case sleep
    then show ?thesis using d d(1) [of t] by (auto simp: disciplined_def latch_inside_def latch_waiting_def cond_sleep_def)
  next
    case leave
    then show ?thesis using d d(1) [of t] d(2) [of t] by (auto simp: disciplined_def latch_inside_def latch_waiting_def)
  next
    case resume
    then show ?thesis using d by (auto simp: disciplined_def latch_inside_def latch_waiting_def)
  next
    case dec
    then show ?thesis using d d(1) [of t] d(2) [of t] by (auto simp: disciplined_def latch_inside_def latch_waiting_def)
  next
    case notify
    then show ?thesis using d d(1) [of t] by (auto simp: disciplined_def latch_inside_def latch_waiting_def cond_notifyAll_def)
  next
    case unlock
    then have "mn_owner (la_mon s) = Some t" using d(1) [of t] by auto
    with unlock show ?thesis using d d(2) [of t] by (auto simp: disciplined_def latch_inside_def latch_waiting_def mutex_unlock_def)
  qed
qed

lemma latch_disciplined:
  assumes "latch_step s s'" and "disciplined (latch_inside s) (latch_waiting s) (la_mon s)"
  shows "disciplined (latch_inside s') (latch_waiting s') (la_mon s')"
  using assms
proof cases
  case (thread t)
  then show ?thesis using latch_next_disciplined assms(2) by simp
next
  case (spurious t)
  then show ?thesis using assms(2) by (auto simp: cond_notify_def disciplined_def latch_inside_def latch_waiting_def)
qed

lemma new_latch_disciplined: "disciplined (latch_inside (new_latch n ws ds)) (latch_waiting (new_latch n ws ds)) (la_mon (new_latch n ws ds))"
  by (simp add: new_latch_def new_monitor_def disciplined_def latch_inside_def)

interpretation latch: guarded latch_step "\<lambda>s. \<exists>n ws ds. s = new_latch n ws ds" "\<lambda>s. True" la_mon latch_inside latch_waiting
  by unfold_locales (auto simp: new_latch_disciplined intro: latch_disciplined)

section \<open>Who may return from \<open>wait()\<close>\<close>

definition counted :: "nat set \<Rightarrow> latch \<Rightarrow> nat set" where
  "counted ds s = {t \<in> ds. la_pc s t \<in> {DownNotify, DownExit, LatchRet}}"

text \<open>
  \<open>n\<close> is the count at the start, \<open>ws\<close> the threads that wait and \<open>ds\<close> those that count down. Whoever
  has left the loop saw a count of zero or less; whoever sleeps while the count is at zero or less
  is about to be notified.
\<close>

definition latch_inv :: "int \<Rightarrow> nat set \<Rightarrow> nat set \<Rightarrow> latch \<Rightarrow> bool" where
  "latch_inv n ws ds s \<longleftrightarrow> disciplined (latch_inside s) (latch_waiting s) (la_mon s) \<and>
     la_count s = n - int (card (counted ds s)) \<and>
     (\<forall>t. la_pc s t \<in> {WaitLock, WaitTest, WaitSleep, WaitExit} \<longrightarrow> t \<in> ws) \<and>
     (\<forall>t. la_pc s t \<in> {DownLock, DownDec, DownNotify, DownExit} \<longrightarrow> t \<in> ds) \<and>
     (\<forall>t\<in>ws. la_pc s t \<in> {WaitExit, LatchRet} \<longrightarrow> la_count s \<le> 0) \<and>
     (mn_asleep (la_mon s) \<noteq> {} \<longrightarrow> la_count s \<le> 0 \<longrightarrow> (\<exists>t. la_pc s t = DownNotify))"

lemma latch_invD:
  assumes "latch_inv n ws ds s"
  shows "disciplined (latch_inside s) (latch_waiting s) (la_mon s)" "la_count s = n - int (card (counted ds s))"
    "la_pc s t \<in> {WaitLock, WaitTest, WaitSleep, WaitExit} \<Longrightarrow> t \<in> ws"
    "la_pc s t \<in> {DownLock, DownDec, DownNotify, DownExit} \<Longrightarrow> t \<in> ds"
    "t \<in> ws \<Longrightarrow> la_pc s t \<in> {WaitExit, LatchRet} \<Longrightarrow> la_count s \<le> 0"
    "mn_asleep (la_mon s) \<noteq> {} \<Longrightarrow> la_count s \<le> 0 \<Longrightarrow> \<exists>t. la_pc s t = DownNotify"
  using assms unfolding latch_inv_def by blast+

lemma latch_inv_next:
  assumes "latch_next t s = Some s'" and inv: "latch_inv n ws ds s" and "ws \<inter> ds = {}" and fin: "finite ds"
  shows "latch_inv n ws ds s'"
proof -
  note inv' = latch_invD [OF inv]
  have d: "latch_critical (la_pc s u) \<longleftrightarrow> mn_owner (la_mon s) = Some u" "u \<in> mn_asleep (la_mon s) \<Longrightarrow> la_pc s u = WaitSleep" for u
    using inv'(1) by (auto simp: disciplined_def latch_inside_def latch_waiting_def)
  note disc = latch_next_disciplined [OF assms(1) inv'(1)]
  have disj: "u \<in> ws \<Longrightarrow> u \<notin> ds" for u using assms(3) by blast
  have own: "mn_owner (la_mon s) = None \<or> mn_owner (la_mon s) = Some t"
    using assms(1) d(1) [of t] by (cases rule: latch_nextE) auto
  have awake: "mn_asleep (la_mon s) = {} \<or> la_count s > 0" if "la_pc s t \<noteq> DownNotify"
  proof (rule ccontr)
    assume "\<not> ?thesis"
    then obtain u where "la_pc s u = DownNotify" using inv'(6) by fastforce
    with d(1) [of u] own that show False by auto
  qed
  from assms(1) show ?thesis
  proof (cases rule: latch_nextE)
    case (lock p)
    have "counted ds s' = counted ds s" using lock by (auto simp: counted_def)
    moreover have "mn_asleep (la_mon s) = {} \<or> la_count s > 0" using lock(1) by (intro awake) auto
    ultimately show ?thesis unfolding latch_inv_def using disc inv'(2-5) lock by auto
  next
    case sleep
    have "counted ds s' = counted ds s" using sleep inv'(3) [of t] disj by (auto simp: counted_def)
    then show ?thesis unfolding latch_inv_def using disc inv'(2-5) sleep by (auto simp: cond_sleep_def)
  next
    case leave
    have "counted ds s' = counted ds s" using leave by (auto simp: counted_def)
    moreover have "mn_asleep (la_mon s) = {}" using awake leave by auto
    ultimately show ?thesis unfolding latch_inv_def using disc inv'(2-5) leave by auto
  next
    case resume
    have "counted ds s' = counted ds s" using resume by (auto simp: counted_def)
    moreover have "mn_asleep (la_mon s) = {} \<or> la_count s > 0" using resume(1) by (intro awake) auto
    ultimately show ?thesis unfolding latch_inv_def using disc inv'(2-5) resume by auto
  next
    case dec
    have t: "t \<in> ds" "t \<notin> ws" using dec(1) inv'(4) [of t] disj by auto
    have "counted ds s' = insert t (counted ds s)" "t \<notin> counted ds s" using dec t by (auto simp: counted_def)
    then have "int (card (counted ds s')) = int (card (counted ds s)) + 1" using fin by (simp add: counted_def)
    then have "la_count s' = n - int (card (counted ds s'))" using dec(2) inv'(2) by simp
    moreover have "mn_asleep (la_mon s) = {} \<or> la_count s > 0" using dec(1) by (intro awake) auto
    then have "mn_asleep (la_mon s') \<noteq> {} \<longrightarrow> la_count s' \<le> 0 \<longrightarrow> (\<exists>u. la_pc s' u = DownNotify)" using dec(2) by auto
    moreover have "la_count s' \<le> 0" if "u \<in> ws" "la_pc s' u \<in> {WaitExit, LatchRet}" for u
    proof -
      have "u \<noteq> t" using that(1) t by auto
      then have "la_count s \<le> 0" using inv'(5) [of u] that dec(2) by auto
      then show ?thesis using dec(2) by simp
    qed
    moreover have "u \<in> ws" if "la_pc s' u \<in> {WaitLock, WaitTest, WaitSleep, WaitExit}" for u
      using inv'(3) [of u] that dec by (auto split: if_splits)
    moreover have "u \<in> ds" if "la_pc s' u \<in> {DownLock, DownDec, DownNotify, DownExit}" for u
      using inv'(4) [of u] that dec t by (auto split: if_splits)
    ultimately show ?thesis unfolding latch_inv_def using disc by blast
  next
    case notify
    have "counted ds s' = counted ds s" using notify by (auto simp: counted_def)
    then show ?thesis unfolding latch_inv_def using disc inv'(2-5) notify by (auto simp: cond_notifyAll_def)
  next
    case unlock
    have "counted ds s' = counted ds s" using unlock inv'(3) [of t] disj by (auto simp: counted_def)
    moreover have "mn_asleep (la_mon s) = {} \<or> la_count s > 0" using unlock(1) by (intro awake) auto
    moreover have "t \<in> ws \<Longrightarrow> la_count s \<le> 0" using unlock(1) inv'(4) [of t] inv'(5) [of t] disj by auto
    ultimately show ?thesis unfolding latch_inv_def using disc inv'(2-5) unlock by (auto simp: mutex_unlock_def)
  qed
qed

lemma latch_inv_step:
  "latch_step s s' \<Longrightarrow> latch_inv n ws ds s \<Longrightarrow> ws \<inter> ds = {} \<Longrightarrow> finite ds \<Longrightarrow> latch_inv n ws ds s'"
proof (induction rule: latch_step.induct)
  case (thread t s s')
  show ?case by (rule latch_inv_next [OF thread])
next
  case (spurious t s)
  have "disciplined (latch_inside s) (latch_waiting s) (la_mon s)" using latch_invD(1) [OF spurious(2)] .
  then have "disciplined (latch_inside s) (latch_waiting s) (cond_notify t (la_mon s))"
    by (auto simp: disciplined_def cond_notify_def)
  moreover have "latch_inside (s\<lparr>la_mon := m\<rparr>) = latch_inside s" "latch_waiting (s\<lparr>la_mon := m\<rparr>) = latch_waiting s"
    "counted ds (s\<lparr>la_mon := m\<rparr>) = counted ds s" for m
    by (auto simp: latch_inside_def latch_waiting_def counted_def fun_eq_iff)
  moreover have "mn_asleep (cond_notify t (la_mon s)) \<noteq> {} \<Longrightarrow> mn_asleep (la_mon s) \<noteq> {}" by (auto simp: cond_notify_def)
  ultimately show ?case unfolding latch_inv_def using latch_invD(2-6) [OF spurious(2)] by auto
qed

lemma new_latch_pc:
  "la_pc (new_latch n ws ds) t = WaitLock \<longleftrightarrow> t \<in> ws" "la_pc (new_latch n ws ds) t = DownLock \<longleftrightarrow> t \<in> ds \<and> t \<notin> ws"
  "la_pc (new_latch n ws ds) t = LatchRet \<longleftrightarrow> t \<notin> ws \<and> t \<notin> ds"
  "p \<notin> {WaitLock, DownLock, LatchRet} \<Longrightarrow> la_pc (new_latch n ws ds) t \<noteq> p"
  by (auto simp: new_latch_def)

lemma latch_inv_start: "ws \<inter> ds = {} \<Longrightarrow> latch_inv n ws ds (new_latch n ws ds)"
proof -
  assume d: "ws \<inter> ds = {}"
  then have "counted ds (new_latch n ws ds) = {}" by (auto simp: counted_def new_latch_pc)
  moreover have "la_count (new_latch n ws ds) = n" "mn_asleep (la_mon (new_latch n ws ds)) = {}"
    by (simp_all add: new_latch_def new_monitor_def)
  ultimately show ?thesis
    unfolding latch_inv_def using new_latch_disciplined [of n ws ds] by (simp add: new_latch_pc)
qed

lemma latch_inv_reach:
  "latch_step\<^sup>*\<^sup>* (new_latch n ws ds) s \<Longrightarrow> ws \<inter> ds = {} \<Longrightarrow> finite ds \<Longrightarrow> latch_inv n ws ds s"
  by (induction rule: rtranclp_induct) (auto intro: latch_inv_start latch_inv_step)

section \<open>Everybody returns\<close>

text \<open>Runs without spurious wake-ups, and how much every thread has left to do in them.\<close>

fun latch_run :: "nat \<Rightarrow> latch \<Rightarrow> latch \<Rightarrow> bool" where
  "latch_run 0 s s' \<longleftrightarrow> s' = s"
| "latch_run (Suc k) s s' \<longleftrightarrow> (\<exists>t u. latch_next t s = Some u \<and> latch_run k u s')"

definition to_do :: "nat \<Rightarrow> latch \<Rightarrow> nat \<Rightarrow> nat" where
  "to_do n s t = (case la_pc s t of WaitLock \<Rightarrow> 6 | WaitTest \<Rightarrow> 4 | WaitSleep \<Rightarrow> if t \<in> mn_asleep (la_mon s) then 3 else 5
     | WaitExit \<Rightarrow> 1 | DownLock \<Rightarrow> 2 * n + 4 | DownDec \<Rightarrow> 2 * n + 3 | DownNotify \<Rightarrow> 2 * n + 2 | DownExit \<Rightarrow> 1 | LatchRet \<Rightarrow> 0)"

definition all_to_do :: "nat set \<Rightarrow> nat set \<Rightarrow> latch \<Rightarrow> nat" where
  "all_to_do ws ds s = (\<Sum>t\<in>ws \<union> ds. to_do (card ws) s t)"

lemma sum_one_less:
  assumes "finite A" and "t \<in> A" and "\<And>u. u \<in> A \<Longrightarrow> u \<noteq> t \<Longrightarrow> f' u = f u" and "f' t < (f t :: nat)"
  shows "sum f' A < sum f A"
proof (rule sum_strict_mono_ex1 [OF assms(1)])
  show "\<forall>x\<in>A. f' x \<le> f x" using assms(3,4) by (metis nat_less_le order_refl)
qed (use assms in blast)

lemma latch_next_less:
  assumes "latch_next t s = Some s'" and inv: "latch_inv n ws ds s" and fin: "finite ws" "finite ds"
  shows "all_to_do ws ds s' < all_to_do ws ds s"
proof -
  note inv' = latch_invD [OF inv]
  have d: "latch_critical (la_pc s u) \<longleftrightarrow> mn_owner (la_mon s) = Some u" "u \<in> mn_asleep (la_mon s) \<Longrightarrow> la_pc s u = WaitSleep" for u
    using inv'(1) by (auto simp: disciplined_def latch_inside_def latch_waiting_def)
  have t: "t \<in> ws \<union> ds" using assms(1) inv'(3) [of t] inv'(4) [of t] by (cases rule: latch_nextE) auto
  let ?f = "to_do (card ws)"
  show ?thesis
  proof (cases "la_pc s t = DownNotify")
    case False
    have "?f s' u = ?f s u" if "u \<noteq> t" for u
      using assms(1) False that
      by (cases rule: latch_nextE) (auto simp: to_do_def cond_sleep_def mutex_unlock_def split: latch_pc.split)
    moreover have "?f s' t < ?f s t"
      using assms(1) False d(2) [of t] by (cases rule: latch_nextE) (auto simp: to_do_def cond_sleep_def)
    ultimately show ?thesis unfolding all_to_do_def using fin t by (intro sum_one_less [of _ t]) simp_all
  next
    case True
    with assms(1) have s': "s' = latch_at t DownExit (cond_notifyAll (la_mon s)) s" by (cases rule: latch_nextE) auto
    have tds: "t \<in> ds" "t \<notin> ws \<or> t \<in> ws" using inv'(4) [of t] True by auto
    let ?A = "(ws \<union> ds) - {t}"
    have le: "?f s' u \<le> ?f s u + (if u \<in> ws then 2 else 0)" if "u \<in> ?A" for u
      using that inv'(3) [of u] by (auto simp: s' to_do_def cond_notifyAll_def split: latch_pc.split)
    have "sum (?f s') ?A \<le> (\<Sum>u\<in>?A. ?f s u + (if u \<in> ws then 2 else 0))" by (rule sum_mono) (rule le)
    also have "\<dots> = sum (?f s) ?A + (\<Sum>u\<in>?A. if u \<in> ws then 2 else 0)" by (rule sum.distrib)
    also have "(\<Sum>u\<in>?A. if u \<in> ws then 2 else 0 :: nat) \<le> (\<Sum>u\<in>ws. 2)"
    proof -
      have "(\<Sum>u\<in>?A. if u \<in> ws then 2 else 0 :: nat) = (\<Sum>u\<in>?A \<inter> ws. 2)" using fin sum.inter_restrict [of ?A "\<lambda>_. 2 :: nat" ws] by simp
      also have "\<dots> \<le> (\<Sum>u\<in>ws. 2)" using fin by (intro sum_mono2) auto
      finally show ?thesis .
    qed
    finally have "sum (?f s') ?A \<le> sum (?f s) ?A + 2 * card ws" by simp
    moreover have "?f s' t = 1" "?f s t = 2 * card ws + 2" using True by (simp_all add: s' to_do_def)
    moreover have "sum g (ws \<union> ds) = g t + sum g ?A" for g :: "nat \<Rightarrow> nat" using fin t by (intro sum.remove) simp_all
    ultimately show ?thesis by (simp add: all_to_do_def)
  qed
qed

lemma latch_run_bound:
  "latch_run k s s' \<Longrightarrow> latch_inv n ws ds s \<Longrightarrow> ws \<inter> ds = {} \<Longrightarrow> finite ws \<Longrightarrow> finite ds \<Longrightarrow>
   k + all_to_do ws ds s' \<le> all_to_do ws ds s \<and> latch_inv n ws ds s'"
proof (induction k arbitrary: s)
  case (Suc k)
  then obtain t u where u: "latch_next t s = Some u" "latch_run k u s'" by auto
  have "latch_inv n ws ds u" by (rule latch_inv_next [OF u(1) Suc.prems(2,3,5)])
  with Suc.IH [OF u(2) this Suc.prems(3-5)] latch_next_less [OF u(1) Suc.prems(2,4,5)] show ?case by simp
qed simp

text \<open>When nothing moves, everybody has returned, if enough threads counted down.\<close>

lemma latch_stuck:
  assumes inv: "latch_inv n ws ds s" and stuck: "\<And>t. latch_next t s = None" and enough: "n \<le> int (card ds)"
    and "ws \<inter> ds = {}"
  shows "la_pc s t = LatchRet"
proof -
  note inv' = latch_invD [OF inv]
  have d: "latch_critical (la_pc s u) \<longleftrightarrow> mn_owner (la_mon s) = Some u" "u \<in> mn_asleep (la_mon s) \<Longrightarrow> la_pc s u = WaitSleep" for u
    using inv'(1) by (auto simp: disciplined_def latch_inside_def latch_waiting_def)
  have free: "mn_owner (la_mon s) = None"
  proof (rule ccontr)
    assume "mn_owner (la_mon s) \<noteq> None"
    then obtain u where "latch_critical (la_pc s u)" using d(1) by auto
    then show False using stuck [of u]
      by (cases "la_pc s u") (simp_all add: latch_next_def latch_wait_def latch_countDown_def Let_def split: if_splits)
  qed
  have pc: "la_pc s u = LatchRet \<or> la_pc s u = WaitSleep \<and> u \<in> mn_asleep (la_mon s)" for u
    using stuck [of u] free d(1) [of u]
    by (cases "la_pc s u") (auto simp: latch_next_def latch_wait_def latch_countDown_def mutex_lock_def cond_resume_def split: if_splits)
  have "u \<in> counted ds s" if "u \<in> ds" for u
    using that pc [of u] inv'(3) [of u] assms(4) by (auto simp: counted_def)
  then have "counted ds s = ds" by (auto simp: counted_def)
  then have "la_count s \<le> 0" using inv'(2) enough by simp
  moreover have "la_pc s u \<noteq> DownNotify" for u using pc [of u] by auto
  ultimately have "mn_asleep (la_mon s) = {}" using inv'(6) by auto
  then show ?thesis using pc [of t] by simp
qed

section \<open>Properties\<close>

text \<open>Threads taking turns as a list says.\<close>

fun take_turns :: "nat list \<Rightarrow> latch \<Rightarrow> latch option" where
  "take_turns [] s = Some s"
| "take_turns (t # ts) s = (case latch_next t s of None \<Rightarrow> None | Some s' \<Rightarrow> take_turns ts s')"

lemma take_turns_run: "take_turns ts s = Some s' \<Longrightarrow> latch_run (length ts) s s' \<and> latch_step\<^sup>*\<^sup>* s s'"
  by (induction ts arbitrary: s) (auto split: option.splits intro: converse_rtranclp_into_rtranclp latch_step.thread)

text \<open>One thread waits, sleeps, and is woken by the one that counts down.\<close>

lemma example_turns:
  "map_option (\<lambda>s. (la_pc s 0, la_pc s 1)) (take_turns [0, 0, 1, 1, 1, 1, 0, 0, 0] (new_latch 1 {0} {1})) = Some (LatchRet, LatchRet)"
  by code_simp

lemma example_done:
  obtains s where "latch_run 9 (new_latch 1 {0} {1}) s" and "latch_step\<^sup>*\<^sup>* (new_latch 1 {0} {1}) s"
    and "la_pc s 0 = LatchRet" and "la_pc s 1 = LatchRet"
proof -
  from example_turns obtain s where s: "take_turns [0, 0, 1, 1, 1, 1, 0, 0, 0] (new_latch 1 {0} {1}) = Some s"
    "la_pc s 0 = LatchRet" "la_pc s 1 = LatchRet" by auto
  have "latch_run 9 (new_latch 1 {0} {1}) s" using conjunct1 [OF take_turns_run [OF s(1)]] by (simp add: eval_nat_numeral del: latch_run.simps)
  from that [OF this conjunct2 [OF take_turns_run [OF s(1)]] s(2,3)] show thesis .
qed

text \<open>C33: no thread returns from \<open>wait()\<close> too early: under every interleaving, spurious wake-ups
  included, a waiting thread that has left the loop or returned is matched by at least \<open>n\<close> threads
  that have counted down. The critical sections exclude each other.\<close>

theorem latch_waits:
  assumes "latch_step\<^sup>*\<^sup>* (new_latch n ws ds) s" and "ws \<inter> ds = {}" and "finite ds"
  shows "(t \<in> ws \<and> la_pc s t \<in> {WaitExit, LatchRet} \<longrightarrow> n \<le> int (card (counted ds s))) \<and>
    (latch_inside s t \<and> latch_inside s u \<longrightarrow> t = u)"
proof -
  have inv: "latch_inv n ws ds s" by (rule latch_inv_reach [OF assms])
  have "n \<le> int (card (counted ds s))" if "t \<in> ws" "la_pc s t \<in> {WaitExit, LatchRet}"
    using latch_invD(2) [OF inv] latch_invD(5) [OF inv that] by simp
  then show ?thesis using latch.mutual_exclusion [OF assms(1)] by blast
qed

theorem latch_waits_witness:
  "\<exists>s. latch_step\<^sup>*\<^sup>* (new_latch 1 {0} {1}) s \<and> la_pc s 0 = LatchRet \<and> 1 \<le> int (card (counted {1} s))"
proof -
  obtain s where s: "latch_step\<^sup>*\<^sup>* (new_latch 1 {0} {1}) s" "la_pc s 0 = LatchRet" by (rule example_done)
  then show ?thesis using latch_waits [OF s(1), of 0 0] by auto
qed

text \<open>C34: every thread returns. A run without spurious wake-ups can only take so many steps
  (\<open>all_to_do\<close> at the start), and when no thread can move any more, all that waited and all that
  counted down have returned, provided that enough threads count down.\<close>

theorem latch_everybody_returns:
  assumes "latch_run k (new_latch n ws ds) s" and "ws \<inter> ds = {}" and "finite ws" and "finite ds" and "n \<le> int (card ds)"
  shows "k \<le> all_to_do ws ds (new_latch n ws ds) \<and>
    ((\<forall>t. latch_next t s = None) \<longrightarrow> (\<forall>t \<in> ws \<union> ds. la_pc s t = LatchRet))"
  using latch_run_bound [OF assms(1) latch_inv_start [OF assms(2)] assms(2-4)] latch_stuck [of n ws ds s] assms(2,5) by auto

theorem latch_everybody_returns_witness:
  "\<exists>s. latch_run 9 (new_latch 1 {0} {1}) s \<and> 9 \<le> all_to_do {0} {1} (new_latch 1 {0} {1})"
proof -
  obtain s where s: "latch_run 9 (new_latch 1 {0} {1}) s" by (rule example_done)
  then show ?thesis using latch_everybody_returns [OF s] by (intro exI [of _ s]) (simp del: latch_run.simps)
qed

end
