(* ===== verification/Loop_Thread.thy ===== *)
theory Loop_Thread
  imports Monitor Atomic
begin

text \<open>
  \<^verbatim>\<open>base/Thread.cc\<close> and \<^verbatim>\<open>net/EventLoopThread.cc\<close>: a thread that runs an event loop, the
  \<open>startLoop()\<close> and the destructor of its owner, and every interleaving of the two threads. Thread
  0 is the owner, thread 1 the new one. What \<open>loop.loop()\<close> does in \<^verbatim>\<open>net/EventLoop.cc\<close> counts
  here for its two accesses to \<open>quit_\<close>: it is cleared first, and read before every iteration.
\<close>

section \<open>Threads\<close>

record thread =
  th_started :: bool
  th_tid :: int
  th_name :: string

definition new_thread :: "string \<Rightarrow> thread" where
  "new_thread name = \<lparr>th_started = False, th_tid = 0, th_name = name\<rparr>"

text \<open>The constructor also counts the threads, in \<open>numCreated_\<close>.\<close>

definition construct_thread :: "string \<Rightarrow> 32 word \<Rightarrow> thread \<times> 32 word" where
  "construct_thread name numCreated = (new_thread name, atomic_increment numCreated)"


text \<open>\<open>start()\<close> creates a thread that runs \<open>runInThread()\<close>; \<open>tid\<close> is what the system calls it.\<close>

definition thread_start :: "thread \<Rightarrow> thread res" where
  "thread_start x = assertR (\<not> th_started x) (Inr (x\<lparr>th_started := True\<rparr>))"

text \<open>
  \<open>CurrentThread\<close>: the variables every thread has of its own. \<open>gettid\<close> is the answer of the system
  call, \<open>pid\<close> the process.
\<close>

record thread_locals =
  t_cachedTid :: int
  t_threadName :: string

definition new_locals :: thread_locals where
  "new_locals = \<lparr>t_cachedTid = 0, t_threadName = ''unknow''\<rparr>"

definition current_tid :: "int \<Rightarrow> thread_locals \<Rightarrow> int \<times> thread_locals" where
  "current_tid gettid l = (let l' = (if t_cachedTid l = 0 then l\<lparr>t_cachedTid := gettid\<rparr> else l) in (t_cachedTid l', l'))"

definition isMainThread :: "int \<Rightarrow> int \<Rightarrow> thread_locals \<Rightarrow> bool \<times> thread_locals" where
  "isMainThread gettid pid l = (let (t, l') = current_tid gettid l in (t = pid, l'))"

definition runInThread ::
  "int \<Rightarrow> (thread_locals \<Rightarrow> 's \<Rightarrow> thread_locals \<times> 's) \<Rightarrow> thread \<times> thread_locals \<times> 's \<Rightarrow> thread \<times> thread_locals \<times> 's" where
  "runInThread gettid func = (\<lambda>(x, l, s). let (t, l1) = current_tid gettid l;
     (l2, s') = func (l1\<lparr>t_threadName := th_name x\<rparr>) s
     in (x\<lparr>th_tid := t\<rparr>, l2\<lparr>t_threadName := ''finished''\<rparr>, s'))"

text \<open>\<open>join()\<close> waits until the thread has finished.\<close>

definition thread_join :: "bool \<Rightarrow> thread \<Rightarrow> thread res option" where
  "thread_join finished x = (if \<not> th_started x then Some (Inl AssertFail)
     else if finished then Some (Inr (x\<lparr>th_started := False\<rparr>)) else None)"

section \<open>The owner and the loop's thread\<close>

datatype owner_pc = StartCall | StartLock | StartTest | StartSleep | StartUnlock | StartReturn | Started bool
  | DtorTest | DtorQuit | DtorJoin | DtorDone | Aborted

datatype work_pc = WorkNone | WorkConstruct | WorkCallback | WorkLock | WorkPublish | WorkNotify | WorkUnlock
  | WorkEnter | WorkLoop | WorkClear | WorkDone

text \<open>\<open>lt_loop\<close> says whether \<open>loop_\<close> points to the loop, \<open>lt_quit\<close> is \<open>quit_\<close> of this loop.\<close>

record loop_thread =
  lt_owner :: owner_pc
  lt_work :: work_pc
  lt_mon :: monitor
  lt_thread :: thread
  lt_loop :: bool
  lt_exiting :: bool
  lt_quit :: bool

definition new_loop_thread :: "string \<Rightarrow> loop_thread" where
  "new_loop_thread name = \<lparr>lt_owner = StartCall, lt_work = WorkNone, lt_mon = new_monitor, lt_thread = new_thread name,
     lt_loop = False, lt_exiting = False, lt_quit = False\<rparr>"

definition owner_at :: "owner_pc \<Rightarrow> loop_thread \<Rightarrow> loop_thread" where
  "owner_at p s = s\<lparr>lt_owner := p\<rparr>"

definition work_at :: "work_pc \<Rightarrow> loop_thread \<Rightarrow> loop_thread" where
  "work_at p s = s\<lparr>lt_work := p\<rparr>"

definition startLoop :: "loop_thread \<Rightarrow> loop_thread option" where
  "startLoop s = (case lt_owner s of
     StartCall \<Rightarrow> Some (case thread_start (lt_thread s) of Inl _ \<Rightarrow> owner_at Aborted s
                        | Inr x \<Rightarrow> work_at WorkConstruct (owner_at StartLock (s\<lparr>lt_thread := x\<rparr>)))
   | StartLock \<Rightarrow> map_option (\<lambda>m. owner_at StartTest (s\<lparr>lt_mon := m\<rparr>)) (mutex_lock 0 (lt_mon s))
   | StartTest \<Rightarrow> Some (if \<not> lt_loop s then owner_at StartSleep (s\<lparr>lt_mon := cond_sleep 0 (lt_mon s)\<rparr>)
                        else owner_at StartUnlock s)
   | StartSleep \<Rightarrow> map_option (\<lambda>m. owner_at StartTest (s\<lparr>lt_mon := m\<rparr>)) (cond_resume 0 (lt_mon s))
   | StartUnlock \<Rightarrow> Some (owner_at StartReturn (s\<lparr>lt_mon := mutex_unlock (lt_mon s)\<rparr>))
   | StartReturn \<Rightarrow> Some (owner_at (Started (lt_loop s)) s)
   | _ \<Rightarrow> None)"

text \<open>\<open>~EventLoopThread()\<close>; \<open>loop_\<close> is read again for the call of \<open>quit()\<close>.\<close>

definition delete_loop_thread :: "loop_thread \<Rightarrow> loop_thread option" where
  "delete_loop_thread s = (case lt_owner s of
     Started b \<Rightarrow> Some (owner_at DtorTest (s\<lparr>lt_exiting := True\<rparr>))
   | DtorTest \<Rightarrow> Some (owner_at (if lt_loop s then DtorQuit else DtorDone) s)
   | DtorQuit \<Rightarrow> Some (if lt_loop s then owner_at DtorJoin (s\<lparr>lt_quit := True\<rparr>) else owner_at Aborted s)
   | DtorJoin \<Rightarrow> map_option (\<lambda>r. case r of Inl _ \<Rightarrow> owner_at Aborted s | Inr x \<Rightarrow> owner_at DtorDone (s\<lparr>lt_thread := x\<rparr>))
                   (thread_join (lt_work s = WorkDone) (lt_thread s))
   | _ \<Rightarrow> None)"

definition threadFunc :: "loop_thread \<Rightarrow> loop_thread option" where
  "threadFunc s = (case lt_work s of
     WorkNone \<Rightarrow> None
   | WorkConstruct \<Rightarrow> Some (work_at WorkCallback (s\<lparr>lt_quit := False\<rparr>))
   | WorkCallback \<Rightarrow> Some (work_at WorkLock s)
   | WorkLock \<Rightarrow> map_option (\<lambda>m. work_at WorkPublish (s\<lparr>lt_mon := m\<rparr>)) (mutex_lock 1 (lt_mon s))
   | WorkPublish \<Rightarrow> Some (work_at WorkNotify (s\<lparr>lt_loop := True\<rparr>))
   | WorkNotify \<Rightarrow> Some (work_at WorkUnlock (s\<lparr>lt_mon := cond_notify 0 (lt_mon s)\<rparr>))
   | WorkUnlock \<Rightarrow> Some (work_at WorkEnter (s\<lparr>lt_mon := mutex_unlock (lt_mon s)\<rparr>))
   | WorkEnter \<Rightarrow> Some (work_at WorkLoop (s\<lparr>lt_quit := False\<rparr>))
   | WorkLoop \<Rightarrow> Some (if lt_quit s then work_at WorkClear s else s)
   | WorkClear \<Rightarrow> Some (work_at WorkDone (s\<lparr>lt_loop := False\<rparr>))
   | WorkDone \<Rightarrow> None)"

text \<open>
  \<open>allow\<close> says whether somebody else, who knows the loop from the thread's callback, may call
  \<open>quit()\<close> on it.
\<close>

inductive lt_step :: "bool \<Rightarrow> loop_thread \<Rightarrow> loop_thread \<Rightarrow> bool" for allow where
  start: "startLoop s = Some s' \<Longrightarrow> lt_step allow s s'"
| delete: "delete_loop_thread s = Some s' \<Longrightarrow> lt_step allow s s'"
| work: "threadFunc s = Some s' \<Longrightarrow> lt_step allow s s'"
| spurious: "lt_step allow s (s\<lparr>lt_mon := cond_notify 0 (lt_mon s)\<rparr>)"
| quit: "allow \<Longrightarrow> lt_work s \<in> {WorkCallback, WorkLock, WorkPublish, WorkNotify, WorkUnlock, WorkEnter, WorkLoop} \<Longrightarrow>
    lt_step allow s (s\<lparr>lt_quit := True\<rparr>)"

section \<open>Mutual exclusion\<close>

fun owner_critical :: "owner_pc \<Rightarrow> bool" where
  "owner_critical StartTest = True"
| "owner_critical StartUnlock = True"
| "owner_critical _ = False"

fun work_critical :: "work_pc \<Rightarrow> bool" where
  "work_critical WorkPublish = True"
| "work_critical WorkNotify = True"
| "work_critical WorkUnlock = True"
| "work_critical _ = False"

definition lt_inside :: "loop_thread \<Rightarrow> nat \<Rightarrow> bool" where
  "lt_inside s t \<longleftrightarrow> t = 0 \<and> owner_critical (lt_owner s) \<or> t = 1 \<and> work_critical (lt_work s)"

definition lt_waiting :: "loop_thread \<Rightarrow> nat \<Rightarrow> bool" where
  "lt_waiting s t \<longleftrightarrow> t = 0 \<and> lt_owner s = StartSleep"

lemma lt_disciplined_iff:
  "disciplined (lt_inside s) (lt_waiting s) (lt_mon s) \<longleftrightarrow>
     (owner_critical (lt_owner s) \<longleftrightarrow> mn_owner (lt_mon s) = Some 0) \<and> (work_critical (lt_work s) \<longleftrightarrow> mn_owner (lt_mon s) = Some 1) \<and>
     (mn_owner (lt_mon s) = None \<or> mn_owner (lt_mon s) = Some 0 \<or> mn_owner (lt_mon s) = Some 1) \<and>
     mn_asleep (lt_mon s) \<subseteq> {0} \<and> (0 \<in> mn_asleep (lt_mon s) \<longrightarrow> lt_owner s = StartSleep)" (is "?D \<longleftrightarrow> ?R")
proof
  assume d: ?D
  then have i: "lt_inside s t \<longleftrightarrow> mn_owner (lt_mon s) = Some t" for t by (simp add: disciplined_def)
  have "mn_owner (lt_mon s) = None \<or> mn_owner (lt_mon s) = Some 0 \<or> mn_owner (lt_mon s) = Some 1"
    using i by (cases "mn_owner (lt_mon s)") (auto simp: lt_inside_def)
  then show ?R using i [of 0] i [of 1] d by (auto simp: disciplined_def lt_inside_def lt_waiting_def)
next
  assume ?R
  then show ?D by (auto simp: disciplined_def lt_inside_def lt_waiting_def)
qed

lemma lt_at_fields [simp]:
  "lt_owner (owner_at p s) = p" "lt_work (owner_at p s) = lt_work s" "lt_mon (owner_at p s) = lt_mon s"
  "lt_thread (owner_at p s) = lt_thread s" "lt_loop (owner_at p s) = lt_loop s" "lt_quit (owner_at p s) = lt_quit s"
  "lt_work (work_at r s) = r" "lt_owner (work_at r s) = lt_owner s" "lt_mon (work_at r s) = lt_mon s"
  "lt_thread (work_at r s) = lt_thread s" "lt_loop (work_at r s) = lt_loop s" "lt_quit (work_at r s) = lt_quit s"
  by (simp_all add: owner_at_def work_at_def)

text \<open>What the two threads can do.\<close>

lemma startLoopE:
  assumes "startLoop s = Some s'"
  obtains (call) "lt_owner s = StartCall" and "\<not> th_started (lt_thread s)"
      and "s' = work_at WorkConstruct (owner_at StartLock (s\<lparr>lt_thread := (lt_thread s)\<lparr>th_started := True\<rparr>\<rparr>))"
  | (again) "lt_owner s = StartCall" and "th_started (lt_thread s)" and "s' = owner_at Aborted s"
  | (lock) "lt_owner s = StartLock" and "mn_owner (lt_mon s) = None"
      and "s' = owner_at StartTest (s\<lparr>lt_mon := (lt_mon s)\<lparr>mn_owner := Some 0\<rparr>\<rparr>)"
  | (sleep) "lt_owner s = StartTest" and "\<not> lt_loop s" and "s' = owner_at StartSleep (s\<lparr>lt_mon := cond_sleep 0 (lt_mon s)\<rparr>)"
  | (leave) "lt_owner s = StartTest" and "lt_loop s" and "s' = owner_at StartUnlock s"
  | (resume) "lt_owner s = StartSleep" and "0 \<notin> mn_asleep (lt_mon s)" and "mn_owner (lt_mon s) = None"
      and "s' = owner_at StartTest (s\<lparr>lt_mon := (lt_mon s)\<lparr>mn_owner := Some 0\<rparr>\<rparr>)"
  | (unlock) "lt_owner s = StartUnlock" and "s' = owner_at StartReturn (s\<lparr>lt_mon := mutex_unlock (lt_mon s)\<rparr>)"
  | (ret) "lt_owner s = StartReturn" and "s' = owner_at (Started (lt_loop s)) s"
proof (cases "lt_owner s")
  case StartCall
  then show thesis using assms that(1,2) by (auto simp: startLoop_def thread_start_def assertR_def split: if_splits)
next
  case StartLock
  then show thesis using assms that(3) by (auto simp: startLoop_def mutex_lock_def split: if_splits)
next
  case StartTest
  then show thesis using assms that(4,5) by (auto simp: startLoop_def split: if_splits)
next
  case StartSleep
  then show thesis using assms that(6) by (auto simp: startLoop_def mutex_lock_def cond_resume_def split: if_splits)
next
  case StartUnlock
  then show thesis using assms by (intro that(7)) (simp_all add: startLoop_def)
next
  case StartReturn
  then show thesis using assms by (intro that(8)) (simp_all add: startLoop_def)
qed (use assms in \<open>simp_all add: startLoop_def\<close>)

lemma threadFuncE:
  assumes "threadFunc s = Some s'"
  obtains (construct) "lt_work s = WorkConstruct" and "s' = work_at WorkCallback (s\<lparr>lt_quit := False\<rparr>)"
  | (callback) "lt_work s = WorkCallback" and "s' = work_at WorkLock s"
  | (lock) "lt_work s = WorkLock" and "mn_owner (lt_mon s) = None"
      and "s' = work_at WorkPublish (s\<lparr>lt_mon := (lt_mon s)\<lparr>mn_owner := Some 1\<rparr>\<rparr>)"
  | (publish) "lt_work s = WorkPublish" and "s' = work_at WorkNotify (s\<lparr>lt_loop := True\<rparr>)"
  | (notify) "lt_work s = WorkNotify" and "s' = work_at WorkUnlock (s\<lparr>lt_mon := cond_notify 0 (lt_mon s)\<rparr>)"
  | (unlock) "lt_work s = WorkUnlock" and "s' = work_at WorkEnter (s\<lparr>lt_mon := mutex_unlock (lt_mon s)\<rparr>)"
  | (enter) "lt_work s = WorkEnter" and "s' = work_at WorkLoop (s\<lparr>lt_quit := False\<rparr>)"
  | (iterate) "lt_work s = WorkLoop" and "\<not> lt_quit s" and "s' = s"
  | (leave) "lt_work s = WorkLoop" and "lt_quit s" and "s' = work_at WorkClear s"
  | (clear) "lt_work s = WorkClear" and "s' = work_at WorkDone (s\<lparr>lt_loop := False\<rparr>)"
proof (cases "lt_work s")
  case WorkLock
  then show thesis using assms that(3) by (auto simp: threadFunc_def mutex_lock_def split: if_splits)
next
  case WorkLoop
  show thesis
  proof (cases "lt_quit s")
    case True
    then show thesis using WorkLoop assms by (intro that(9)) (simp_all add: threadFunc_def)
  next
    case False
    then show thesis using WorkLoop assms by (intro that(8)) (simp_all add: threadFunc_def)
  qed
next
  case WorkConstruct
  then show thesis using assms by (intro that(1)) (simp_all add: threadFunc_def)
next
  case WorkCallback
  then show thesis using assms by (intro that(2)) (simp_all add: threadFunc_def)
next
  case WorkPublish
  then show thesis using assms by (intro that(4)) (simp_all add: threadFunc_def)
next
  case WorkNotify
  then show thesis using assms by (intro that(5)) (simp_all add: threadFunc_def)
next
  case WorkUnlock
  then show thesis using assms by (intro that(6)) (simp_all add: threadFunc_def)
next
  case WorkEnter
  then show thesis using assms by (intro that(7)) (simp_all add: threadFunc_def)
next
  case WorkClear
  then show thesis using assms by (intro that(10)) (simp_all add: threadFunc_def)
qed (use assms in \<open>simp_all add: threadFunc_def\<close>)

lemma delete_loop_threadE:
  assumes "delete_loop_thread s = Some s'"
  obtains (exiting) b where "lt_owner s = Started b" and "s' = owner_at DtorTest (s\<lparr>lt_exiting := True\<rparr>)"
  | (test) "lt_owner s = DtorTest" and "s' = owner_at (if lt_loop s then DtorQuit else DtorDone) s"
  | (quit) "lt_owner s = DtorQuit" and "lt_loop s" and "s' = owner_at DtorJoin (s\<lparr>lt_quit := True\<rparr>)"
  | (gone) "lt_owner s = DtorQuit" and "\<not> lt_loop s" and "s' = owner_at Aborted s"
  | (join) "lt_owner s = DtorJoin" and "th_started (lt_thread s)" and "lt_work s = WorkDone"
      and "s' = owner_at DtorDone (s\<lparr>lt_thread := (lt_thread s)\<lparr>th_started := False\<rparr>\<rparr>)"
  | (fail) "lt_owner s = DtorJoin" and "\<not> th_started (lt_thread s)" and "s' = owner_at Aborted s"
proof (cases "lt_owner s")
  case DtorTest
  then show thesis using assms that(2) by (auto simp: delete_loop_thread_def split: if_splits)
next
  case DtorQuit
  then show thesis using assms that(3,4) by (auto simp: delete_loop_thread_def split: if_splits)
next
  case DtorJoin
  then show thesis using assms that(5,6) by (auto simp: delete_loop_thread_def thread_join_def split: if_splits)
next
  case (Started b)
  then show thesis using assms by (intro that(1) [of b]) (simp_all add: delete_loop_thread_def)
qed (use assms in \<open>simp_all add: delete_loop_thread_def\<close>)

definition lt_begun :: "loop_thread \<Rightarrow> bool" where
  "lt_begun s \<longleftrightarrow> (lt_owner s = StartCall \<longrightarrow> lt_work s = WorkNone)"

lemma lt_begun_step:
  assumes "lt_step allow s s'" and "lt_begun s"
  shows "lt_begun s'"
  using assms(1)
proof cases
  case start
  then show ?thesis by (cases rule: startLoopE) (simp_all add: lt_begun_def)
next
  case delete
  then show ?thesis by (cases rule: delete_loop_threadE) (simp_all add: lt_begun_def)
next
  case work
  then show ?thesis using assms(2) by (cases rule: threadFuncE) (auto simp: lt_begun_def)
qed (use assms(2) in \<open>simp_all add: lt_begun_def\<close>)

lemma lt_disciplined_step:
  assumes "lt_step allow s s'" and "lt_begun s" and "disciplined (lt_inside s) (lt_waiting s) (lt_mon s)"
  shows "disciplined (lt_inside s') (lt_waiting s') (lt_mon s')"
  using assms(1)
proof cases
  case start
  then show ?thesis using assms(2,3) unfolding lt_disciplined_iff lt_begun_def
    by (cases rule: startLoopE) (auto simp: cond_sleep_def mutex_unlock_def)
next
  case delete
  then show ?thesis using assms(3) unfolding lt_disciplined_iff by (cases rule: delete_loop_threadE) auto
next
  case work
  then show ?thesis using assms(3) unfolding lt_disciplined_iff
    by (cases rule: threadFuncE) (auto simp: cond_notify_def mutex_unlock_def)
next
  case spurious
  then show ?thesis using assms(3) unfolding lt_disciplined_iff by (auto simp: cond_notify_def)
next
  case quit
  then show ?thesis using assms(3) unfolding lt_disciplined_iff by simp
qed

lemma new_loop_thread_fields [simp]:
  "lt_owner (new_loop_thread name) = StartCall" "lt_work (new_loop_thread name) = WorkNone"
  "lt_mon (new_loop_thread name) = new_monitor" "\<not> th_started (lt_thread (new_loop_thread name))"
  "\<not> lt_loop (new_loop_thread name)" "\<not> lt_quit (new_loop_thread name)"
  by (simp_all add: new_loop_thread_def new_thread_def)

lemma new_loop_thread_disciplined:
  "lt_begun (new_loop_thread name) \<and>
   disciplined (lt_inside (new_loop_thread name)) (lt_waiting (new_loop_thread name)) (lt_mon (new_loop_thread name))"
  unfolding lt_disciplined_iff lt_begun_def by (simp add: new_monitor_def)

interpretation lt: guarded "lt_step allow" "\<lambda>s. \<exists>name. s = new_loop_thread name" lt_begun lt_mon lt_inside lt_waiting for allow
proof
  show "lt_begun s \<and> disciplined (lt_inside s) (lt_waiting s) (lt_mon s)" if "\<exists>name. s = new_loop_thread name" for s
    using that new_loop_thread_disciplined by blast
qed (rule lt_begun_step lt_disciplined_step; assumption)+

section \<open>What the owner may rely on\<close>

fun owner_early :: "owner_pc \<Rightarrow> bool" where
  "owner_early DtorJoin = False"
| "owner_early DtorDone = False"
| "owner_early Aborted = False"
| "owner_early _ = True"

fun owner_saw_loop :: "owner_pc \<Rightarrow> bool" where
  "owner_saw_loop StartCall = False"
| "owner_saw_loop StartLock = False"
| "owner_saw_loop StartTest = False"
| "owner_saw_loop StartSleep = False"
| "owner_saw_loop _ = True"

fun work_published :: "work_pc \<Rightarrow> bool" where
  "work_published WorkNotify = True"
| "work_published WorkUnlock = True"
| "work_published WorkEnter = True"
| "work_published WorkLoop = True"
| "work_published WorkClear = True"
| "work_published _ = False"

fun work_over :: "work_pc \<Rightarrow> bool" where
  "work_over WorkClear = True"
| "work_over WorkDone = True"
| "work_over _ = False"

fun work_before_notify :: "work_pc \<Rightarrow> bool" where
  "work_before_notify WorkConstruct = True"
| "work_before_notify WorkCallback = True"
| "work_before_notify WorkLock = True"
| "work_before_notify WorkPublish = True"
| "work_before_notify WorkNotify = True"
| "work_before_notify _ = False"

text \<open>\<open>loop_\<close> is set exactly from \<open>loop_ = &loop\<close> to \<open>loop_ = NULL\<close>, and, if nobody else calls \<open>quit()\<close>, not before the owner asks for it.\<close>

definition lt_inv :: "loop_thread \<Rightarrow> bool" where
  "lt_inv s \<longleftrightarrow> (lt_owner s = StartCall \<longleftrightarrow> lt_work s = WorkNone) \<and> (lt_loop s \<longleftrightarrow> work_published (lt_work s)) \<and>
     (th_started (lt_thread s) \<longleftrightarrow> lt_owner s \<noteq> StartCall \<and> lt_owner s \<noteq> DtorDone) \<and>
     (owner_early (lt_owner s) \<longrightarrow> \<not> lt_quit s \<and> \<not> work_over (lt_work s)) \<and>
     (owner_saw_loop (lt_owner s) \<longrightarrow> work_published (lt_work s) \<or> lt_work s = WorkDone) \<and>
     (0 \<in> mn_asleep (lt_mon s) \<longrightarrow> work_before_notify (lt_work s)) \<and>
     lt_owner s \<noteq> Aborted \<and> lt_owner s \<noteq> Started False \<and> (lt_owner s = DtorDone \<longrightarrow> lt_work s = WorkDone)"

lemma lt_inv_start:
  assumes "startLoop s = Some s'" and "lt_inv s"
    and "disciplined (lt_inside s) (lt_waiting s) (lt_mon s)"
  shows "lt_inv s'"
proof -
  have d: "work_critical (lt_work s) \<longleftrightarrow> mn_owner (lt_mon s) = Some 1" "owner_critical (lt_owner s) \<longleftrightarrow> mn_owner (lt_mon s) = Some 0"
    using assms(3) unfolding lt_disciplined_iff by blast+
  from assms(1) show ?thesis
  proof (cases rule: startLoopE)
    case call
    then show ?thesis using assms(2) by (simp add: lt_inv_def)
  next
    case again
    then show ?thesis using assms(2) by (simp add: lt_inv_def)
  next
    case lock
    then show ?thesis using assms(2) by (simp add: lt_inv_def)
  next
    case sleep
    then have "lt_work s = WorkConstruct \<or> lt_work s = WorkCallback \<or> lt_work s = WorkLock"
      using assms(2) d by (cases "lt_work s") (simp_all add: lt_inv_def)
    then show ?thesis using sleep assms(2) by (auto simp: lt_inv_def cond_sleep_def)
  next
    case leave
    then show ?thesis using assms(2) by (simp add: lt_inv_def)
  next
    case resume
    then show ?thesis using assms(2) by (simp add: lt_inv_def)
  next
    case unlock
    then show ?thesis using assms(2) by (simp add: lt_inv_def mutex_unlock_def)
  next
    case ret
    then have "lt_loop s" using assms(2) work_over.simps by (auto simp: lt_inv_def)
    then show ?thesis using ret assms(2) by (simp add: lt_inv_def)
  qed
qed

lemma lt_inv_delete:
  assumes "delete_loop_thread s = Some s'" and "lt_inv s"
  shows "lt_inv s'"
  using assms(1)
proof (cases rule: delete_loop_threadE)
  case (exiting b)
  then show ?thesis using assms(2) by (simp add: lt_inv_def)
next
  case test
  then have "lt_loop s" using assms(2) by (auto simp: lt_inv_def)
  then show ?thesis using test assms(2) by (simp add: lt_inv_def)
next
  case quit
  then show ?thesis using assms(2) by (simp add: lt_inv_def)
next
  case gone
  then show ?thesis using assms(2) by (auto simp: lt_inv_def)
next
  case join
  then show ?thesis using assms(2) by (simp add: lt_inv_def)
next
  case fail
  then show ?thesis using assms(2) by (simp add: lt_inv_def)
qed

lemma lt_inv_work:
  assumes "threadFunc s = Some s'" and "lt_inv s"
    and "disciplined (lt_inside s) (lt_waiting s) (lt_mon s)"
  shows "lt_inv s'"
  using assms(1)
proof (cases rule: threadFuncE)
  case unlock
  then have "0 \<notin> mn_asleep (lt_mon s)" using assms(2) by (auto simp: lt_inv_def)
  then show ?thesis using unlock assms(2) by (simp add: lt_inv_def mutex_unlock_def)
qed (use assms(2) in \<open>auto simp: lt_inv_def cond_notify_def\<close>)

lemma lt_inv_step:
  assumes "lt_step False s s'" and "lt_inv s" and "disciplined (lt_inside s) (lt_waiting s) (lt_mon s)"
  shows "lt_inv s'"
  using assms(1)
proof cases
  case start
  then show ?thesis by (rule lt_inv_start [OF _ assms(2,3)])
next
  case delete
  then show ?thesis by (rule lt_inv_delete [OF _ assms(2)])
next
  case work
  then show ?thesis by (rule lt_inv_work [OF _ assms(2,3)])
next
  case spurious
  then show ?thesis using assms(2) by (auto simp: lt_inv_def cond_notify_def)
qed simp

lemma lt_inv_new: "lt_inv (new_loop_thread name)"
  by (simp add: lt_inv_def new_monitor_def)

lemma lt_inv_reach: "(lt_step False)\<^sup>*\<^sup>* (new_loop_thread name) s \<Longrightarrow> lt_inv s"
proof (induction rule: rtranclp_induct)
  case (step s s')
  show ?case by (rule lt_inv_step [OF step(2,3)]) (use lt.always [OF step(1)] in blast)
qed (rule lt_inv_new)

section \<open>Runs\<close>

text \<open>A turn is a step of \<open>startLoop()\<close> or of the new thread, idle iterations of its loop left out.\<close>

definition lt_turn :: "loop_thread \<Rightarrow> loop_thread \<Rightarrow> bool" where
  "lt_turn s s' \<longleftrightarrow> s' \<noteq> s \<and> (startLoop s = Some s' \<or> threadFunc s = Some s')"

fun lt_run :: "nat \<Rightarrow> loop_thread \<Rightarrow> loop_thread \<Rightarrow> bool" where
  "lt_run 0 s s' \<longleftrightarrow> s' = s"
| "lt_run (Suc k) s s' \<longleftrightarrow> (\<exists>u. lt_turn s u \<and> lt_run k u s')"

definition owner_to_do :: "loop_thread \<Rightarrow> nat" where
  "owner_to_do s = (case lt_owner s of StartCall \<Rightarrow> 6 | StartLock \<Rightarrow> 5 | StartTest \<Rightarrow> 4
     | StartSleep \<Rightarrow> if 0 \<in> mn_asleep (lt_mon s) then 3 else 5 | StartUnlock \<Rightarrow> 2 | StartReturn \<Rightarrow> 1 | _ \<Rightarrow> 0)"

fun work_to_do :: "work_pc \<Rightarrow> nat" where
  "work_to_do WorkNone = 10"
| "work_to_do WorkConstruct = 9"
| "work_to_do WorkCallback = 8"
| "work_to_do WorkLock = 7"
| "work_to_do WorkPublish = 6"
| "work_to_do WorkNotify = 5"
| "work_to_do WorkUnlock = 4"
| "work_to_do WorkEnter = 3"
| "work_to_do WorkLoop = 2"
| "work_to_do WorkClear = 1"
| "work_to_do WorkDone = 0"

definition lt_to_do :: "loop_thread \<Rightarrow> nat" where
  "lt_to_do s = owner_to_do s + 3 * work_to_do (lt_work s)"

lemma lt_turn_less:
  assumes "lt_turn s s'" and "lt_inv s"
  shows "lt_to_do s' < lt_to_do s"
proof (cases "startLoop s = Some s'")
  case True
  then show ?thesis
  proof (cases rule: startLoopE)
    case call
    then show ?thesis using assms(2) by (simp add: lt_to_do_def owner_to_do_def lt_inv_def)
  next
    case again
    then show ?thesis using assms(2) by (simp add: lt_inv_def)
  qed (simp_all add: lt_to_do_def owner_to_do_def cond_sleep_def)
next
  case False
  then have "threadFunc s = Some s'" and n: "s' \<noteq> s" using assms(1) by (auto simp: lt_turn_def)
  then show ?thesis
    by (cases rule: threadFuncE)
      (simp_all add: lt_to_do_def owner_to_do_def cond_notify_def mutex_unlock_def split: owner_pc.split)
qed

lemma lt_turn_step: "lt_turn s s' \<Longrightarrow> lt_step allow s s'"
  by (auto simp: lt_turn_def intro: lt_step.start lt_step.work)

lemma lt_run_bound:
  "lt_run k s s' \<Longrightarrow> (lt_step False)\<^sup>*\<^sup>* (new_loop_thread name) s \<Longrightarrow>
   k + lt_to_do s' \<le> lt_to_do s \<and> (lt_step False)\<^sup>*\<^sup>* (new_loop_thread name) s'"
proof (induction k arbitrary: s)
  case (Suc k)
  then obtain u where u: "lt_turn s u" "lt_run k u s'" by auto
  have "(lt_step False)\<^sup>*\<^sup>* (new_loop_thread name) u"
    using Suc.prems(2) lt_turn_step [OF u(1)] by (rule rtranclp.rtrancl_into_rtrancl)
  with Suc.IH [OF u(2) this] lt_turn_less [OF u(1) lt_inv_reach [OF Suc.prems(2)]] show ?case by simp
qed simp

text \<open>While \<open>startLoop()\<close> has not returned, somebody can move.\<close>

lemma threadFunc_moves:
  assumes "lt_work s \<noteq> WorkNone" and "\<not> work_over (lt_work s)" and "lt_work s \<noteq> WorkLoop"
    and "lt_work s = WorkLock \<Longrightarrow> mn_owner (lt_mon s) = None"
  shows "\<exists>s'. lt_turn s s'"
proof -
  obtain s' where s': "threadFunc s = Some s'"
    using assms by (cases "lt_work s") (simp_all add: threadFunc_def mutex_lock_def)
  moreover have "lt_work s' \<noteq> lt_work s" using s' assms(3) by (cases rule: threadFuncE) simp_all
  ultimately show ?thesis by (auto simp: lt_turn_def)
qed

lemma startLoop_moves:
  assumes "case startLoop s of None \<Rightarrow> False | Some s' \<Rightarrow> lt_owner s' \<noteq> lt_owner s"
  shows "\<exists>s'. lt_turn s s'"
  using assms by (auto simp: lt_turn_def split: option.splits)

lemma lt_moves:
  assumes inv: "lt_inv s" and disc: "disciplined (lt_inside s) (lt_waiting s) (lt_mon s)"
    and early: "\<not> owner_saw_loop (lt_owner s) \<or> lt_owner s = StartUnlock \<or> lt_owner s = StartReturn"
  shows "\<exists>s'. lt_turn s s'"
proof -
  have d: "work_critical (lt_work s) \<longleftrightarrow> mn_owner (lt_mon s) = Some 1" "owner_critical (lt_owner s) \<longleftrightarrow> mn_owner (lt_mon s) = Some 0"
    "mn_owner (lt_mon s) = None \<or> mn_owner (lt_mon s) = Some 0 \<or> mn_owner (lt_mon s) = Some 1"
    using disc unfolding lt_disciplined_iff by blast+
  have busy: "\<exists>s'. lt_turn s s'" if "work_critical (lt_work s)"
    using that by (intro threadFunc_moves) (cases "lt_work s"; simp)+
  show ?thesis
  proof (cases "lt_owner s")
    case StartCall
    then show ?thesis using inv by (intro startLoop_moves) (simp_all add: startLoop_def thread_start_def assertR_def lt_inv_def)
  next
    case StartLock
    then have "mn_owner (lt_mon s) = None \<or> work_critical (lt_work s)" using d by auto
    then show ?thesis
    proof
      assume "mn_owner (lt_mon s) = None"
      then show ?thesis using StartLock by (intro startLoop_moves) (simp add: startLoop_def mutex_lock_def)
    qed (rule busy)
  next
    case StartTest
    then show ?thesis by (intro startLoop_moves) (simp_all add: startLoop_def)
  next
    case StartSleep
    then have free: "mn_owner (lt_mon s) = None \<or> work_critical (lt_work s)" using d by auto
    show ?thesis
    proof (cases "0 \<in> mn_asleep (lt_mon s)")
      case True
      then have w: "work_before_notify (lt_work s)" using inv by (simp add: lt_inv_def)
      show ?thesis
      proof (cases "work_critical (lt_work s)")
        case False
        with free w show ?thesis by (intro threadFunc_moves) (cases "lt_work s"; simp)+
      qed (rule busy)
    next
      case False
      from free show ?thesis
      proof
        assume "mn_owner (lt_mon s) = None"
        then show ?thesis using StartSleep False
          by (intro startLoop_moves) (simp add: startLoop_def mutex_lock_def cond_resume_def)
      qed (rule busy)
    qed
  next
    case StartUnlock
    then show ?thesis by (intro startLoop_moves) (simp_all add: startLoop_def)
  next
    case StartReturn
    then show ?thesis by (intro startLoop_moves) (simp_all add: startLoop_def)
  qed (use early in simp_all)
qed

fun owner_starting :: "owner_pc \<Rightarrow> bool" where
  "owner_starting DtorTest = False"
| "owner_starting DtorQuit = False"
| "owner_starting DtorJoin = False"
| "owner_starting DtorDone = False"
| "owner_starting Aborted = False"
| "owner_starting _ = True"

lemma lt_turn_starting:
  assumes "lt_turn s s'" and "owner_starting (lt_owner s)" and "lt_owner s = StartCall \<longrightarrow> \<not> th_started (lt_thread s)"
  shows "owner_starting (lt_owner s') \<and> (lt_owner s' = StartCall \<longrightarrow> \<not> th_started (lt_thread s'))"
proof (cases "startLoop s = Some s'")
  case True
  then show ?thesis using assms(3) by (cases rule: startLoopE) simp_all
next
  case False
  then have "threadFunc s = Some s'" using assms(1) by (auto simp: lt_turn_def)
  then show ?thesis using assms(2,3) by (cases rule: threadFuncE) simp_all
qed

lemma lt_run_starting:
  "lt_run k s s' \<Longrightarrow> owner_starting (lt_owner s) \<Longrightarrow> lt_owner s = StartCall \<longrightarrow> \<not> th_started (lt_thread s) \<Longrightarrow>
   owner_starting (lt_owner s')"
  by (induction k arbitrary: s) (auto dest: lt_turn_starting)

section \<open>Properties\<close>

text \<open>Steps as a list says: 0 \<open>startLoop()\<close>, 1 the new thread, 2 the destructor, 3 a \<open>quit()\<close> from somebody else.\<close>

fun lt_play :: "nat list \<Rightarrow> loop_thread \<Rightarrow> loop_thread option" where
  "lt_play [] s = Some s"
| "lt_play (a # as) s = (case (if a = 0 then startLoop s else if a = 1 then threadFunc s
     else if a = 2 then delete_loop_thread s else if lt_work s = WorkLoop then Some (s\<lparr>lt_quit := True\<rparr>) else None) of
     None \<Rightarrow> None | Some s' \<Rightarrow> lt_play as s')"

lemma lt_play_reach: "lt_play as s = Some s' \<Longrightarrow> (allow \<or> set as \<subseteq> {0, 1, 2}) \<Longrightarrow> (lt_step allow)\<^sup>*\<^sup>* s s'"
proof (induction as arbitrary: s)
  case (Cons a as)
  obtain u where u: "lt_play as u = Some s'"
    and a: "a = 0 \<and> startLoop s = Some u \<or> a = 1 \<and> threadFunc s = Some u \<or> a = 2 \<and> delete_loop_thread s = Some u \<or>
      a \<notin> {0, 1, 2} \<and> lt_work s = WorkLoop \<and> u = s\<lparr>lt_quit := True\<rparr>"
    using Cons.prems(1) by (auto split: option.splits if_splits)
  have "lt_step allow s u" using a Cons.prems(2) lt_step.quit [of allow s] by (auto intro: lt_step.start lt_step.delete lt_step.work)
  moreover have "(lt_step allow)\<^sup>*\<^sup>* u s'" using Cons u by auto
  ultimately show ?case by (rule converse_rtranclp_into_rtranclp)
qed simp

lemma lt_play_run: "lt_play as s = Some s' \<Longrightarrow> set as \<subseteq> {0, 1} \<Longrightarrow> \<exists>k. lt_run k s s'"
proof (induction as arbitrary: s)
  case Nil
  then show ?case by (intro exI [of _ 0]) simp
next
  case (Cons a as)
  obtain u where u: "lt_play as u = Some s'" and a: "startLoop s = Some u \<or> threadFunc s = Some u"
    using Cons.prems by (auto split: option.splits if_splits)
  obtain k where k: "lt_run k u s'" using Cons u by auto
  show ?case
  proof (cases "u = s")
    case False
    then have "lt_run (Suc k) s s'" using a k by (auto simp: lt_turn_def)
    then show ?thesis ..
  qed (use k in blast)
qed

text \<open>C36: \<open>startLoop()\<close> hands out the loop. Under every interleaving of the owner and the new
  thread, spurious wake-ups included and nobody else calling \<open>quit()\<close>, no assertion fails,
  \<open>startLoop()\<close> never returns NULL, and when it has returned the loop exists and is published.\<close>

theorem startLoop_hands_out_the_loop:
  assumes "(lt_step False)\<^sup>*\<^sup>* (new_loop_thread name) s"
  shows "lt_owner s \<noteq> Aborted \<and> lt_owner s \<noteq> Started False \<and> (lt_owner s = Started True \<longrightarrow> lt_loop s \<and> th_started (lt_thread s))"
proof -
  have "lt_inv s" by (rule lt_inv_reach [OF assms])
  then show ?thesis by (auto simp: lt_inv_def)
qed

lemma example_started:
  "map_option (\<lambda>s. (lt_owner s, lt_loop s)) (lt_play [0, 0, 0, 1, 1, 1, 1, 1, 1, 0, 0, 0, 0] (new_loop_thread ''io'')) =
     Some (Started True, True)"
  by code_simp

theorem startLoop_hands_out_the_loop_witness:
  "\<exists>s. (lt_step False)\<^sup>*\<^sup>* (new_loop_thread ''io'') s \<and> lt_owner s = Started True \<and> lt_loop s \<and> th_started (lt_thread s)"
proof -
  obtain s where s: "lt_play [0, 0, 0, 1, 1, 1, 1, 1, 1, 0, 0, 0, 0] (new_loop_thread ''io'') = Some s" "lt_owner s = Started True"
    using example_started by auto
  have r: "(lt_step False)\<^sup>*\<^sup>* (new_loop_thread ''io'') s" by (rule lt_play_reach [OF s(1)]) simp
  then show ?thesis using startLoop_hands_out_the_loop [OF r] s(2) by blast
qed

text \<open>C35: \<open>startLoop()\<close> returns. From the call on, the two threads have at most 36 turns in all,
  and as long as \<open>startLoop()\<close> has not returned one of them can take its turn.\<close>

theorem startLoop_returns:
  assumes "lt_run k (new_loop_thread name) s"
  shows "k \<le> 36 \<and> ((\<nexists>s'. lt_turn s s') \<longrightarrow> lt_owner s = Started True)"
proof -
  have r: "k + lt_to_do s \<le> lt_to_do (new_loop_thread name)" "(lt_step False)\<^sup>*\<^sup>* (new_loop_thread name) s"
    using lt_run_bound [OF assms, of name] by auto
  have inv: "lt_inv s" by (rule lt_inv_reach [OF r(2)])
  have disc: "disciplined (lt_inside s) (lt_waiting s) (lt_mon s)" using lt.always [OF r(2)] by blast
  have "owner_starting (lt_owner s)" by (rule lt_run_starting [OF assms]) simp_all
  moreover have "owner_saw_loop (lt_owner s) \<and> lt_owner s \<noteq> StartUnlock \<and> lt_owner s \<noteq> StartReturn" if "\<nexists>s'. lt_turn s s'"
    using lt_moves [OF inv disc] that by blast
  ultimately have "lt_owner s = Started True" if "\<nexists>s'. lt_turn s s'"
    using that inv by (cases "lt_owner s") (auto simp: lt_inv_def)
  then show ?thesis using r(1) by (simp add: lt_to_do_def owner_to_do_def)
qed

theorem startLoop_returns_witness:
  "\<exists>k s. lt_run k (new_loop_thread ''io'') s \<and> k \<le> 36 \<and> lt_owner s = Started True"
proof -
  obtain s where s: "lt_play [0, 0, 0, 1, 1, 1, 1, 1, 1, 0, 0, 0, 0] (new_loop_thread ''io'') = Some s" "lt_owner s = Started True"
    using example_started by auto
  obtain k where k: "lt_run k (new_loop_thread ''io'') s" using lt_play_run [OF s(1)] by auto
  then show ?thesis using startLoop_returns [OF k] s(2) by blast
qed

text \<open>If somebody else may call \<open>quit()\<close>, \<open>startLoop()\<close> can return NULL: the loop runs and
  ends, \<open>loop_\<close> is cleared, before the owner reads it again, outside the mutex, to return it.\<close>

theorem startLoop_may_return_null:
  "\<exists>s. (lt_step True)\<^sup>*\<^sup>* (new_loop_thread ''io'') s \<and> lt_owner s = Started False \<and> lt_work s = WorkDone"
proof -
  have "map_option (\<lambda>s. (lt_owner s, lt_work s)) (lt_play [0, 1, 1, 1, 1, 1, 1, 0, 0, 0, 1, 3, 1, 1, 0] (new_loop_thread ''io''))
      = Some (Started False, WorkDone)"
    by code_simp
  then obtain s where s: "lt_play [0, 1, 1, 1, 1, 1, 1, 0, 0, 0, 1, 3, 1, 1, 0] (new_loop_thread ''io'') = Some s"
    "lt_owner s = Started False" "lt_work s = WorkDone" by auto
  have "(lt_step True)\<^sup>*\<^sup>* (new_loop_thread ''io'') s" by (rule lt_play_reach [OF s(1)]) simp
  then show ?thesis using s by blast
qed

text \<open>A thread that is in its loop, not asked to quit, with its owner in \<open>join()\<close>.\<close>

definition lt_hung :: "loop_thread \<Rightarrow> bool" where
  "lt_hung s \<longleftrightarrow> lt_owner s = DtorJoin \<and> lt_work s = WorkLoop \<and> \<not> lt_quit s \<and> th_started (lt_thread s)"

lemma lt_hung_step:
  assumes "lt_step False s s'" and "lt_hung s"
  shows "lt_hung s'"
  using assms(1)
proof cases
  case start
  then show ?thesis using assms(2) by (cases rule: startLoopE) (simp_all add: lt_hung_def)
next
  case delete
  then show ?thesis using assms(2) by (cases rule: delete_loop_threadE) (simp_all add: lt_hung_def)
next
  case work
  then show ?thesis using assms(2) by (cases rule: threadFuncE) (simp_all add: lt_hung_def)
qed (use assms(2) in \<open>simp_all add: lt_hung_def\<close>)

lemma lt_hung_stays: "(lt_step False)\<^sup>*\<^sup>* s s' \<Longrightarrow> lt_hung s \<Longrightarrow> lt_hung s'"
  by (induction rule: rtranclp_induct) (auto intro: lt_hung_step)

text \<open>C37: the destructor of a loop thread can wait for ever. When the owner destroys it right
  after \<open>startLoop()\<close>, its \<open>quit()\<close> may come before the new thread enters \<open>loop()\<close>, which clears
  \<open>quit_\<close>; from then on the owner stays in \<open>join()\<close> in every continuation.\<close>

theorem destructor_may_hang:
  "\<exists>s. (lt_step False)\<^sup>*\<^sup>* (new_loop_thread ''io'') s \<and>
    Collect ((lt_step False)\<^sup>*\<^sup>* s) \<subseteq> {s'. lt_owner s' = DtorJoin}"
proof -
  have "map_option lt_hung (lt_play [0, 1, 1, 1, 1, 1, 1, 0, 0, 0, 0, 2, 2, 2, 1] (new_loop_thread ''io'')) = Some True"
    by code_simp
  then obtain s where s: "lt_play [0, 1, 1, 1, 1, 1, 1, 0, 0, 0, 0, 2, 2, 2, 1] (new_loop_thread ''io'') = Some s" "lt_hung s"
    by auto
  have "(lt_step False)\<^sup>*\<^sup>* (new_loop_thread ''io'') s" by (rule lt_play_reach [OF s(1)]) simp
  then show ?thesis using lt_hung_stays [OF _ s(2)] by (auto simp: lt_hung_def)
qed

end
