(* ===== verification/Timestamp_Format.thy ===== *)
theory Timestamp_Format
  imports Timestamp Printf "HOL-Library.Signed_Division" "HOL-Library.Char_ord" "HOL-Library.List_Lexorder"
begin

text \<open>
  \<^verbatim>\<open>base/Timestamp.cc\<close>, \<open>toString\<close> and \<open>toFormatString\<close>: a time stamp as text, with
  \<open>gmtime_r\<close> of the C library for the calendar. The dates are those of the proleptic Gregorian
  calendar, whose years repeat after 400 years, or 146097 days.
\<close>

section \<open>The calendar\<close>

definition leap_year :: "int \<Rightarrow> bool" where
  "leap_year y \<longleftrightarrow> y mod 4 = 0 \<and> y mod 100 \<noteq> 0 \<or> y mod 400 = 0"

definition year_days :: "int \<Rightarrow> nat" where
  "year_days y = (if leap_year y then 366 else 365)"

definition month_days :: "int \<Rightarrow> nat list" where
  "month_days y = [31, if leap_year y then 29 else 28, 31, 30, 31, 30, 31, 31, 30, 31, 30, 31]"

text \<open>The year, or the month, that contains day \<open>d\<close>, and the day within it.\<close>

function year_of_day :: "int \<Rightarrow> nat \<Rightarrow> int \<times> nat" where
  "year_of_day y d = (if d < year_days y then (y, d) else year_of_day (y + 1) (d - year_days y))"
  by auto
termination by (relation "measure snd") (auto simp: year_days_def split: if_splits)

declare year_of_day.simps [simp del]

fun month_of_day :: "nat list \<Rightarrow> nat \<Rightarrow> nat \<times> nat" where
  "month_of_day [] d = (0, d)"
| "month_of_day (n # ns) d = (if d < n then (0, d) else (case month_of_day ns (d - n) of (m, d') \<Rightarrow> (Suc m, d')))"

record tm =
  tm_sec :: nat
  tm_min :: nat
  tm_hour :: nat
  tm_mday :: nat
  tm_mon :: nat
  tm_year :: int

definition gmtime :: "int \<Rightarrow> tm" where
  "gmtime seconds =
     (let day = seconds div 86400; s = nat (seconds mod 86400);
          (y, yd) = year_of_day (1970 + 400 * (day div 146097)) (nat (day mod 146097));
          (m, md) = month_of_day (month_days y) yd
      in \<lparr>tm_sec = s mod 60, tm_min = s div 60 mod 60, tm_hour = s div 3600, tm_mday = md + 1, tm_mon = m,
          tm_year = y - 1900\<rparr>)"

section \<open>Time stamps as text\<close>

text \<open>The division and the remainder of C++ round towards zero.\<close>

definition ts_toString :: "timestamp \<Rightarrow> string" where
  "ts_toString t =
     (let seconds = t sdiv kMicroSecondPerSecond; microseconds = t smod kMicroSecondPerSecond
      in snprintf 31 (decimal_int seconds @ ''.'' @ zero_pad 6 microseconds))"

definition toFormatString :: "timestamp \<Rightarrow> string" where
  "toFormatString t =
     (let seconds = t sdiv kMicroSecondPerSecond; microseconds = t smod kMicroSecondPerSecond; tm = gmtime seconds
      in snprintf 31 (space_pad 4 (tm_year tm + 1900) @ ''-'' @ zero_pad 2 (int (tm_mon tm) + 1) @ ''-'' @
           zero_pad 2 (int (tm_mday tm)) @ '' '' @ zero_pad 2 (int (tm_hour tm)) @ '':'' @ zero_pad 2 (int (tm_min tm)) @
           '':'' @ zero_pad 2 (int (tm_sec tm)) @ ''.'' @ zero_pad 6 microseconds))"

section \<open>Days and dates\<close>

text \<open>The number of days from 1970-01-01 to the first day of a year.\<close>

definition year_start :: "int \<Rightarrow> int" where
  "year_start y = 365 * (y - 1970) + (y - 1) div 4 - (y - 1) div 100 + (y - 1) div 400 - 477"

lemma div_pred: "y div k = (y - 1) div k + (if y mod k = 0 then 1 else 0)" if "1 < k" for y k :: int
proof (cases "y mod k = 0")
  case True
  then have "y = k * (y div k)" using mult_div_mod_eq [of k y] by simp
  then have "y - 1 = k * (y div k - 1) + (k - 1)" by (simp add: algebra_simps)
  then have "(y - 1) div k = y div k - 1" using that by (intro int_div_pos_eq [where r = "k - 1"]) simp_all
  then show ?thesis using True by simp
next
  case False
  have "0 \<le> y mod k" "y mod k < k" using that by simp_all
  moreover have "y - 1 = k * (y div k) + (y mod k - 1)" by simp
  ultimately have "(y - 1) div k = y div k" using False by (intro int_div_pos_eq [where r = "y mod k - 1"]) simp_all
  then show ?thesis using False by simp
qed

lemma leap_step:
  fixes a b c :: int
  assumes "p400 \<Longrightarrow> p100" and "p100 \<Longrightarrow> p4"
  shows "365 * (y + 1 - 1970) + (a + (if p4 then 1 else 0)) - (b + (if p100 then 1 else 0)) + (c + (if p400 then 1 else 0)) - 477 =
    365 * (y - 1970) + a - b + c - 477 + int (if p4 \<and> \<not> p100 \<or> p400 then 366 else 365)"
  using assms by auto

lemma year_start_next: "year_start (y + 1) = year_start y + int (year_days y)"
proof -
  have m: "y mod 400 = 0 \<Longrightarrow> y mod 100 = 0" "y mod 100 = 0 \<Longrightarrow> y mod 4 = 0"
    using dvd_trans [of 100 400 y] dvd_trans [of 4 100 y] by (simp_all add: mod_eq_0_iff_dvd)
  have d: "y div 4 = (y - 1) div 4 + (if y mod 4 = 0 then 1 else 0)" "y div 100 = (y - 1) div 100 + (if y mod 100 = 0 then 1 else 0)"
    "y div 400 = (y - 1) div 400 + (if y mod 400 = 0 then 1 else 0)"
    by (rule div_pred, simp)+
  show ?thesis
    unfolding year_start_def year_days_def leap_year_def add_diff_cancel_right' d by (rule leap_step) (fact m)+
qed

lemma year_start_era: "year_start (1970 + 400 * e) = 146097 * e"
proof -
  have "(1969 + 400 * e) div 4 = 492 + 100 * e" by (rule int_div_pos_eq [where r = 1]) simp_all
  moreover have "(1969 + 400 * e) div 100 = 19 + 4 * e" by (rule int_div_pos_eq [where r = 69]) simp_all
  moreover have "(1969 + 400 * e) div 400 = 4 + e" by (rule int_div_pos_eq [where r = 369]) simp_all
  ultimately show ?thesis by (simp add: year_start_def algebra_simps)
qed

lemma year_of_day:
  assumes "year_of_day y d = (y', r)"
  shows "year_start y' + int r = year_start y + int d \<and> r < year_days y' \<and> y \<le> y'"
  using assms
proof (induction y d rule: year_of_day.induct)
  case (1 y d)
  show ?case
  proof (cases "d < year_days y")
    case False
    then have "year_of_day (y + 1) (d - year_days y) = (y', r)" using 1(2) by (simp add: year_of_day.simps [of y d])
    with 1(1) False have "year_start y' + int r = year_start (y + 1) + int (d - year_days y) \<and> r < year_days y' \<and> y + 1 \<le> y'"
      by blast
    with False show ?thesis by (simp add: year_start_next)
  qed (use 1 in \<open>simp add: year_of_day.simps [of y d]\<close>)
qed

lemma month_of_day:
  assumes "month_of_day ns d = (m, r)" and "d < sum_list ns"
  shows "m < length ns \<and> r < ns ! m \<and> sum_list (take m ns) + r = d"
  using assms
proof (induction ns arbitrary: d m)
  case (Cons n ns)
  show ?case
  proof (cases "d < n")
    case False
    obtain m' where m: "month_of_day ns (d - n) = (m', r)" "m = Suc m'"
      using Cons.prems(1) False by (auto split: prod.splits)
    have "d - n < sum_list ns" using Cons.prems(2) False by simp
    from Cons.IH [OF m(1) this] False show ?thesis by (auto simp: m(2))
  qed (use Cons.prems in simp)
qed simp

lemma month_days_sum: "sum_list (month_days y) = year_days y"
  by (simp add: month_days_def year_days_def)

lemma month_days_le: "m < 12 \<Longrightarrow> month_days y ! m \<le> 31"
  by (auto simp: month_days_def less_Suc_eq numeral_eq_Suc)

text \<open>What \<open>gmtime\<close> gives is the date, for any second.\<close>

definition tm_day :: "tm \<Rightarrow> int" where
  "tm_day x = year_start (tm_year x + 1900) + int (sum_list (take (tm_mon x) (month_days (tm_year x + 1900)))) + int (tm_mday x) - 1"

definition tm_ok :: "tm \<Rightarrow> bool" where
  "tm_ok x \<longleftrightarrow> tm_sec x < 60 \<and> tm_min x < 60 \<and> tm_hour x < 24 \<and> tm_mon x < 12 \<and> 1 \<le> tm_mday x \<and>
     tm_mday x \<le> month_days (tm_year x + 1900) ! tm_mon x"

definition tm_seconds :: "tm \<Rightarrow> int" where
  "tm_seconds x = 86400 * tm_day x + 3600 * int (tm_hour x) + 60 * int (tm_min x) + int (tm_sec x)"

lemma gmtime_right: "tm_ok (gmtime s) \<and> tm_seconds (gmtime s) = s"
proof -
  define day where "day = s div 86400"
  define r where "r = nat (s mod 86400)"
  obtain y yd where y: "year_of_day (1970 + 400 * (day div 146097)) (nat (day mod 146097)) = (y, yd)" by fastforce
  obtain m md where m: "month_of_day (month_days y) yd = (m, md)" by fastforce
  have g: "gmtime s = \<lparr>tm_sec = r mod 60, tm_min = r div 60 mod 60, tm_hour = r div 3600, tm_mday = md + 1, tm_mon = m,
      tm_year = y - 1900\<rparr>"
    by (simp add: gmtime_def Let_def y m flip: day_def r_def)
  have r: "r < 86400" "int r = s mod 86400" by (simp_all add: r_def nat_less_iff)
  have 1: "year_start y + int yd = day" "yd < year_days y"
    using year_of_day [OF y] by (simp_all add: year_start_era)
  have 2: "m < 12 \<and> md < month_days y ! m \<and> sum_list (take m (month_days y)) + md = yd"
    using month_of_day [OF m] 1(2) by (simp add: month_days_sum) (simp add: month_days_def)
  have "tm_day (gmtime s) = day" using 1(1) 2 by (auto simp: g tm_day_def)
  moreover have "3600 * (r div 3600) + 60 * (r div 60 mod 60) + r mod 60 = r"
  proof -
    have "r div 3600 = r div 60 div 60" using div_mult2_eq [of r 60 60] by simp
    moreover have "60 * (r div 60 div 60) + r div 60 mod 60 = r div 60" "60 * (r div 60) + r mod 60 = r" by simp_all
    ultimately show ?thesis by linarith
  qed
  then have "int (3600 * (r div 3600) + 60 * (r div 60 mod 60) + r mod 60) = s mod 86400" using r(2) by simp
  then have "3600 * int (r div 3600) + 60 * int (r div 60 mod 60) + int (r mod 60) = s mod 86400" by simp
  ultimately have "tm_seconds (gmtime s) = s"
    by (simp add: tm_seconds_def) (simp add: g day_def, use mult_div_mod_eq [of 86400 s] in linarith)
  moreover have "r div 3600 < 24" using r(1) by (simp add: less_mult_imp_div_less)
  then have "tm_ok (gmtime s)" using 2 by (auto simp: tm_ok_def g)
  ultimately show ?thesis by blast
qed

section \<open>The order of dates\<close>

text \<open>
  A number cut into a block and a place within the block: the order of the numbers is that of the
  blocks first and of the places then.
\<close>

lemma less_blocks:
  fixes F :: "'a :: linorder \<Rightarrow> int"
  assumes "\<And>p q. p < q \<Longrightarrow> F p + W p \<le> F q" and "0 \<le> r" "r < W q" and "0 \<le> r'" "r' < W q'"
  shows "F q + r < F q' + r' \<longleftrightarrow> q < q' \<or> q = q' \<and> r < r'"
proof (cases q q' rule: linorder_cases)
  case less
  then show ?thesis using assms(1) [of q q'] assms(2-5) by auto
next
  case equal
  then show ?thesis by simp
next
  case greater
  then show ?thesis using assms(1) [of q' q] assms(2-5) by auto
qed

lemma year_start_mono: "y < y' \<Longrightarrow> year_start y + int (year_days y) \<le> year_start y'"
proof -
  have "year_start (y + 1) \<le> year_start (y + 1 + int k)" for k
  proof (induction k)
    case (Suc k)
    then show ?case using year_start_next [of "y + 1 + int k"] by (simp add: algebra_simps)
  qed simp
  from this [of "nat (y' - y - 1)"] show "y < y' \<Longrightarrow> ?thesis" by (simp add: year_start_next)
qed

lemma sum_take_mono: "m < m' \<Longrightarrow> m' \<le> length ns \<Longrightarrow> sum_list (take m ns) + ns ! m \<le> sum_list (take m' (ns :: nat list))"
proof (induction m' rule: less_induct)
  case (less m')
  then obtain k where k: "m' = Suc k" by (cases m') auto
  show ?case
  proof (cases "m = k")
    case True
    then show ?thesis using less.prems k by (simp add: take_Suc_conv_app_nth)
  next
    case False
    then have "sum_list (take m ns) + ns ! m \<le> sum_list (take k ns)" using less k by simp
    then show ?thesis using less.prems k by (simp add: take_Suc_conv_app_nth)
  qed
qed

lemma tm_day_in_year:
  assumes "tm_ok x"
  shows "tm_day x - year_start (tm_year x + 1900) < int (year_days (tm_year x + 1900))" "year_start (tm_year x + 1900) \<le> tm_day x"
proof -
  let ?y = "tm_year x + 1900"
  have "sum_list (take (tm_mon x) (month_days ?y)) + month_days ?y ! tm_mon x \<le> sum_list (take 12 (month_days ?y))"
    using assms by (intro sum_take_mono) (auto simp: tm_ok_def month_days_def)
  also have "\<dots> = year_days ?y" by (simp flip: month_days_sum) (simp add: month_days_def)
  finally show "tm_day x - year_start ?y < int (year_days ?y)" using assms by (simp add: tm_day_def tm_ok_def)
  show "year_start ?y \<le> tm_day x" using assms by (simp add: tm_day_def tm_ok_def)
qed

lemma tm_day_less:
  assumes "tm_ok x" and "tm_ok x'"
  shows "tm_day x < tm_day x' \<longleftrightarrow> tm_year x < tm_year x' \<or> tm_year x = tm_year x' \<and>
    (tm_mon x < tm_mon x' \<or> tm_mon x = tm_mon x' \<and> tm_mday x < tm_mday x')"
proof -
  let ?Y = "\<lambda>y. year_start (y + 1900)"
  have "tm_day x < tm_day x' \<longleftrightarrow> ?Y (tm_year x) + (tm_day x - ?Y (tm_year x)) < ?Y (tm_year x') + (tm_day x' - ?Y (tm_year x'))"
    by simp
  also have "\<dots> \<longleftrightarrow> tm_year x < tm_year x' \<or> tm_year x = tm_year x' \<and> tm_day x - ?Y (tm_year x) < tm_day x' - ?Y (tm_year x')"
    using tm_day_in_year [OF assms(1)] tm_day_in_year [OF assms(2)] year_start_mono
    by (intro less_blocks [where W = "\<lambda>y. int (year_days (y + 1900))"]) simp_all
  finally have 1: "tm_day x < tm_day x' \<longleftrightarrow> tm_year x < tm_year x' \<or> tm_year x = tm_year x' \<and> tm_day x - ?Y (tm_year x) < tm_day x' - ?Y (tm_year x')" .
  have 2: "tm_day x - ?Y (tm_year x) < tm_day x' - ?Y (tm_year x') \<longleftrightarrow> tm_mon x < tm_mon x' \<or> tm_mon x = tm_mon x' \<and> tm_mday x < tm_mday x'"
    if "tm_year x = tm_year x'"
  proof -
    let ?ns = "month_days (tm_year x' + 1900)"
    let ?M = "\<lambda>m. int (sum_list (take (min m 12) ?ns))"
    have m: "tm_mon x < 12" "tm_mon x' < 12" using assms by (auto simp: tm_ok_def)
    have "?M (tm_mon x) + (int (tm_mday x) - 1) < ?M (tm_mon x') + (int (tm_mday x') - 1) \<longleftrightarrow>
        tm_mon x < tm_mon x' \<or> tm_mon x = tm_mon x' \<and> int (tm_mday x) - 1 < int (tm_mday x') - 1"
    proof (rule less_blocks [where W = "\<lambda>m. if m < 12 then int (?ns ! m) else 0"])
      show "?M p + (if p < 12 then int (?ns ! p) else 0) \<le> ?M q" if "p < q" for p q
      proof (cases "p < 12")
        case True
        then have "sum_list (take p ?ns) + ?ns ! p \<le> sum_list (take (min q 12) ?ns)"
          using that by (intro sum_take_mono) (auto simp: month_days_def)
        then show ?thesis using True by (simp flip: of_nat_add)
      qed (use that in simp)
    qed (use assms that m in \<open>auto simp: tm_ok_def\<close>)
    then show ?thesis using m that by (simp add: tm_day_def)
  qed
  from 1 2 show ?thesis by blast
qed

lemma tm_seconds_less:
  assumes "tm_ok x" and "tm_ok x'"
  shows "tm_seconds x < tm_seconds x' \<longleftrightarrow> tm_day x < tm_day x' \<or> tm_day x = tm_day x' \<and>
    (tm_hour x < tm_hour x' \<or> tm_hour x = tm_hour x' \<and>
      (tm_min x < tm_min x' \<or> tm_min x = tm_min x' \<and> tm_sec x < tm_sec x'))"
  using assms by (auto simp: tm_seconds_def tm_ok_def)

lemma tm_day_eq:
  assumes "tm_ok x" and "tm_ok x'"
  shows "tm_day x = tm_day x' \<longleftrightarrow> tm_year x = tm_year x' \<and> tm_mon x = tm_mon x' \<and> tm_mday x = tm_mday x'"
proof
  assume "tm_day x = tm_day x'"
  then have "\<not> tm_day x < tm_day x'" "\<not> tm_day x' < tm_day x" by simp_all
  then show "tm_year x = tm_year x' \<and> tm_mon x = tm_mon x' \<and> tm_mday x = tm_mday x'"
    unfolding tm_day_less [OF assms] tm_day_less [OF assms(2,1)] by linarith
qed (simp add: tm_day_def)

lemma tm_seconds_eq:
  assumes "tm_ok x" and "tm_ok x'"
  shows "tm_seconds x = tm_seconds x' \<longleftrightarrow> tm_day x = tm_day x' \<and> tm_hour x = tm_hour x' \<and> tm_min x = tm_min x' \<and> tm_sec x = tm_sec x'"
proof
  assume "tm_seconds x = tm_seconds x'"
  then have "\<not> tm_seconds x < tm_seconds x'" "\<not> tm_seconds x' < tm_seconds x" by simp_all
  then show "tm_day x = tm_day x' \<and> tm_hour x = tm_hour x' \<and> tm_min x = tm_min x' \<and> tm_sec x = tm_sec x'"
    unfolding tm_seconds_less [OF assms] tm_seconds_less [OF assms(2,1)] by linarith
qed (simp add: tm_seconds_def)

section \<open>The order of texts\<close>

lemma append_less:
  "length a = length a' \<Longrightarrow> a @ b < a' @ b' \<longleftrightarrow> a < a' \<or> a = a' \<and> b < (b' :: 'a :: linorder list)"
  by (induction a a' rule: list_induct2) auto

lemma digit_char_less: "a < 10 \<Longrightarrow> b < 10 \<Longrightarrow> digit_char a < digit_char b \<longleftrightarrow> a < b"
  by (simp add: less_char_def of_digit_char)

lemma digit_char_eq: "a < 10 \<Longrightarrow> b < 10 \<Longrightarrow> digit_char a = digit_char b \<longleftrightarrow> a = b"
  using digit_char_less [of a b] digit_char_less [of b a] by (cases a b rule: linorder_cases) auto

lemma digits_eq: "m < 10 ^ k \<Longrightarrow> n < 10 ^ k \<Longrightarrow> digits k m = digits k n \<longleftrightarrow> m = n"
proof (induction k arbitrary: m n)
  case (Suc k)
  then have "m div 10 < 10 ^ k" "n div 10 < 10 ^ k" by (simp_all add: less_mult_imp_div_less mult.commute)
  then have "digits k (m div 10) = digits k (n div 10) \<longleftrightarrow> m div 10 = n div 10" by (rule Suc.IH)
  moreover have "m = n \<longleftrightarrow> m div 10 = n div 10 \<and> m mod 10 = n mod 10" by (metis mult_div_mod_eq)
  ultimately show ?case by (simp add: digit_char_eq)
qed simp

lemma digits_less: "m < 10 ^ k \<Longrightarrow> n < 10 ^ k \<Longrightarrow> digits k m < digits k n \<longleftrightarrow> m < n"
proof (induction k arbitrary: m n)
  case (Suc k)
  then have l: "m div 10 < 10 ^ k" "n div 10 < 10 ^ k" by (simp_all add: less_mult_imp_div_less mult.commute)
  have "digits (Suc k) m < digits (Suc k) n \<longleftrightarrow> m div 10 < n div 10 \<or> m div 10 = n div 10 \<and> m mod 10 < n mod 10"
    using Suc.IH [OF l] digits_eq [OF l] by (simp add: append_less digit_char_less)
  also have "\<dots> \<longleftrightarrow> m < n"
    using less_mult_imp_div_less mult_div_mod_eq [of 10 m] mult_div_mod_eq [of 10 n] by linarith
  finally show ?case .
qed simp

definition in_years :: "timestamp \<Rightarrow> bool" where
  "in_years t \<longleftrightarrow> 0 \<le> t \<and> t < 253402300800 * kMicroSecondPerSecond"

lemma truncated_division:
  "0 \<le> t \<Longrightarrow> t sdiv kMicroSecondPerSecond = t div 1000000 \<and> t smod kMicroSecondPerSecond = t mod 1000000"
  by (simp add: kMicroSecondPerSecond_def signed_divide_int_def signed_modulo_int_def minus_mult_div_eq_mod sgn_if)

lemma in_years_date:
  assumes "in_years t"
  defines "x \<equiv> gmtime (t sdiv kMicroSecondPerSecond)"
  shows "tm_ok x" "tm_seconds x = t div 1000000" "t sdiv kMicroSecondPerSecond = t div 1000000"
    "t smod kMicroSecondPerSecond = t mod 1000000" "1970 \<le> tm_year x + 1900" "tm_year x + 1900 < 10000"
proof -
  have "1000000 * (t div 1000000) + t mod 1000000 = t" "0 \<le> t mod 1000000" by simp_all
  then have t: "0 \<le> t" "t div 1000000 < 253402300800" using assms(1) unfolding in_years_def kMicroSecondPerSecond_def by linarith+
  show s: "t sdiv kMicroSecondPerSecond = t div 1000000" "t smod kMicroSecondPerSecond = t mod 1000000"
    using truncated_division [OF t(1)] by simp_all
  show ok: "tm_ok x" and sec: "tm_seconds x = t div 1000000" using gmtime_right [of "t div 1000000"] by (simp_all add: x_def s)
  let ?y = "tm_year x + 1900"
  note y = tm_day_in_year [OF ok]
  have d: "0 \<le> tm_day x" "tm_day x < 2932897"
    using ok sec t pos_imp_zdiv_nonneg_iff [of 1000000 t] by (simp_all add: tm_seconds_def tm_ok_def)
  show "1970 \<le> ?y"
  proof (rule ccontr)
    assume "\<not> ?thesis"
    then have "year_start ?y + int (year_days ?y) \<le> year_start 1970" by (intro year_start_mono) simp
    then show False using y(1) d(1) by (simp add: year_start_def)
  qed
  show "?y < 10000"
  proof (rule ccontr)
    assume "\<not> ?thesis"
    then have "year_start 10000 \<le> year_start ?y" using year_start_mono [of 10000 ?y] by (cases "?y = 10000") simp_all
    then show False using y(2) d(2) by (simp add: year_start_def)
  qed
qed

lemma toFormatString_digits:
  assumes "in_years t"
  defines "x \<equiv> gmtime (t sdiv kMicroSecondPerSecond)"
  shows "toFormatString t = digits 4 (nat (tm_year x + 1900)) @ ''-'' @ digits 2 (tm_mon x + 1) @ ''-'' @ digits 2 (tm_mday x) @
    '' '' @ digits 2 (tm_hour x) @ '':'' @ digits 2 (tm_min x) @ '':'' @ digits 2 (tm_sec x) @ ''.'' @ digits 6 (nat (t mod 1000000))"
proof -
  note d = in_years_date [OF assms(1), folded x_def]
  have pad: "zero_pad 2 (int n) = digits 2 n" if "n < 100" for n
    using zero_pad_digits [of n 1] that by (simp add: numeral_2_eq_2 del: digits.simps)
  have "month_days (tm_year x + 1900) ! tm_mon x \<le> 31" using d(1) by (intro month_days_le) (simp add: tm_ok_def)
  then have 2: "zero_pad 2 (int (tm_mon x) + 1) = digits 2 (tm_mon x + 1)" "zero_pad 2 (int (tm_mday x)) = digits 2 (tm_mday x)"
    "zero_pad 2 (int (tm_hour x)) = digits 2 (tm_hour x)" "zero_pad 2 (int (tm_min x)) = digits 2 (tm_min x)"
    "zero_pad 2 (int (tm_sec x)) = digits 2 (tm_sec x)"
    using d(1) pad [of "tm_mon x + 1"] by (simp_all add: tm_ok_def pad add.commute)
  have 6: "zero_pad 6 (t mod 1000000) = digits 6 (nat (t mod 1000000))"
    using zero_pad_digits [of "nat (t mod 1000000)" 5] by (simp add: nat_less_iff del: digits.simps)
  let ?y = "nat (tm_year x + 1900)"
  have "1000 \<le> ?y" "?y < 10000" "int ?y = tm_year x + 1900" using d(5,6) by simp_all
  then have "length (decimal ?y) = 4" using length_decimal [of 3 ?y] by simp
  then have "space_pad 4 (tm_year x + 1900) = digits 4 ?y"
    using digits_decimal [of ?y 3] d(5,6) by (simp add: space_pad_def decimal_int_def nat_less_iff del: digits.simps)
  moreover have "gmtime (t div 1000000) = x" by (simp add: x_def d(3))
  ultimately show ?thesis using 2 6 d(3,4) by (simp add: toFormatString_def Let_def snprintf_def del: digits.simps)
qed

section \<open>Seconds and microseconds\<close>

text \<open>\<open>toString\<close> read back.\<close>

definition read_time :: "string \<Rightarrow> timestamp" where
  "read_time s = int (decimal_value (takeWhile (\<lambda>c. c \<noteq> CHR ''.'') s)) * kMicroSecondPerSecond +
     int (decimal_value (drop 1 (dropWhile (\<lambda>c. c \<noteq> CHR ''.'') s)))"

lemma not_digit: "list_all is_digit s \<Longrightarrow> \<forall>c \<in> set s. c \<noteq> CHR ''.''"
  by (auto simp: list_all_iff is_digit_def)

lemma toString_reads_back:
  assumes "0 \<le> t" and "t < 2 ^ 63"
  shows "read_time (ts_toString t) = t"
proof -
  let ?s = "nat (t div 1000000)" and ?u = "nat (t mod 1000000)"
  have e: "1000000 * (t div 1000000) + t mod 1000000 = t" "0 \<le> t mod 1000000" by simp_all
  have "0 \<le> t div 1000000" using assms(1) by (simp add: pos_imp_zdiv_nonneg_iff)
  moreover have "t < 9223372036854775808" using assms(2) by simp
  then have "t div 1000000 < 10000000000000" using e by linarith
  ultimately have s: "int ?s = t div 1000000" "?s < 10 ^ 13" by (simp_all add: nat_less_iff)
  have u: "?u < 10 ^ Suc 5" "int ?u = t mod 1000000" by (simp_all add: nat_less_iff)
  have "length (decimal ?s) \<le> length (decimal (10 ^ 13 - 1))" using s(2) by (intro decimal_longer) simp
  also have "\<dots> = 13" using length_decimal [of 12 "10 ^ 13 - 1"] by simp
  finally have "length (decimal ?s) \<le> 13" .
  moreover have "t sdiv kMicroSecondPerSecond = t div 1000000" "t smod kMicroSecondPerSecond = t mod 1000000"
    using truncated_division [OF assms(1)] by simp_all
  moreover have "decimal_int (t div 1000000) = decimal ?s" using \<open>0 \<le> t div 1000000\<close> by (simp add: decimal_int_def)
  moreover have "zero_pad 6 (t mod 1000000) = digits 6 ?u" using zero_pad_digits [OF u(1)] u(2) by (simp del: digits.simps)
  ultimately have "ts_toString t = decimal ?s @ CHR ''.'' # digits 6 ?u"
    by (simp add: ts_toString_def snprintf_def del: digits.simps)
  moreover have "decimal_value (digits 6 ?u) = ?u" using u(1) by (simp add: decimal_value_digits)
  ultimately show ?thesis
    using s(1) u(2) e(1) not_digit [OF decimal_digits]
    by (simp add: read_time_def kMicroSecondPerSecond_def del: digits.simps)
qed

text \<open>A negative time prints its sign in the wrong place.\<close>

lemma negative_time: "ts_toString (- 5) = ''0.-00005''"
proof -
  have "- 5 sdiv kMicroSecondPerSecond = 0" "- 5 smod kMicroSecondPerSecond = - 5" by (simp_all add: kMicroSecondPerSecond_def)
  then show ?thesis
    by (simp add: ts_toString_def snprintf_def decimal_int_def zero_pad_def decimal_digit digit_char_values) (simp add: numeral_eq_Suc)
qed

section \<open>Properties\<close>

lemma field_less:
  "m < 10 ^ k \<Longrightarrow> n < 10 ^ k \<Longrightarrow> digits k m @ c # s < digits k n @ c # s' \<longleftrightarrow> m < n \<or> m = n \<and> s < s'"
  by (simp add: append_less digits_less digits_eq)

lemma dates_less:
  assumes "in_years t" and "in_years t'"
  shows "toFormatString t < toFormatString t' \<longleftrightarrow> t < t'"
proof -
  define x where "x = gmtime (t sdiv kMicroSecondPerSecond)"
  define x' where "x' = gmtime (t' sdiv kMicroSecondPerSecond)"
  note d = in_years_date [OF assms(1), folded x_def] and d' = in_years_date [OF assms(2), folded x'_def]
  have r: "nat (tm_year x + 1900) < 10 ^ 4" "nat (tm_year x' + 1900) < 10 ^ 4"
    "tm_mon x + 1 < 10 ^ 2" "tm_mon x' + 1 < 10 ^ 2" "tm_mday x < 10 ^ 2" "tm_mday x' < 10 ^ 2"
    "tm_hour x < 10 ^ 2" "tm_hour x' < 10 ^ 2" "tm_min x < 10 ^ 2" "tm_min x' < 10 ^ 2" "tm_sec x < 10 ^ 2" "tm_sec x' < 10 ^ 2"
    "nat (t mod 1000000) < 10 ^ 6" "nat (t' mod 1000000) < 10 ^ 6"
    using d(1,5,6) d'(1,5,6) month_days_le [of "tm_mon x" "tm_year x + 1900"] month_days_le [of "tm_mon x'" "tm_year x' + 1900"]
    by (simp_all add: tm_ok_def nat_less_iff)
  have y: "nat (tm_year x + 1900) < nat (tm_year x' + 1900) \<longleftrightarrow> tm_year x < tm_year x'"
    "nat (tm_year x + 1900) = nat (tm_year x' + 1900) \<longleftrightarrow> tm_year x = tm_year x'"
    using d(5) d'(5) by auto
  have us: "nat (t mod 1000000) < nat (t' mod 1000000) \<longleftrightarrow> t mod 1000000 < t' mod 1000000"
    by (rule nat_less_eq_zless) simp
  have "toFormatString t < toFormatString t' \<longleftrightarrow> tm_year x < tm_year x' \<or> tm_year x = tm_year x' \<and>
      (tm_mon x < tm_mon x' \<or> tm_mon x = tm_mon x' \<and> (tm_mday x < tm_mday x' \<or> tm_mday x = tm_mday x' \<and>
      (tm_hour x < tm_hour x' \<or> tm_hour x = tm_hour x' \<and> (tm_min x < tm_min x' \<or> tm_min x = tm_min x' \<and>
      (tm_sec x < tm_sec x' \<or> tm_sec x = tm_sec x' \<and> t mod 1000000 < t' mod 1000000)))))"
    unfolding toFormatString_digits [OF assms(1), folded x_def] toFormatString_digits [OF assms(2), folded x'_def]
      append_Cons append_Nil
    by (simp only: field_less r digits_less y us add_less_cancel_right add_right_cancel)
  then have "toFormatString t < toFormatString t' \<longleftrightarrow>
      tm_seconds x < tm_seconds x' \<or> tm_seconds x = tm_seconds x' \<and> t mod 1000000 < t' mod 1000000"
    unfolding tm_seconds_less [OF d(1) d'(1)] tm_seconds_eq [OF d(1) d'(1)] tm_day_less [OF d(1) d'(1)] tm_day_eq [OF d(1) d'(1)]
    by blast
  also have "\<dots> \<longleftrightarrow> t < t'"
    using mult_div_mod_eq [of 1000000 t] mult_div_mod_eq [of 1000000 t'] pos_mod_bound [of 1000000 t] pos_mod_bound [of 1000000 t']
      pos_mod_sign [of 1000000 t] pos_mod_sign [of 1000000 t'] unfolding d(2) d'(2) by linarith
  finally show ?thesis .
qed

text \<open>The text of a time stamp sorts as the time does. For times from 1970 to the end of the
  year 9999 \<open>toFormatString\<close> gives 26 characters, and of two texts the lexicographically smaller one
  belongs to the earlier time, so lines of a log that start with it are in the order of time.\<close>

theorem formatted_time_sorts:
  assumes "in_years t" and "in_years t'"
  shows "(toFormatString t < toFormatString t' \<longleftrightarrow> t < t') \<and> (toFormatString t = toFormatString t' \<longleftrightarrow> t = t') \<and>
    length (toFormatString t) = 26"
  using dates_less [OF assms] dates_less [OF assms(2,1)] toFormatString_digits [OF assms(1)]
  by (cases t t' rule: linorder_cases) auto

theorem formatted_time_sorts_witness:
  "toFormatString 1473379200123456 = ''2016-09-09 00:00:00.123456'' \<and> toFormatString 1473379200123456 < toFormatString 1476748800000000"
proof -
  have "in_years 1473379200123456" "in_years 1476748800000000" by (simp_all add: in_years_def kMicroSecondPerSecond_def)
  moreover have "toFormatString 1473379200123456 = ''2016-09-09 00:00:00.123456''"
  proof -
    have "gmtime 1473379200 = \<lparr>tm_sec = 0, tm_min = 0, tm_hour = 0, tm_mday = 9, tm_mon = 8, tm_year = 116\<rparr>" by code_simp
    moreover have "snprintf 31 (space_pad 4 2016 @ ''-'' @ zero_pad 2 9 @ ''-'' @ zero_pad 2 9 @ '' '' @ zero_pad 2 0 @ '':'' @
        zero_pad 2 0 @ '':'' @ zero_pad 2 0 @ ''.'' @ zero_pad 6 123456) = ''2016-09-09 00:00:00.123456''"
      by (simp add: snprintf_def space_pad_def zero_pad_def decimal_int_def decimal.simps digit_char_values)
    ultimately show ?thesis by (simp add: toFormatString_def kMicroSecondPerSecond_def)
  qed
  ultimately show ?thesis using formatted_time_sorts [of 1473379200123456 1476748800000000] by simp
qed

end
