(* ===== verification/Logging.thy ===== *)
theory Logging
  imports Kernel Timestamp_Format
begin

text \<open>
  \<^verbatim>\<open>base/Logging.cc\<close> and \<^verbatim>\<open>base/Logging.h\<close>: a log statement makes a logger, streams its text
  into it and destroys it, which writes the line and, at level FATAL, aborts. The models of the
  other components leave their log statements out, apart from those that abort.
\<close>

section \<open>Levels\<close>

datatype log_level = TRACE | DEBUG | INFO | WARN | ERROR | FATAL

fun level_number :: "log_level \<Rightarrow> nat" where
  "level_number TRACE = 0"
| "level_number DEBUG = 1"
| "level_number INFO = 2"
| "level_number WARN = 3"
| "level_number ERROR = 4"
| "level_number FATAL = 5"

lemma level_number_inj: "level_number a = level_number b \<Longrightarrow> a = b"
  by (cases a; cases b) simp_all

instantiation log_level :: linorder
begin

definition "a \<le> b \<longleftrightarrow> level_number a \<le> level_number b"

definition "a < b \<longleftrightarrow> level_number a < level_number b"

instance
  by intro_classes (auto simp: less_eq_log_level_def less_log_level_def intro: level_number_inj)

end

fun logLevelName :: "log_level \<Rightarrow> string" where
  "logLevelName TRACE = ''TRACE''"
| "logLevelName DEBUG = ''DEBUG''"
| "logLevelName INFO = ''INFO''"
| "logLevelName WARN = ''WARN''"
| "logLevelName ERROR = ''ERROR''"
| "logLevelName FATAL = ''FATAl''"

text \<open>\<open>env\<close> says whether \<open>SUMMER_LOG_TRACE\<close> is set when the program starts.\<close>

definition initLogLevel :: "bool \<Rightarrow> log_level" where
  "initLogLevel env = (if env then TRACE else DEBUG)"

section \<open>The logger\<close>

record logger =
  lg_basename :: string
  lg_fullname :: string
  lg_line :: int
  lg_logLevel :: log_level
  lg_timestamp :: timestamp
  lg_function :: "string option"
  lg_stream :: string

text \<open>What a statement takes from its thread: \<open>tid()\<close>, \<open>errno\<close>, and the texts of \<open>strerror_r\<close>.\<close>

record log_thread =
  by_tid :: int
  by_errno :: int
  by_strerror :: "int \<Rightarrow> string"

text \<open>The name after the last slash, which \<open>strrchr\<close> finds.\<close>

definition basename :: "string \<Rightarrow> string" where
  "basename f = rev (takeWhile (\<lambda>c. c \<noteq> CHR ''/'') (rev f))"

definition message_head :: "timestamp \<Rightarrow> int \<Rightarrow> log_level \<Rightarrow> string" where
  "message_head t tid l = snprintf 512 (toFormatString t @ '' '' @ space_pad 5 tid @ '' '' @ logLevelName l @ '' '')"

definition new_impl :: "log_thread \<Rightarrow> string \<Rightarrow> int \<Rightarrow> log_level \<Rightarrow> int \<Rightarrow> 'z kworld_scheme \<Rightarrow> logger \<times> 'z kworld_scheme" where
  "new_impl th file line level savedErrno w = (let (t, w1) = ts_now w;
     head = message_head t (by_tid th) level;
     err = (if savedErrno \<noteq> 0 then by_strerror th savedErrno @ ''(errno = '' @ decimal_int savedErrno @ '') '' else '''')
     in (\<lparr>lg_basename = basename file, lg_fullname = file, lg_line = line, lg_logLevel = level, lg_timestamp = t,
           lg_function = None, lg_stream = head @ err\<rparr>, w1))"

definition stream :: "string \<Rightarrow> logger \<Rightarrow> logger" where
  "stream s x = x\<lparr>lg_stream := lg_stream x @ s\<rparr>"

definition finish :: "logger \<Rightarrow> logger" where
  "finish x = stream ('' - '' @ lg_basename x @ '' : '' @ decimal_int (lg_line x) @ [CHR 0x0A]) x"

text \<open>The constructors of \<open>Logger\<close>.\<close>

definition logger_info :: "log_thread \<Rightarrow> string \<Rightarrow> int \<Rightarrow> 'z kworld_scheme \<Rightarrow> logger \<times> 'z kworld_scheme" where
  "logger_info th file line w = new_impl th file line INFO 0 w"

definition logger_level :: "log_thread \<Rightarrow> string \<Rightarrow> int \<Rightarrow> log_level \<Rightarrow> 'z kworld_scheme \<Rightarrow> logger \<times> 'z kworld_scheme" where
  "logger_level th file line level w = new_impl th file line level 0 w"

definition logger_function ::
  "log_thread \<Rightarrow> string \<Rightarrow> int \<Rightarrow> log_level \<Rightarrow> string \<Rightarrow> 'z kworld_scheme \<Rightarrow> logger \<times> 'z kworld_scheme" where
  "logger_function th file line level func w = (let (x, w1) = new_impl th file line level 0 w
     in (stream (func @ '' '') (x\<lparr>lg_function := Some func\<rparr>), w1))"

definition logger_errno :: "log_thread \<Rightarrow> string \<Rightarrow> int \<Rightarrow> bool \<Rightarrow> 'z kworld_scheme \<Rightarrow> logger \<times> 'z kworld_scheme" where
  "logger_errno th file line toAbort w = new_impl th file line (if toAbort then FATAL else ERROR) (by_errno th) w"

text \<open>\<open>~Logger()\<close>; the result says whether it ends in \<open>abort()\<close>.\<close>

definition delete_logger :: "logger \<Rightarrow> 'z kworld_scheme \<Rightarrow> bool \<times> 'z kworld_scheme" where
  "delete_logger x w = (let message = lg_stream (finish x); (_, w1) = sys (SysWrite 1 message) w
     in (lg_logLevel x = FATAL, w1))"

section \<open>Log statements\<close>

datatype log_macro = LOG_INFO | LOG_TRACE | LOG_DEBUG | LOG_WARN | LOG_ERROR | LOG_FATAL | LOG_SYSERR | LOG_SYSFATAL

text \<open>The global \<open>g_logLevel\<close>, with \<open>logLevel()\<close> and \<open>setLogLevel()\<close>.\<close>

record loggingw = kworld +
  g_logLevel :: log_level

definition logLevel :: "'z loggingw_scheme \<Rightarrow> log_level" where
  "logLevel w = g_logLevel w"

definition setLogLevel :: "log_level \<Rightarrow> 'z loggingw_scheme \<Rightarrow> 'z loggingw_scheme" where
  "setLogLevel l w = w\<lparr>g_logLevel := l\<rparr>"

fun make_logger :: "log_macro \<Rightarrow> log_thread \<Rightarrow> string \<Rightarrow> int \<Rightarrow> string \<Rightarrow> 'z kworld_scheme \<Rightarrow> logger \<times> 'z kworld_scheme" where
  "make_logger LOG_INFO th file line func w = logger_info th file line w"
| "make_logger LOG_TRACE th file line func w = logger_function th file line TRACE func w"
| "make_logger LOG_DEBUG th file line func w = logger_function th file line DEBUG func w"
| "make_logger LOG_WARN th file line func w = logger_level th file line WARN w"
| "make_logger LOG_ERROR th file line func w = logger_level th file line ERROR w"
| "make_logger LOG_FATAL th file line func w = logger_level th file line FATAL w"
| "make_logger LOG_SYSERR th file line func w = logger_errno th file line False w"
| "make_logger LOG_SYSFATAL th file line func w = logger_errno th file line True w"

text \<open>The statement \<open>LOG_... << text;\<close>, in the function \<open>func\<close>.\<close>

definition log_statement ::
  "log_macro \<Rightarrow> log_thread \<Rightarrow> string \<Rightarrow> int \<Rightarrow> string \<Rightarrow> string \<Rightarrow> 'z loggingw_scheme \<Rightarrow> bool \<times> 'z loggingw_scheme" where
  "log_statement m th file line func text w =
     (if m = LOG_TRACE \<and> \<not> logLevel w \<le> TRACE then (False, w)
      else let (x, w1) = make_logger m th file line func w in delete_logger (stream text x) w1)"

section \<open>Properties\<close>

fun macro_level :: "log_macro \<Rightarrow> log_level" where
  "macro_level LOG_INFO = INFO"
| "macro_level LOG_TRACE = TRACE"
| "macro_level LOG_DEBUG = DEBUG"
| "macro_level LOG_WARN = WARN"
| "macro_level LOG_ERROR = ERROR"
| "macro_level LOG_FATAL = FATAL"
| "macro_level LOG_SYSERR = ERROR"
| "macro_level LOG_SYSFATAL = FATAL"

text \<open>What stands between the head and the text of a line.\<close>

definition log_extra :: "log_macro \<Rightarrow> log_thread \<Rightarrow> string \<Rightarrow> string" where
  "log_extra m th func =
     (if m \<in> {LOG_TRACE, LOG_DEBUG} then func @ '' ''
      else if m \<in> {LOG_SYSERR, LOG_SYSFATAL} \<and> by_errno th \<noteq> 0
      then by_strerror th (by_errno th) @ ''(errno = '' @ decimal_int (by_errno th) @ '') '' else '''')"

definition log_line :: "log_macro \<Rightarrow> log_thread \<Rightarrow> string \<Rightarrow> int \<Rightarrow> string \<Rightarrow> string \<Rightarrow> timestamp \<Rightarrow> string" where
  "log_line m th file line func text t =
     message_head t (by_tid th) (macro_level m) @ log_extra m th func @ text @
       '' - '' @ basename file @ '' : '' @ decimal_int line @ [CHR 0x0A]"

lemma log_statement_writes:
  assumes "m = LOG_TRACE \<Longrightarrow> g_logLevel w = TRACE"
  shows "log_statement m th file line func text w = (macro_level m = FATAL,
    snd (sys (SysWrite 1 (log_line m th file line func text (fst (ts_now w)))) (snd (ts_now w))))"
  using assms
  by (cases m) (simp_all add: log_statement_def logLevel_def logger_info_def logger_level_def logger_function_def logger_errno_def
      new_impl_def delete_logger_def finish_def stream_def log_line_def log_extra_def case_prod_beta Let_def)

lemma trace_level: "\<not> l \<le> TRACE \<longleftrightarrow> l \<noteq> TRACE"
  by (cases l) (simp_all add: less_eq_log_level_def)

lemma message_head_time:
  "in_years t \<Longrightarrow> take 26 (message_head t tid l) = toFormatString t"
  using toFormatString_digits [of t] by (simp add: message_head_def snprintf_def)

lemma log_line_time: "in_years t \<Longrightarrow> take 26 (log_line m th file line func text t) = toFormatString t"
proof -
  assume t: "in_years t"
  have "26 \<le> length (message_head t (by_tid th) (macro_level m))"
    using toFormatString_digits [OF t] by (simp add: message_head_def snprintf_def)
  then show ?thesis using message_head_time [OF t] by (simp add: log_line_def)
qed

lemma append_less_take: "take k a < take k b \<Longrightarrow> length (take k a) = length (take k b) \<Longrightarrow> a < (b :: string)"
  using append_less [of "take k a" "take k b" "drop k a" "drop k b"] by simp

text \<open>C40: what a log statement does. A \<open>LOG_TRACE\<close> does nothing unless the level is TRACE; any other
  statement, whatever \<open>setLogLevel\<close> was called with, writes one line, made of the time, the thread,
  the level, its text, the file and the line, and aborts exactly at level FATAL. The line starts with
  the time, so the lines of two statements sort as their times do.\<close>

theorem log_statement_line:
  fixes m m' :: log_macro and th th' :: log_thread and src src' func func' body body' :: string and line line' :: int
  assumes "in_years (fst (ts_now w))" and "in_years (fst (ts_now w'))"
    and "g_logLevel w = TRACE" and "fst (ts_now w) < fst (ts_now w')"
  defines "l \<equiv> log_line m th src line func body (fst (ts_now w))"
    and "l' \<equiv> log_line m' th' src' line' func' body' (fst (ts_now w'))"
  shows "fst (log_statement m th src line func body w) = (macro_level m = FATAL) \<and>
    sysLog (snd (log_statement m th src line func body w)) = sysLog w @ [SysGettimeofday, SysWrite 1 l] \<and>
    log_statement m' th' src' line' func' body' w' =
      (if m' = LOG_TRACE \<and> g_logLevel w' \<noteq> TRACE then (False, w')
       else (macro_level m' = FATAL, snd (sys (SysWrite 1 l') (snd (ts_now w'))))) \<and>
    l < l'"
proof -
  have "log_statement m' th' src' line' func' body' w' = (False, w')" if "m' = LOG_TRACE" "g_logLevel w' \<noteq> TRACE"
    using that by (simp add: log_statement_def logLevel_def trace_level)
  moreover have "l < l'"
  proof (rule append_less_take)
    show "take 26 l < take 26 l'"
      using assms(1,2,4) dates_less [OF assms(1,2)] by (simp add: l_def l'_def log_line_time)
    show "length (take 26 l) = length (take 26 l')"
      using toFormatString_digits [OF assms(1)] toFormatString_digits [OF assms(2)]
      by (simp only: l_def l'_def log_line_time [OF assms(1)] log_line_time [OF assms(2)]) simp
  qed
  ultimately show ?thesis
    using log_statement_writes [of m w th src line func body] log_statement_writes [of m' w' th' src' line' func' body'] assms(3)
    by (auto simp: l_def l'_def)
qed

definition clock_kernel :: "int \<Rightarrow> syscall list \<Rightarrow> syscall \<Rightarrow> kres" where
  "clock_kernel s calls call = (ret 0)\<lparr>kfst := s, ksnd := 5\<rparr>"

definition example_thread :: log_thread where
  "example_thread = \<lparr>by_tid = 42, by_errno = 0, by_strerror = (\<lambda>_. [])\<rparr>"

theorem log_statement_line_witness:
  defines "w \<equiv> \<lparr>kernel = clock_kernel 1473379200, sysLog = [], g_logLevel = TRACE\<rparr>"
    and "w' \<equiv> \<lparr>kernel = clock_kernel 1473379201, sysLog = [], g_logLevel = DEBUG\<rparr>"
  shows "fst (log_statement LOG_FATAL example_thread ''a/b.cc'' 7 ''f'' ''x'' w) \<and>
    log_statement LOG_TRACE example_thread ''b.cc'' 8 ''g'' ''y'' w' = (False, w')"
proof -
  have t: "fst (ts_now w) = 1473379200000005" "fst (ts_now w') = 1473379201000005" "g_logLevel w = TRACE" "g_logLevel w' = DEBUG"
    by (simp_all add: w_def w'_def ts_now_def sys_def clock_kernel_def ts_of_timeval_def kMicroSecondPerSecond_def int64_def ret_def)
  have "in_years (fst (ts_now w))" "in_years (fst (ts_now w'))" unfolding t by (simp_all add: in_years_def kMicroSecondPerSecond_def)
  from log_statement_line [OF this t(3), of LOG_FATAL example_thread "''a/b.cc''" 7 "''f''" "''x''" LOG_TRACE example_thread "''b.cc''" 8 "''g''" "''y''"]
  show ?thesis by (simp add: t)
qed

end
