(* ===== verification/Test_Programs.thy ===== *)
theory Test_Programs
  imports Tcp_Connection Loop_Setup Atomic Logging
begin

text \<open>
  The test programs of the library that can be followed without a running kernel:
  \<^verbatim>\<open>base/test/Atomic_test.cc\<close>, \<^verbatim>\<open>base/test/Log_test.cc\<close>, \<^verbatim>\<open>base/test/Timestamp_unittest.cc\<close>,
  \<^verbatim>\<open>net/test/test2_eventloop.cc\<close>, \<^verbatim>\<open>net/test.cc\<close> and \<^verbatim>\<open>net/test2.cc\<close>. Their assertions are theorems
  here, and so is what the two programs that are made to die die of.
\<close>

section \<open>Atomic counters\<close>

text \<open>\<open>assert(i32.op() == n)\<close>, which leaves the counter as the operation does.\<close>

definition expect :: "'w::len atomic \<Rightarrow> 'w word \<Rightarrow> 'w word \<Rightarrow> 'w word res" where
  "expect op n v = (let (x, v') = op v in assertR (x = n) (Inr v'))"

definition atomic_test_main :: "32 word res" where
  "atomic_test_main =
     bindR (expect atomic_get 0 atomic_new) (\<lambda>i32.
     bindR (expect (atomic_getAndAdd 3) 0 i32) (\<lambda>i32.
     bindR (expect atomic_get 3 i32) (\<lambda>i32.
     bindR (expect (atomic_addAndGet 4) 7 i32) (\<lambda>i32.
     bindR (expect atomic_get 7 i32) (\<lambda>i32.
     bindR (expect atomic_get 11 (atomic_add 4 i32)) (\<lambda>i32.
     bindR (expect atomic_get 12 (atomic_increment i32)) (\<lambda>i32.
     bindR (expect atomic_getAndIncrement 12 i32) (\<lambda>i32.
     bindR (expect atomic_get 13 i32) (\<lambda>i32.
     bindR (expect atomic_incrementAndGet 14 i32) (\<lambda>i32.
       expect atomic_get 13 (atomic_decrement i32)))))))))))"

theorem atomic_test_passes: "atomic_test_main = Inr 13"
  by (simp add: atomic_test_main_def expect_def atomic_new_def atomic_get_def atomic_getAndAdd_def atomic_addAndGet_def
      atomic_add_def atomic_increment_def atomic_decrement_def atomic_getAndIncrement_def atomic_incrementAndGet_def Let_def)

section \<open>Logging\<close>

text \<open>Statements one after the other, up to the first that aborts; the result says whether one did.\<close>

fun log_statements ::
  "log_thread \<Rightarrow> string \<Rightarrow> string \<Rightarrow> (log_macro \<times> int \<times> string) list \<Rightarrow> 'z loggingw_scheme \<Rightarrow> bool \<times> 'z loggingw_scheme" where
  "log_statements th src func [] w = (False, w)"
| "log_statements th src func ((m, line, body) # ss) w = (let (aborted, w1) = log_statement m th src line func body w
     in if aborted then (True, w1) else log_statements th src func ss w1)"

definition log_test_statements :: "(log_macro \<times> int \<times> string) list" where
  "log_test_statements =
     [(LOG_INFO, 12, ''this is logging test''), (LOG_DEBUG, 13, ''this is debug''), (LOG_WARN, 14, ''THIS IS WARN''),
      (LOG_ERROR, 15, ''THIS IS ERROR''), (LOG_FATAL, 16, ''THIS IS FATAL''), (LOG_SYSERR, 17, ''THIS IS SYSTEM ERROR''),
      (LOG_SYSFATAL, 18, ''THIS IS SYSTEM FATAL'')]"

text \<open>The logger of line 11 would write its line at the end of \<open>main\<close>.\<close>

definition log_test_main :: "log_thread \<Rightarrow> string \<Rightarrow> 'z loggingw_scheme \<Rightarrow> bool \<times> 'z loggingw_scheme" where
  "log_test_main th src w = (let (logger, w1) = logger_info th src 11 w;
       (aborted, w2) = log_statements th src ''main'' log_test_statements w1
     in if aborted then (True, w2) else delete_logger logger w2)"

text \<open>The lines that a program writes.\<close>

fun written :: "syscall list \<Rightarrow> string list" where
  "written [] = []"
| "written (SysWrite fd data # cs) = data # written cs"
| "written (_ # cs) = written cs"

lemma written_append: "written (xs @ ys) = written xs @ written ys"
  by (induction xs rule: written.induct) simp_all

lemma log_statement_written:
  assumes "m \<noteq> LOG_TRACE"
  shows "\<exists>w' t. log_statement m th src line func body w = (macro_level m = FATAL, w') \<and>
    written (sysLog w') = written (sysLog w) @ [log_line m th src line func body t]"
  using log_statement_writes [of m w th src line func body] assms
  by (auto simp: written_append ts_now_def Let_def case_prod_beta intro: exI [of _ "fst (ts_now w)"])

text \<open>
  The program writes five lines and aborts in the fifth statement: whatever the level, the two system
  errors are never reported, and neither is the logger's own line written.
\<close>

theorem log_test_aborts:
  "\<exists>w' t1 t2 t3 t4 t5. log_test_main th src w = (True, w') \<and> written (sysLog w') = written (sysLog w) @
     [log_line LOG_INFO th src 12 ''main'' ''this is logging test'' t1, log_line LOG_DEBUG th src 13 ''main'' ''this is debug'' t2,
      log_line LOG_WARN th src 14 ''main'' ''THIS IS WARN'' t3, log_line LOG_ERROR th src 15 ''main'' ''THIS IS ERROR'' t4,
      log_line LOG_FATAL th src 16 ''main'' ''THIS IS FATAL'' t5]"
proof -
  define w1 where "w1 = snd (logger_info th src 11 w)"
  have start: "written (sysLog w1) = written (sysLog w)"
    by (simp add: w1_def logger_info_def new_impl_def Let_def case_prod_beta ts_now_def written_append)
  obtain w2 t1 where 1: "log_statement LOG_INFO th src 12 ''main'' ''this is logging test'' w1 = (False, w2)"
    "written (sysLog w2) = written (sysLog w1) @ [log_line LOG_INFO th src 12 ''main'' ''this is logging test'' t1]"
    using log_statement_written [of LOG_INFO] by fastforce
  obtain w3 t2 where 2: "log_statement LOG_DEBUG th src 13 ''main'' ''this is debug'' w2 = (False, w3)"
    "written (sysLog w3) = written (sysLog w2) @ [log_line LOG_DEBUG th src 13 ''main'' ''this is debug'' t2]"
    using log_statement_written [of LOG_DEBUG] by fastforce
  obtain w4 t3 where 3: "log_statement LOG_WARN th src 14 ''main'' ''THIS IS WARN'' w3 = (False, w4)"
    "written (sysLog w4) = written (sysLog w3) @ [log_line LOG_WARN th src 14 ''main'' ''THIS IS WARN'' t3]"
    using log_statement_written [of LOG_WARN] by fastforce
  obtain w5 t4 where 4: "log_statement LOG_ERROR th src 15 ''main'' ''THIS IS ERROR'' w4 = (False, w5)"
    "written (sysLog w5) = written (sysLog w4) @ [log_line LOG_ERROR th src 15 ''main'' ''THIS IS ERROR'' t4]"
    using log_statement_written [of LOG_ERROR] by fastforce
  obtain w6 t5 where 5: "log_statement LOG_FATAL th src 16 ''main'' ''THIS IS FATAL'' w5 = (True, w6)"
    "written (sysLog w6) = written (sysLog w5) @ [log_line LOG_FATAL th src 16 ''main'' ''THIS IS FATAL'' t5]"
    using log_statement_written [of LOG_FATAL] by fastforce
  have "log_test_main th src w = (True, w6)"
    using 1(1) 2(1) 3(1) 4(1) 5(1) by (simp add: log_test_main_def log_test_statements_def case_prod_beta Let_def w1_def)
  moreover have "written (sysLog w6) = written (sysLog w) @
     [log_line LOG_INFO th src 12 ''main'' ''this is logging test'' t1, log_line LOG_DEBUG th src 13 ''main'' ''this is debug'' t2,
      log_line LOG_WARN th src 14 ''main'' ''THIS IS WARN'' t3, log_line LOG_ERROR th src 15 ''main'' ''THIS IS ERROR'' t4,
      log_line LOG_FATAL th src 16 ''main'' ''THIS IS FATAL'' t5]"
    using start 1(2) 2(2) 3(2) 4(2) 5(2) by simp
  ultimately show ?thesis by blast
qed

section \<open>Time stamps, addresses, lines\<close>

text \<open>What the programs print.\<close>

definition passByValue :: "timestamp \<Rightarrow> string" where
  "passByValue time = ''pass by value:'' @ toFormatString time @ [CHR 0x0A]"

definition passByRef :: "timestamp \<Rightarrow> string" where
  "passByRef time = ''pass by reference:'' @ toFormatString time @ [CHR 0x0A]"

definition timestamp_unittest_main :: "'z kworld_scheme \<Rightarrow> string \<times> 'z kworld_scheme" where
  "timestamp_unittest_main w = (let (ts, w1) = ts_now w
     in (''time:'' @ ts_toString ts @ [CHR 0x0A] @ ''time:'' @ toFormatString ts @ [CHR 0x0A] @ passByValue ts @ passByRef ts, w1))"

text \<open>An address is read and printed; without an argument \<open>argv[1]\<close> is a null pointer.\<close>

definition address_test_main :: "log_thread \<Rightarrow> string \<Rightarrow> int \<Rightarrow> string list \<Rightarrow> 'z loggingw_scheme \<Rightarrow> 'z loggingw_scheme res" where
  "address_test_main th src pid args w = (let w2 = snd (log_statements th src ''main''
         [(LOG_INFO, 17, ''pid = '' @ decimal_int pid), (LOG_TRACE, 18, '' main function '')] w)
     in case args of
          [] \<Rightarrow> Inl UndefinedBehaviour
        | ip # _ \<Rightarrow> Inr (snd (log_statement LOG_INFO th src 21 ''main'' (''peeraddress: '' @ inet_toHostPort (inet_from ip 2016)) w2)))"

definition cat_main :: "string list \<Rightarrow> string" where
  "cat_main std_in = concat (map (\<lambda>line. line @ [CHR 0x0A]) std_in)"

section \<open>A loop and the wrong thread\<close>

text \<open>The loop is made by the main thread, and a second thread, \<open>tid\<close>, runs it.\<close>

definition test2_eventloop_main ::
  "(functor_t \<Rightarrow> 'z timerw_scheme \<Rightarrow> 'z timerw_scheme res) \<Rightarrow> (chan_cb \<Rightarrow> timestamp \<Rightarrow> 'z timerw_scheme \<Rightarrow> 'z timerw_scheme res) \<Rightarrow>
   bool \<Rightarrow> nat \<Rightarrow> timestamp \<times> nat \<Rightarrow> nat \<times> int \<Rightarrow> int \<Rightarrow> 'z timerw_scheme \<Rightarrow> 'z timerw_scheme res option" where
  "test2_eventloop_main exec run summer_poll l e ea tid w =
     (case new_event_loop summer_poll l (l + 1) (l + 2) (l + 3) e ea w of
        Inl f \<Rightarrow> Some (Inl f)
      | Inr w1 \<Rightarrow> el_loop exec run l (w1\<lparr>curTid := tid\<rparr>))"

text \<open>The program dies in \<open>assertInLoopThread()\<close>: no thread but the one that made a loop can run it.\<close>

theorem test2_eventloop_dies:
  assumes "new_descriptors (kernel w) ep ev tm" and "epoll_documented (kernel w) ep" and "watched (kernel w) ep (sysLog w) = {}"
    and "threadLoop w (curTid w) = None" and "tid \<noteq> curTid w"
  shows "test2_eventloop_main exec run summer_poll l e ea tid w = Some (Inl FatalLog)"
proof -
  obtain w1 where w1: "new_event_loop summer_poll l (l + 1) (l + 2) (l + 3) e ea w = Inr w1"
    "loop_made l (l + 1) (l + 2) (l + 3) ev tm w1" "curTid w1 = curTid w"
    using loop_constructed [OF assms(1-3), of "l + 1" "l + 3" summer_poll l "l + 2" e ea] assms(4) by auto
  then obtain x where x: "loops w1 l = Some x" "\<not> el_looping x" "isInLoopThread l w1"
    using loop_ok_thread [of l w1] by (auto simp: loop_made_def)
  with w1(3) assms(5) have "\<not> isInLoopThread l (w1\<lparr>curTid := tid\<rparr>)" by (simp add: isInLoopThread_def)
  with x w1(1) show ?thesis by (simp add: test2_eventloop_main_def el_loop_def el_get_def)
qed

end
