(* ===== verification/Spec2Isabelle.thy ===== *)
theory Spec2Isabelle
  imports Codec Service Loop_Wakeup Loop_Thread Test_Programs
begin

text \<open>
  A verification development for \<^verbatim>\<open>summer\<close>, a network library in C++ (\<^verbatim>\<open>src/base\<close>, \<^verbatim>\<open>src/net\<close>)
  with a publish/subscribe hub on top of it (\<^verbatim>\<open>src/net/hub\<close>) and two echo programs.

  \<^bold>\<open>The program.\<close> A thread owns at most one \<open>EventLoop\<close>. The loop asks its \<open>Poller\<close> (over \<open>poll\<close> or
  \<open>epoll\<close>) which descriptors are ready, has the \<open>Channel\<close> of each call back, and then runs the
  functors that were queued for it, by its own thread or by others, which wake it up through an
  \<open>eventfd\<close>. Timers sit in a \<open>TimerQueue\<close>, which is one more channel, on a \<open>timerfd\<close>. On top of the
  loop are the \<open>Acceptor\<close> and the \<open>Connector\<close>, which make sockets, the \<open>TcpConnection\<close> with an input and
  an output \<open>Buffer\<close>, and its owners \<open>TcpServer\<close> and \<open>TcpClient\<close>, which are told of its end by the
  close callback and hand it to its loop for destruction. The hub is a server whose messages are
  parsed by \<open>parseMessage\<close>; \<open>PubSubClient\<close> is a client that speaks to it.

  \<^bold>\<open>How it is modelled.\<close> A C++ object is a record, an address a \<open>nat\<close>, the heap a record of maps from
  addresses to objects: \<open>kworld\<close> (the kernel), \<open>heapw\<close> (channels), \<open>reactor\<close> (loops), \<open>timerw\<close>, \<open>netw\<close>
  (connections), \<open>serverw\<close>, \<open>clientw\<close>, \<open>hubw\<close>, \<open>pubsubw\<close>, \<open>echow\<close> and \<open>progw\<close>, each extending the one
  before it, so that an operation is stated on the state it needs and applies in every larger one. A
  statement is a function from the state to \<open>fault + state\<close>. The faults of \<open>Prelude\<close> are a failed
  \<open>assert\<close>, the \<open>abort()\<close> of a fatal log line, a C++ exception, undefined behaviour (a null or dangling
  pointer, a signed overflow, an index out of range) and a handler that does not stop. \<open>new\<close> takes the
  address of the new object as an argument. Event masks, ports and counters are words; the offsets
  of a buffer are integers, with the conversions to \<open>int\<close> and \<open>size_t\<close> written where the code has
  them. The operating system is a parameter, \<open>kernel\<close>: any function from the calls made so far and
  the next call to an answer; what a theorem needs of it (\<open>write_documented\<close>, \<open>running_clock\<close>, and so
  on) is a hypothesis that states its documented behaviour. Callbacks are the \<open>bind\<close> expressions of
  the sources as values (\<open>chan_cb\<close>, \<open>functor_t\<close>, \<open>close_cb\<close>, \<open>user_cb\<close>). The theories of the library
  take their effect as an argument; \<open>Program\<close> ties the knot with the code they stand for.

  \<^bold>\<open>Theories.\<close>
  \<^item> \<open>Prelude\<close>: faults, sequencing (\<open>bindR\<close>, \<open>assertR\<close>, \<open>foldR\<close>), lists and offsets. \<open>Kernel\<close>: system calls.
    \<open>Printf\<close>: \<open>%d\<close>, \<open>%4d\<close>, \<open>%02d\<close> and \<open>snprintf\<close>.
  \<^item> \<open>Atomic\<close> (\<^verbatim>\<open>base/Atomic.h\<close>), \<open>Timestamp\<close> and \<open>Timestamp_Format\<close> (\<^verbatim>\<open>base/Timestamp.cc\<close>; the calendar stands
    for \<open>gmtime_r\<close>), \<open>Logging\<close> (\<^verbatim>\<open>base/Logging.cc\<close>: the line every macro writes, and when it aborts).
  \<^item> \<open>Buffer\<close> (\<^verbatim>\<open>net/Buffer.cc\<close>): every operation over the vector and its two indices; the contents as a
    queue of bytes (locale \<open>byte_queue\<close>). \<open>Codec\<close> (\<^verbatim>\<open>net/hub/codec.cc\<close>): the parser on buffers, equal to one
    on byte strings; the locale \<open>framing\<close> says what a parser and a writer owe each other and is
    interpreted on \<open>parseMessage\<close>; \<open>digest\<close> is what calling the parser again and again makes of any bytes.
  \<^item> \<open>Channel\<close>, \<open>Poller\<close>, \<open>Poll_Poller\<close>, \<open>Epoll_Poller\<close>, \<open>Default_Poller\<close> (\<^verbatim>\<open>net/Channel.cc\<close>, \<^verbatim>\<open>net/poller\<close>): the
    locale \<open>poller\<close> is the contract of the abstract class, \<open>waiting_poller\<close> adds removal; both are
    interpreted on the two implementations and \<open>waiting_poller\<close> on the dispatch between them.
  \<^item> \<open>Event_Loop\<close> and \<open>Loop_Setup\<close> (\<^verbatim>\<open>net/EventLoop.cc\<close>), \<open>Timer_Queue\<close> (\<^verbatim>\<open>net/TimerQueue.cc\<close>, \<^verbatim>\<open>net/Timer.cc\<close>).
    \<open>Loop_Wakeup\<close>: the functor queue and the wake-up under every interleaving of threads, inside and
    outside of \<open>loop()\<close>, as a step relation, each of whose steps on the queue is shown to be the code's.
  \<^item> \<open>Monitor\<close> (\<^verbatim>\<open>base/Mutex.h\<close>, \<^verbatim>\<open>base/Condition.h\<close>, \<^verbatim>\<open>base/CountDownLatch.cc\<close>) and \<open>Loop_Thread\<close>
    (\<^verbatim>\<open>base/Thread.cc\<close>, \<^verbatim>\<open>net/EventLoopThread.cc\<close>): step relations between lock operations, spurious
    wake-ups included. The locale \<open>guarded\<close> (a critical section excludes the others) is interpreted
    on both.
  \<^item> \<open>Socket_Ops\<close> (\<^verbatim>\<open>net/SocketOpts.cc\<close>, \<^verbatim>\<open>net/Socket.cc\<close>, \<^verbatim>\<open>net/InetAddress.cc\<close>), \<open>Tcp_Connection\<close>
    (\<^verbatim>\<open>net/TcpConnection.cc\<close>), \<open>Tcp_Stream\<close> (the life and the output stream of one connection),
    \<open>Tcp_Delivery\<close> (many connections on a loop, locale \<open>postbox\<close>), \<open>Owner\<close> (locale \<open>conn_owner\<close>: what owners
    promise connections), \<open>Tcp_Server\<close> (\<^verbatim>\<open>net/TcpServer.cc\<close>, \<^verbatim>\<open>net/Acceptor.cc\<close>,
    \<^verbatim>\<open>net/EventLoopThreadPool.cc\<close>) and \<open>Tcp_Client\<close> (\<^verbatim>\<open>net/TcpClient.cc\<close>, \<^verbatim>\<open>net/Connector.cc\<close>), which
    interpret \<open>conn_owner\<close>.
  \<^item> \<open>Hub\<close> (\<^verbatim>\<open>net/hub/hub.cc\<close>) refines an abstract broker; \<open>Pubsub_Client\<close> (\<^verbatim>\<open>net/hub/pubsub.cc\<close>); \<open>Echo\<close>
    (\<^verbatim>\<open>net/EchoServer_test.cc\<close>, \<^verbatim>\<open>net/EchoClient_test.cc\<close>).
  \<^item> \<open>Program\<close>: the callbacks resolved to code, and the five \<open>main\<close> functions up to the return of \<open>loop()\<close>.
    \<open>Frames\<close>: what no operation of a client program changes, followed through its loop. \<open>Service\<close>: from
    the bytes that the kernel delivers to the output of every connection.
  \<^item> \<open>Test_Programs\<close>: six of the programs under \<^verbatim>\<open>base/test\<close> and \<^verbatim>\<open>net/test\<close>, with their assertions proved.

  \<^bold>\<open>What is shown.\<close> Pollers: every change of a channel keeps vector, map, indices and kernel set in
  step. Loop: functors run once and in order; no wake-up is lost as long as other threads use
  \<open>runInLoop\<close>, but for functors that the loop's own thread queues outside of \<open>loop()\<close>; \<open>loop()\<close> returns after the iteration that sees \<open>quit_\<close>. Timers: exactly those expired run,
  the two sets stay consistent, the descriptor is armed for the earliest. Buffer and connection:
  append, retrieve and \<open>readFd\<close> on every branch; messages leave a connection in order and without
  gaps, whatever short writes the kernel makes. Server and client: fresh names, round robin, every
  closed connection given up once, one retry for each failed attempt. Hub: a batch of messages has
  the effect that the broker promises; and so has any sequence of arrivals on all its connections, from
  \<open>readv\<close> to the outputs, whatever the bytes are, up to the event in which a message crashes the hub or
  overruns the input buffer. There the connections stay connected, and the outputs have
  room for what the broker gives them. What the hub has given a connection is what a client hears. The clients of the hub stay well-formed and never return
  from their loops. Threads: mutual
  exclusion, \<open>wait()\<close> and \<open>startLoop()\<close> return. Logging: one line for each statement. Where the code does
  not do what it means to, a theorem says what it does instead: the properties of kind error, and
  the texts above them.

  \<^bold>\<open>Loops and fuel.\<close> Loops over data are structural recursions. Loops that may run for ever are
  \<open>partial_function (option)\<close>, with \<open>None\<close> for not returning: \<open>loop_while\<close>, \<open>hub_loop\<close>, \<open>ps_onMessage\<close>
  and \<open>read_stream\<close> (the two loops around the parser without what they do with a message). That
  they return is proved where they do, in the properties of the loop, the hub and its clients. \<open>digest\<close>
  ends because every message it finds makes the bytes fewer. No definition takes fuel. Interleavings are inductive step relations; their
  liveness theorems bound the number of steps and show that somebody can move until the end.
  Bounds: buffers below \<open>2 ^ 30\<close> bytes, descriptors below \<open>2 ^ 30\<close> (the kernel's own limit), \<open>int\<close> counters
  below \<open>2 ^ 31\<close>, where the overflow is a fault.

  \<^bold>\<open>Not modelled.\<close> The log output of components other than \<open>Logging\<close> itself. Reference counts of
  \<open>shared_ptr\<close>, and the destructors that run after \<open>loop()\<close> has returned in a \<open>main\<close>; a connection stays
  in the store after \<open>connectionDestroyed\<close>, and the close of its socket by \<open>~Socket\<close> with it. Threads
  against the same objects outside \<open>Loop_Wakeup\<close>, \<open>Monitor\<close> and \<open>Loop_Thread\<close>: the other theories run one
  thread at a time, and calls of another thread are the branches that test \<open>isInLoopThread\<close>. The weak
  memory of the machine. The test programs that only print what the scheduler and the clock make of
  the library.
\<close>

end
